(* ===== verification/Prelude.thy ===== *)
theory Prelude
  imports Main "HOL-Library.Word" "HOL-Library.Monad_Syntax"
begin

unbundle bit_operations_syntax

text \<open>
  Shared vocabulary of the development: the machine integers of the C sources, the
  characters and the few functions of the C library the sources call on text
  (\<open>isspace\<close>, \<open>tolower\<close>, the integer conversions of \<open>printf\<close>), and the generic
  lemmas on lists, options and words that the component theories share. Sizes and
  offsets of type \<open>size_t\<close> are natural numbers; counters and wire fields keep their
  width as words.
\<close>

type_synonym u8 = "8 word"
type_synonym u16 = "16 word"
type_synonym u32 = "32 word"
type_synonym u64 = "64 word"
type_synonym bytes = "8 word list"

text \<open>Unfolding facts of the model's small helper definitions, used by the evaluation proofs.\<close>

named_theorems model_defs

section \<open>Characters\<close>

text \<open>A C string is the list of its characters before the terminating NUL.\<close>

abbreviation ascii :: "char \<Rightarrow> nat" where
  "ascii c \<equiv> of_char c"

definition isspace :: "char \<Rightarrow> bool" where
  "isspace c \<longleftrightarrow> ascii c = 32 \<or> (9 \<le> ascii c \<and> ascii c \<le> 13)"

definition tolower :: "char \<Rightarrow> char" where
  "tolower c = (if 65 \<le> ascii c \<and> ascii c \<le> 90 then char_of (ascii c + 32) else c)"

lemma char_eq_ascii: "c = d \<longleftrightarrow> ascii c = ascii d"
  by simp

section \<open>Integer conversions of printf\<close>

text \<open>The digits of \<open>%u\<close>, and of \<open>%0nX\<close> for a value that fits \<open>n\<close> digits.\<close>

definition dec_digit :: "nat \<Rightarrow> char" where
  "dec_digit n = char_of (48 + n)"

fun fmt_u :: "nat \<Rightarrow> string" where
  "fmt_u n = (if n < 10 then [dec_digit n] else fmt_u (n div 10) @ [dec_digit (n mod 10)])"

declare fmt_u.simps [simp del]

definition hex_digit :: "nat \<Rightarrow> char" where
  "hex_digit n = (if n < 10 then char_of (48 + n) else char_of (55 + n))"

primrec fmt_0X :: "nat \<Rightarrow> nat \<Rightarrow> string" where
  "fmt_0X 0 v = []"
| "fmt_0X (Suc w) v = fmt_0X w (v div 16) @ [hex_digit (v mod 16)]"

definition hex_digit_lower :: "nat \<Rightarrow> char" where
  "hex_digit_lower n = (if n < 10 then char_of (48 + n) else char_of (87 + n))"

text \<open>\<open>%0nx\<close>, for a value that fits \<open>n\<close> digits.\<close>

primrec fmt_0x :: "nat \<Rightarrow> nat \<Rightarrow> string" where
  "fmt_0x 0 v = []"
| "fmt_0x (Suc w) v = fmt_0x w (v div 16) @ [hex_digit_lower (v mod 16)]"

lemma ascii_hex_digit: "n < 16 \<Longrightarrow> ascii (hex_digit n) = (if n < 10 then 48 + n else 55 + n)"
  by (simp add: hex_digit_def)

lemma length_fmt_0X [simp]: "length (fmt_0X w v) = w"
  by (induction w arbitrary: v) simp_all

definition nl :: string where "nl = [CHR 0x0A]"

section \<open>Arrays\<close>

text \<open>\<open>memcpy(&array[i], d, length d)\<close> inside the array's bounds.\<close>

definition store_at :: "bytes \<Rightarrow> nat \<Rightarrow> bytes \<Rightarrow> bytes" where
  "store_at a i d = take i a @ d @ drop (i + length d) a"

lemma length_store_at [simp]: "i + length d \<le> length a \<Longrightarrow> length (store_at a i d) = length a"
  by (simp add: store_at_def)

text \<open>A file read in blocks of \<open>n\<close> bytes: the non-empty results of \<open>fread\<close>.\<close>

function chunks :: "nat \<Rightarrow> bytes \<Rightarrow> bytes list" where
  "chunks n d = (if n = 0 \<or> d = [] then [] else take n d # chunks n (drop n d))"
  by pat_completeness auto
termination by (relation "measure (\<lambda>(n, d). length d)") auto

declare chunks.simps [simp del]

lemma chunks_Nil [simp]: "chunks n [] = []"
  by (simp add: chunks.simps)

lemma concat_chunks: "0 < n \<Longrightarrow> concat (chunks n d) = d"
  by (induction n d rule: chunks.induct) (subst chunks.simps, simp)

lemma chunks_bounds: "0 < n \<Longrightarrow> c \<in> set (chunks n d) \<Longrightarrow> c \<noteq> [] \<and> length c \<le> n"
proof (induction n d rule: chunks.induct)
  case (1 n d)
  show ?case
  proof (cases "d = []")
    case False
    then have "c = take n d \<or> c \<in> set (chunks n (drop n d))"
      using "1.prems" by (subst (asm) chunks.simps) simp
    then show ?thesis using "1.IH" "1.prems" False by auto
  qed (use "1.prems" in simp)
qed

lemma length_chunks: "0 < n \<Longrightarrow> length (chunks n d) = (length d + n - 1) div n"
proof (induction n d rule: chunks.induct)
  case (1 n d)
  show ?case
  proof (cases "d = []")
    case False
    have "length (chunks n d) = Suc (length (chunks n (drop n d)))"
      using "1.prems" False by (subst chunks.simps) simp
    also have "\<dots> = Suc ((length d - n + n - 1) div n)" using "1.IH" "1.prems" False by simp
    also have "\<dots> = (length d + n - 1) div n"
    proof (cases "n \<le> length d")
      case True
      then have "length d + n - 1 = (length d - n + n - 1) + n" using "1.prems" by simp
      then show ?thesis using "1.prems" by (simp only: div_add_self2)
    next
      case less: False
      have l: "length d + n - 1 = (length d - 1) + n" using False by (cases d) simp_all
      have "(length d - 1) div n = 0" "(length d - n + n - 1) div n = 0"
        using less "1.prems" by (simp_all add: div_less)
      then show ?thesis unfolding l using "1.prems" by (simp only: div_add_self2)
    qed
    finally show ?thesis .
  qed (use "1.prems" in simp)
qed

section \<open>Loops\<close>

text \<open>
  A C loop whose body may leave it: the body maps the loop's state either to the result
  with which the loop is left (\<open>Inl\<close>: the guard fails, \<open>break\<close> or \<open>return\<close>) or to the
  state of the next iteration (\<open>Inr\<close>). \<open>None\<close> is a loop, or a body, that never returns.
\<close>

partial_function (option) c_loop :: "('s \<Rightarrow> ('r + 's) option) \<Rightarrow> 's \<Rightarrow> 'r option" where
  "c_loop body s =
     (case body s of
        None \<Rightarrow> None
      | Some (Inl r) \<Rightarrow> Some r
      | Some (Inr s') \<Rightarrow> c_loop body s')"

declare c_loop.simps [code]

text \<open>A loop that returns: an invariant of the body holds up to the iteration that leaves.\<close>

lemma c_loop_partial:
  assumes "c_loop body s = Some r" and "I s"
    and step: "\<And>s s'. I s \<Longrightarrow> body s = Some (Inr s') \<Longrightarrow> I s'"
    and exit: "\<And>s r. I s \<Longrightarrow> body s = Some (Inl r) \<Longrightarrow> Q r"
  shows "Q r"
proof -
  have "b = body \<longrightarrow> I s \<longrightarrow> Q r" if "c_loop b s = Some r" for b s r
  proof (rule c_loop.raw_induct [where P = "\<lambda>b s r. b = body \<longrightarrow> I s \<longrightarrow> Q r", OF _ that])
    fix f b s r
    assume "\<And>b s r. f b s = Some r \<Longrightarrow> b = body \<longrightarrow> I s \<longrightarrow> Q r"
      and "(case b s of None \<Rightarrow> None | Some (Inl r) \<Rightarrow> Some r | Some (Inr s') \<Rightarrow> f b s') = Some r"
    then show "b = body \<longrightarrow> I s \<longrightarrow> Q r"
      using step exit by (fastforce split: option.splits sum.splits)
  qed
  with assms(1,2) show ?thesis by blast
qed

text \<open>
  A loop that must return: under the invariant the body never blocks, and every iteration
  decreases a measure.
\<close>

lemma c_loop_total:
  assumes "I s"
    and step: "\<And>s s'. I s \<Longrightarrow> body s = Some (Inr s') \<Longrightarrow> I s' \<and> m s' < (m s :: nat)"
    and exit: "\<And>s r. I s \<Longrightarrow> body s = Some (Inl r) \<Longrightarrow> Q r"
    and live: "\<And>s. I s \<Longrightarrow> body s \<noteq> None"
  shows "\<exists>r. c_loop body s = Some r \<and> Q r"
  using \<open>I s\<close>
proof (induction s rule: measure_induct_rule [where f = m])
  case (less s)
  from live [OF less.prems] obtain x where x: "body s = Some x" by blast
  show ?case
  proof (cases x)
    case (Inl r)
    with x exit [OF less.prems] show ?thesis by (simp add: c_loop.simps)
  next
    case (Inr s')
    with x step [OF less.prems] have "I s'" "m s' < m s" by auto
    from less.IH [OF this(2,1)] x Inr show ?thesis by (simp add: c_loop.simps)
  qed
qed

lemma c_loop_returns:
  assumes "I s"
    and body: "\<And>s. I s \<Longrightarrow> \<exists>x. body s = Some x \<and>
      (case x of Inl r \<Rightarrow> Q r | Inr s' \<Rightarrow> I s' \<and> m s' < (m s :: nat))"
  shows "\<exists>r. c_loop body s = Some r \<and> Q r"
  using \<open>I s\<close>
  by (rule c_loop_total [where m = m]) (use body in fastforce)+

section \<open>Lists\<close>

lemma take_append_exact [simp]: "length xs = n \<Longrightarrow> take n (xs @ ys) = xs"
  by simp

lemma drop_append_exact [simp]: "length xs = n \<Longrightarrow> drop n (xs @ ys) = ys"
  by simp

lemma take_drop_append [simp]: "take k (drop i xs) @ drop (i + k) xs = drop i xs"
  by (metis add.commute append_take_drop_id drop_drop)

lemma nth_drop_take: "i < n \<Longrightarrow> take n xs ! i = xs ! i"
  by simp

lemma split_at: "n \<le> length xs \<Longrightarrow> xs = take n xs @ drop n xs \<and> length (take n xs) = n"
  by simp

section \<open>Words\<close>

lemma unat_u8_less [simp]: "unat (b :: u8) < 256"
  using unsigned_less [of b, where 'a=nat] by simp

lemma unat_u16_less: "unat (w :: u16) < 65536"
  using unsigned_less [of w, where 'a=nat] by simp

lemma unat_of_nat_u16: "n < 65536 \<Longrightarrow> unat (of_nat n :: u16) = n"
  by (simp add: unat_of_nat take_bit_eq_mod)

lemma unat_of_nat_u32: "n < 4294967296 \<Longrightarrow> unat (of_nat n :: u32) = n"
  by (simp add: unat_of_nat take_bit_eq_mod)

text \<open>The direction bit of an endpoint.\<close>

lemma endpoint_direction: "(w :: u8) AND 0x80 = (if bit w 7 then 0x80 else 0)"
proof -
  have e: "(0x80 :: u8) = 2 ^ 7" by simp
  show ?thesis unfolding e by (rule bit_word_eqI) (auto simp: bit_and_iff bit_exp_iff simp del: power_numeral)
qed

lemma ucast_of_nat_u16: "ucast (of_nat i :: u32) = (of_nat i :: u16)"
  by (simp add: word_unat_eq_iff unsigned_ucast_eq unsigned_of_nat min_def)

end
