(* ===== verification/Sniffer_Hex.thy ===== *)
theory Sniffer_Hex
  imports Prelude
begin

unbundle bit_operations_syntax

text \<open>
  The hexadecimal text of payloads, \<open>sniffer_hex.c\<close>: a parser that accepts separators and
  \<open>0x\<close> prefixes and refuses anything else, and the formatter. The parser's scan keeps the
  source's two variables, the output so far and \<open>high\<close>, the pending high digit or \<open>-1\<close>.
\<close>

section \<open>The code\<close>

definition hex_value :: "char \<Rightarrow> int" where
  "hex_value value =
     (if 48 \<le> ascii value \<and> ascii value \<le> 57 then int (ascii value) - 48
      else if 97 \<le> ascii (tolower value) \<and> ascii (tolower value) \<le> 102
      then int (ascii (tolower value)) - 97 + 10 else -1)"

definition hex_separator :: "char \<Rightarrow> bool" where
  "hex_separator c \<longleftrightarrow> isspace c \<or> c = CHR '':'' \<or> c = CHR ''-'' \<or> c = CHR '',''"

fun hex_scan :: "string \<Rightarrow> nat \<Rightarrow> bytes \<Rightarrow> int \<Rightarrow> bytes option" where
  "hex_scan [] capacity output high = (if 0 \<le> high \<or> output = [] then None else Some output)"
| "hex_scan (c # cursor) capacity output high =
     (if hex_separator c then hex_scan cursor capacity output high
      else if c = CHR ''x'' \<or> c = CHR ''X''
      then if high = 0 then hex_scan cursor capacity output (-1) else None
      else if hex_value c < 0 then None
      else if high < 0 then hex_scan cursor capacity output (hex_value c)
      else if capacity \<le> length output then None
      else hex_scan cursor capacity
        (output @ [push_bit 4 (word_of_int high) OR word_of_int (hex_value c)]) (-1))"

definition sniffer_parse_hex :: "string \<Rightarrow> nat \<Rightarrow> bytes option" where
  "sniffer_parse_hex text capacity = hex_scan text capacity [] (-1)"

definition sniffer_format_hex :: "bytes \<Rightarrow> nat \<Rightarrow> string option" where
  "sniffer_format_hex data capacity =
     (if capacity < length data * 2 + 1 then None
      else Some (concat (map (\<lambda>b. fmt_0X 2 (unat b)) data)))"

section \<open>Digits\<close>

lemma hex_digit_facts:
  assumes "n < 16"
  shows "hex_value (hex_digit n) = int n" "\<not> hex_separator (hex_digit n)"
    and "hex_digit n \<noteq> CHR ''x''" "hex_digit n \<noteq> CHR ''X''"
proof -
  note a = ascii_hex_digit [OF assms]
  show "hex_value (hex_digit n) = int n"
    using assms by (auto simp: hex_value_def tolower_def a)
  have sep: "ascii CHR '':'' = 58" "ascii CHR ''-'' = 45" "ascii CHR '','' = 44"
    "ascii CHR ''x'' = 120" "ascii CHR ''X'' = 88" by simp_all
  show "\<not> hex_separator (hex_digit n)"
    using assms unfolding hex_separator_def isspace_def char_eq_ascii sep a by simp
  show "hex_digit n \<noteq> CHR ''x''" "hex_digit n \<noteq> CHR ''X''"
    using assms unfolding char_eq_ascii sep a by simp_all
qed

lemma high_nibble: "unat (b :: u8) div 16 < 16"
  by (rule less_mult_imp_div_less) simp

lemma join_nibbles:
  "push_bit 4 (word_of_int (int (unat b div 16))) OR word_of_int (int (unat b mod 16)) = (b :: u8)"
proof -
  have "word_of_int (int (unat b div 16)) = drop_bit 4 b"
    by (rule word_unat_eq_iff [THEN iffD2], use high_nibble [of b] in \<open>simp add: drop_bit_eq_div unat_div unat_of_nat take_bit_eq_mod flip: of_nat_div\<close>)
  moreover have "word_of_int (int (unat b mod 16)) = take_bit 4 b"
    by (rule word_unat_eq_iff [THEN iffD2], simp add: unat_of_nat take_bit_eq_mod unat_mod flip: of_nat_mod)
  moreover have "push_bit 4 (drop_bit 4 b) OR take_bit 4 b = b"
    by (rule bit_word_eqI) (auto simp: bit_simps)
  ultimately show ?thesis by simp
qed

section \<open>What the parser does\<close>

lemma hex_scan_byte:
  "hex_scan (fmt_0X 2 (unat b) @ rest) capacity output (-1) =
     (if capacity \<le> length output then None else hex_scan rest capacity (output @ [b]) (-1))"
proof -
  have d: "unat b div 16 < 16" "unat b mod 16 < 16" using high_nibble [of b] by simp_all
  have two: "fmt_0X 2 v = [hex_digit (v div 16 mod 16), hex_digit (v mod 16)]" for v
    by (simp add: numeral_2_eq_2)
  show ?thesis
    using d join_nibbles [of b]
    by (simp add: two hex_digit_facts)
qed

lemma hex_scan_format:
  "length acc + length data \<le> capacity \<Longrightarrow>
     hex_scan (concat (map (\<lambda>b. fmt_0X 2 (unat b)) data)) capacity acc (-1) =
     (if acc @ data = [] then None else Some (acc @ data))"
  by (induction data arbitrary: acc) (simp_all add: hex_scan_byte)

lemma hex_scan_bounds:
  "hex_scan cs capacity acc high = Some d \<Longrightarrow> length acc \<le> capacity \<Longrightarrow>
     length d \<le> capacity \<and> d \<noteq> [] \<and> (\<exists>e. d = acc @ e)"
  by (induction cs capacity acc high rule: hex_scan.induct) (auto split: if_splits)

lemma hex_scan_separators:
  "hex_scan (filter (\<lambda>c. \<not> hex_separator c) cs) capacity acc high = hex_scan cs capacity acc high"
  by (induction cs capacity acc high rule: hex_scan.induct) simp_all

section \<open>Properties\<close>

text \<open>
  Round trip: the text that \<open>sniffer_format_hex\<close> writes for a non-empty payload is parsed
  back by \<open>sniffer_parse_hex\<close> to the same bytes, whenever the output array is large enough.
\<close>
lemma hex_round_trip:
  assumes "data \<noteq> []" "length data \<le> capacity" "2 * length data + 1 \<le> room"
  shows "\<exists>text. sniffer_format_hex data room = Some text \<and> length text = 2 * length data \<and>
    sniffer_parse_hex text capacity = Some data"
proof -
  have "length (concat (map (\<lambda>b. fmt_0X 2 (unat b)) data)) = 2 * length data"
    by (simp add: length_concat o_def sum_list_triv)
  then show ?thesis
    using assms hex_scan_format [of "[]" data capacity]
    by (simp add: sniffer_format_hex_def sniffer_parse_hex_def)
qed

lemma hex_round_trip_example:
  "\<exists>text. sniffer_format_hex [0xDE, 0xAD, 7] 7 = Some text \<and> length text = 6 \<and>
     sniffer_parse_hex text 3 = Some [0xDE, 0xAD, 7]"
  using hex_round_trip [of "[0xDE, 0xAD, 7]" 3 7] by simp

text \<open>
  The parser never writes more than the caller's array holds, never reports an empty
  payload, and its result does not depend on the separators in the text nor on a \<open>0x\<close> in
  front of it.
\<close>
lemma hex_parse_safe:
  "(\<forall>d. sniffer_parse_hex text capacity = Some d \<longrightarrow> d \<noteq> [] \<and> length d \<le> capacity) \<and>
   sniffer_parse_hex (filter (\<lambda>c. \<not> hex_separator c) text) capacity = sniffer_parse_hex text capacity \<and>
   sniffer_parse_hex (''0x'' @ text) capacity = sniffer_parse_hex text capacity"
proof -
  have "hex_value CHR ''0'' = 0" "\<not> hex_separator CHR ''0''" "\<not> hex_separator CHR ''x''"
    by (simp_all add: hex_value_def hex_separator_def isspace_def)
  then show ?thesis
    by (auto simp: sniffer_parse_hex_def hex_scan_separators dest: hex_scan_bounds)
qed

lemma hex_parse_safe_example:
  "[0xAB] \<noteq> ([] :: bytes) \<and> length [0xAB :: u8] \<le> 1"
proof -
  have "sniffer_parse_hex ''AB'' 1 = Some [0xAB]"
    by (simp add: sniffer_parse_hex_def hex_value_def hex_separator_def isspace_def tolower_def)
  then show ?thesis using hex_parse_safe [of "''AB''" 1] by blast
qed

end
