(* ===== verification/Byte_Order.thy ===== *)
theory Byte_Order
  imports Prelude
begin

unbundle bit_operations_syntax

text \<open>
  Little-endian readers (\<open>read_le16/32/64\<close> of \<open>sniffer_capture.c\<close>) and writers
  (\<open>putU16Le\<close>, \<open>putU32Le\<close>, \<open>putU64Le\<close> of \<open>ground_ota.c\<close> and \<open>ground_admin.c\<close>), and the
  proof that they are inverse to each other. A pointer into a buffer is the suffix of the
  buffer's bytes it points to; a writer returns the bytes it stores.
\<close>

section \<open>The code\<close>

definition read_le16 :: "bytes \<Rightarrow> u16" where
  "read_le16 d = ucast (d ! 0) OR push_bit 8 (ucast (d ! 1))"

definition read_le32 :: "bytes \<Rightarrow> u32" where
  "read_le32 d = ucast (d ! 0) OR push_bit 8 (ucast (d ! 1)) OR
     push_bit 16 (ucast (d ! 2)) OR push_bit 24 (ucast (d ! 3))"

definition read_le64 :: "bytes \<Rightarrow> u64" where
  "read_le64 d = fold (\<lambda>index value. value OR push_bit (index * 8) (ucast (d ! index))) [0..<8] 0"

definition putU16Le :: "u16 \<Rightarrow> bytes" where
  "putU16Le v = [ucast (v AND 255), ucast (drop_bit 8 v AND 255)]"

definition putU32Le :: "u32 \<Rightarrow> bytes" where
  "putU32Le v = [ucast (v AND 255), ucast (drop_bit 8 v AND 255),
     ucast (drop_bit 16 v AND 255), ucast (drop_bit 24 v AND 255)]"

definition putU64Le :: "u64 \<Rightarrow> bytes" where
  "putU64Le v = map (\<lambda>i. ucast (drop_bit (8 * i) v)) [0..<8]"

lemma length_put [simp]:
  "length (putU16Le a) = 2" "length (putU32Le b) = 4" "length (putU64Le c) = 8"
  by (simp_all add: putU16Le_def putU32Le_def putU64Le_def)

section \<open>One description of both directions\<close>

text \<open>
  \<open>le_bytes n v\<close> lists the low \<open>n\<close> bytes of \<open>v\<close>; \<open>le_word d\<close> assembles a word from bytes.
  Both are characterised by their bits, which makes the round trips a single argument.
\<close>

definition le_bytes :: "nat \<Rightarrow> 'a::len word \<Rightarrow> bytes" where
  "le_bytes n v = map (\<lambda>i. ucast (drop_bit (8 * i) v)) [0..<n]"

definition le_word :: "bytes \<Rightarrow> 'a::len word" where
  "le_word d = fold (\<lambda>i v. v OR push_bit (i * 8) (ucast (d ! i))) [0..<length d] 0"

lemma length_le_bytes [simp]: "length (le_bytes n v) = n"
  by (simp add: le_bytes_def)

lemma bit_fold_or:
  "bit (fold (\<lambda>i v. v OR f i) is w) n \<longleftrightarrow> bit (w :: 'a::len word) n \<or> (\<exists>i \<in> set is. bit (f i) n)"
  by (induction "is" arbitrary: w) (auto simp: bit_or_iff)

lemma bit_le_word:
  "bit (le_word d :: 'a::len word) n \<longleftrightarrow>
     n < LENGTH('a) \<and> n div 8 < length d \<and> bit (d ! (n div 8)) (n mod 8)"
proof -
  have byte: "bit (push_bit (i * 8) (ucast (d ! i)) :: 'a word) n \<longleftrightarrow>
      n < LENGTH('a) \<and> i = n div 8 \<and> bit (d ! i) (n mod 8)" for i
  proof (cases "i = n div 8")
    case True
    then show ?thesis
      by (auto simp: bit_simps minus_div_mult_eq_mod minus_mult_div_eq_mod)
  next
    case False
    have "i * 8 \<le> n \<Longrightarrow> \<not> bit (d ! i) (n - i * 8)"
    proof -
      assume "i * 8 \<le> n"
      with False have "8 \<le> n - i * 8" by linarith
      then show ?thesis
        using bit_imp_le_length [of "d ! i" "n - i * 8"] by auto
    qed
    with False show ?thesis by (auto simp: bit_simps)
  qed
  show ?thesis by (auto simp: le_word_def bit_fold_or byte)
qed

lemma bit_le_bytes:
  "i < n \<Longrightarrow> bit (le_bytes n v ! i) j \<longleftrightarrow> j < 8 \<and> bit v (8 * i + j)"
  by (auto simp: le_bytes_def bit_simps add.commute dest: bit_imp_le_length)

lemma le_word_le_bytes:
  assumes "LENGTH('a) = 8 * n"
  shows "le_word (le_bytes n v) = (v :: 'a::len word)"
proof (rule bit_word_eqI)
  fix k assume "k < LENGTH('a)"
  with assms have "k div 8 < n" by (simp add: less_mult_imp_div_less mult.commute)
  then show "bit (le_word (le_bytes n v) :: 'a word) k = bit v k"
    using \<open>k < LENGTH('a)\<close> by (simp add: bit_le_word bit_le_bytes)
qed

lemma le_bytes_le_word:
  assumes "LENGTH('a) = 8 * length d"
  shows "le_bytes (length d) (le_word d :: 'a::len word) = d"
proof (rule nth_equalityI)
  fix i assume "i < length (le_bytes (length d) (le_word d :: 'a word))"
  then have i: "i < length d" by simp
  show "le_bytes (length d) (le_word d :: 'a word) ! i = d ! i"
  proof (rule bit_word_eqI)
    fix j assume "j < LENGTH(8)"
    with i assms show "bit (le_bytes (length d) (le_word d :: 'a word) ! i) j = bit (d ! i) j"
      by (simp add: bit_le_bytes bit_le_word)
  qed
qed simp

section \<open>The code against the description\<close>

lemma upt_small: "[0..<2] = [0, Suc 0]" "[0..<4] = [0, Suc 0, 2, 3]"
  "[0..<8] = [0, Suc 0, 2, 3, 4, 5, 6, 7]"
  by (simp_all add: upt_rec numeral_eq_Suc)

lemma read_le16_eq: "2 \<le> length d \<Longrightarrow> read_le16 d = le_word (take 2 d)"
  by (simp add: read_le16_def le_word_def min_def upt_small)

lemma read_le32_eq: "4 \<le> length d \<Longrightarrow> read_le32 d = le_word (take 4 d)"
  by (simp add: read_le32_def le_word_def min_def upt_small or.assoc)

lemma read_le64_eq: "8 \<le> length d \<Longrightarrow> read_le64 d = le_word (take 8 d)"
  by (simp add: read_le64_def le_word_def min_def upt_small)

lemma ucast_and_255: "ucast (w AND 255 :: 'a::len word) = (ucast w :: u8)"
proof (rule bit_word_eqI)
  fix n assume "n < LENGTH(8)"
  moreover have "w AND 255 = take_bit 8 w" by (simp add: take_bit_eq_mask mask_eq_exp_minus_1)
  ultimately show "bit (ucast (w AND 255) :: u8) n = bit (ucast w :: u8) n"
    by (auto simp: bit_simps dest: bit_imp_le_length)
qed

lemma put_eq_le_bytes:
  "putU16Le a = le_bytes 2 a" "putU32Le b = le_bytes 4 b" "putU64Le c = le_bytes 8 c"
  by (simp_all add: putU16Le_def putU32Le_def putU64Le_def le_bytes_def upt_small ucast_and_255)

lemma read_put16 [simp]: "read_le16 (putU16Le v @ rest) = v"
  by (simp add: read_le16_eq put_eq_le_bytes le_word_le_bytes)

lemma read_put32 [simp]: "read_le32 (putU32Le v @ rest) = v"
  by (simp add: read_le32_eq put_eq_le_bytes le_word_le_bytes)

lemma read_put64 [simp]: "read_le64 (putU64Le v @ rest) = v"
  by (simp add: read_le64_eq put_eq_le_bytes le_word_le_bytes)

lemmas read_put_nil [simp] =
  read_put16 [of _ "[]", simplified] read_put32 [of _ "[]", simplified]
  read_put64 [of _ "[]", simplified]

lemma put_read16: "length d = 2 \<Longrightarrow> putU16Le (read_le16 d) = d"
  using le_bytes_le_word [where 'a=16 and d=d] by (simp add: read_le16_eq put_eq_le_bytes)

lemma put_read32: "length d = 4 \<Longrightarrow> putU32Le (read_le32 d) = d"
  using le_bytes_le_word [where 'a=32 and d=d] by (simp add: read_le32_eq put_eq_le_bytes)

lemma put_read64: "length d = 8 \<Longrightarrow> putU64Le (read_le64 d) = d"
  using le_bytes_le_word [where 'a=64 and d=d] by (simp add: read_le64_eq put_eq_le_bytes)

end
