(* ===== verification/Crc32.thy ===== *)
theory Crc32
  imports Prelude
begin

unbundle bit_operations_syntax

text \<open>
  The image checksum, written twice in the repository: bit by bit in \<open>crc32IsoHdlc\<close> of
  \<open>ground_ota.c\<close>, and with a table of 256 words in \<open>crc32_file\<close> of \<open>ota_flasher.c\<close>. The
  two are proved equal on every file and every way the file is read, and the checksum is
  proved to detect every change of a single byte.
\<close>

section \<open>Bit by bit\<close>

definition CRC32_INIT :: u32 where "CRC32_INIT = 0xFFFFFFFF"
definition CRC32_POLY_REFLECTED :: u32 where "CRC32_POLY_REFLECTED = 0xEDB88320"
definition CRC32_XOR_OUT :: u32 where "CRC32_XOR_OUT = 0xFFFFFFFF"

definition crc32_bit :: "u32 \<Rightarrow> u32" where
  "crc32_bit crc = (if crc AND 1 \<noteq> 0 then drop_bit 1 crc XOR CRC32_POLY_REFLECTED else drop_bit 1 crc)"

definition crc32_byte :: "u32 \<Rightarrow> u8 \<Rightarrow> u32" where
  "crc32_byte crc b = (crc32_bit ^^ 8) (crc XOR ucast b)"

definition crc32IsoHdlc :: "bytes \<Rightarrow> u32" where
  "crc32IsoHdlc data = foldl crc32_byte CRC32_INIT data XOR CRC32_XOR_OUT"

section \<open>With a table\<close>

definition crc32_table_bit :: "u32 \<Rightarrow> u32" where
  "crc32_table_bit value = drop_bit 1 value XOR (0xEDB88320 AND - (value AND 1))"

definition crc32_table :: "u32 list" where
  "crc32_table = map (\<lambda>i. (crc32_table_bit ^^ 8) (of_nat i)) [0..<256]"

definition crc32_table_byte :: "u32 \<Rightarrow> u8 \<Rightarrow> u32" where
  "crc32_table_byte crc b = crc32_table ! unat ((crc XOR ucast b) AND 0xFF) XOR drop_bit 8 crc"

text \<open>
  The loop over \<open>fread\<close>: \<open>reads\<close> is the sequence of buffers that the calls return, up to the
  first empty one, which ends the loop.
\<close>

fun crc32_file_loop :: "u32 \<Rightarrow> bytes list \<Rightarrow> u32" where
  "crc32_file_loop crc [] = crc"
| "crc32_file_loop crc (buffer # reads) =
     (if buffer = [] then crc else crc32_file_loop (foldl crc32_table_byte crc buffer) reads)"

definition crc32_file :: "bytes list \<Rightarrow> u32" where
  "crc32_file reads = crc32_file_loop 0xFFFFFFFF reads XOR 0xFFFFFFFF"

section \<open>The two agree\<close>

lemma and_1_cases: "(v :: u32) AND 1 = 0 \<or> v AND 1 = 1"
  by (cases "even v") (simp_all add: and_one_eq mod_2_eq_odd)

lemma crc32_table_bit_eq: "crc32_table_bit v = crc32_bit v"
  using and_1_cases [of v] by (auto simp: crc32_table_bit_def crc32_bit_def CRC32_POLY_REFLECTED_def)

lemma crc32_bit_xor: "crc32_bit (a XOR b) = crc32_bit a XOR crc32_bit b"
proof -
  have lsb: "(v AND 1 \<noteq> 0) = bit v 0" for v :: u32
    by (simp add: and_one_eq bit_0 mod_2_eq_odd)
  show ?thesis
    by (rule bit_word_eqI) (auto simp: crc32_bit_def lsb bit_simps)
qed

text \<open>A word without low byte is shifted without feedback.\<close>

lemma crc32_bit_even: "\<not> bit v 0 \<Longrightarrow> crc32_bit v = drop_bit 1 v"
  by (simp add: crc32_bit_def and_one_eq bit_0 mod_2_eq_odd)

lemma crc32_bits_xor: "(crc32_bit ^^ n) (a XOR b) = (crc32_bit ^^ n) a XOR (crc32_bit ^^ n) b"
  by (induction n) (simp_all add: crc32_bit_xor)

lemma crc32_bits_high:
  assumes "\<And>k. k < n \<Longrightarrow> \<not> bit v k"
  shows "(crc32_bit ^^ n) v = drop_bit n v"
  using assms
proof (induction n arbitrary: v)
  case (Suc n)
  have "crc32_bit v = drop_bit 1 v" using Suc.prems by (intro crc32_bit_even) simp
  moreover have "(crc32_bit ^^ n) (drop_bit 1 v) = drop_bit n (drop_bit 1 v)"
    by (rule Suc.IH) (use Suc.prems in \<open>simp add: bit_simps\<close>)
  ultimately show ?case by (simp add: funpow_swap1)
qed simp

lemma crc32_table_byte_eq: "crc32_table_byte crc b = crc32_byte crc b"
proof -
  let ?v = "crc XOR ucast b"
  let ?low = "?v AND 0xFF"
  have mask: "?low = take_bit 8 ?v" by (simp add: take_bit_eq_mask mask_eq_exp_minus_1)
  have "unat ?low < 2 ^ 8" unfolding mask unsigned_take_bit_eq by (rule take_bit_nat_less_exp)
  then have "crc32_table ! unat ?low = (crc32_bit ^^ 8) ?low"
    by (simp add: crc32_table_def crc32_table_bit_eq [abs_def])
  moreover have "(crc32_bit ^^ 8) (push_bit 8 (drop_bit 8 crc)) = drop_bit 8 crc"
  proof -
    have "(crc32_bit ^^ 8) (push_bit 8 (drop_bit 8 crc)) = drop_bit 8 (push_bit 8 (drop_bit 8 crc))"
      by (rule crc32_bits_high) (simp add: bit_simps)
    also have "\<dots> = drop_bit 8 crc"
      by (rule bit_word_eqI) (auto simp: bit_simps dest: bit_imp_le_length)
    finally show ?thesis .
  qed
  moreover have "?v = ?low XOR push_bit 8 (drop_bit 8 crc)"
    unfolding mask
    by (rule bit_word_eqI) (auto simp: bit_simps dest: bit_imp_le_length)
  ultimately show ?thesis
    unfolding crc32_table_byte_def crc32_byte_def
    by (metis crc32_bits_xor)
qed

lemma crc32_file_loop_eq:
  "[] \<notin> set (butlast reads) \<Longrightarrow> crc32_file_loop crc reads = foldl crc32_byte crc (concat reads)"
  by (induction reads arbitrary: crc)
     (auto simp: crc32_table_byte_eq [abs_def] split: if_splits)

section \<open>Changes of one byte\<close>

lemma crc32_bit_inj: "crc32_bit a = crc32_bit b \<Longrightarrow> a = b"
proof -
  have lsb: "(v AND 1 \<noteq> 0) = bit v 0" for v :: u32
    by (simp add: and_one_eq bit_0 mod_2_eq_odd)
  have top: "bit (crc32_bit v) 31 = bit v 0" for v
  proof -
    have "\<not> bit v 32" by (auto dest: bit_imp_le_length)
    then show ?thesis
      by (auto simp: crc32_bit_def lsb bit_simps CRC32_POLY_REFLECTED_def)
  qed
  have drop: "drop_bit 1 v = crc32_bit v XOR (if bit v 0 then CRC32_POLY_REFLECTED else 0)" for v
    by (simp add: crc32_bit_def lsb xor.assoc)
  assume eq: "crc32_bit a = crc32_bit b"
  have l: "bit a 0 = bit b 0" using top [of a] top [of b] eq by simp
  then have "drop_bit 1 a = drop_bit 1 b" using drop [of a] drop [of b] eq by simp
  then have "bit a (Suc n) = bit b (Suc n)" for n
    by (metis bit_drop_bit_eq comp_apply plus_1_eq_Suc)
  with l have "bit a n = bit b n" for n by (cases n) simp_all
  then show "a = b" by (simp add: bit_eq_iff)
qed

lemma crc32_bits_inj: "(crc32_bit ^^ n) a = (crc32_bit ^^ n) b \<Longrightarrow> a = b"
  by (induction n) (auto dest: crc32_bit_inj)

lemma xor_cancel: "(x XOR a = x XOR b) = (a = (b :: 'a::len word))"
  by (metis xor.assoc xor_self_eq xor.left_neutral)

lemma xor_cancel_right: "(a XOR x = b XOR x) = (a = (b :: 'a::len word))"
  by (metis xor_cancel xor.commute)

lemma crc32_byte_inj: "crc32_byte c b = crc32_byte c' b \<Longrightarrow> c = c'"
  unfolding crc32_byte_def by (drule crc32_bits_inj) (simp add: xor_cancel_right)

lemma crc32_byte_inj2: "crc32_byte c a = crc32_byte c b \<Longrightarrow> a = b"
  unfolding crc32_byte_def
proof (drule crc32_bits_inj)
  assume "c XOR ucast a = c XOR ucast b"
  then have "(ucast a :: u32) = ucast b" by (simp add: xor_cancel)
  then have eq: "bit (ucast a :: u32) n = bit (ucast b :: u32) n" for n by simp
  have "bit a n = bit b n" if "n < 8" for n using eq [of n] that by (simp add: bit_simps)
  then show "a = b" by (intro bit_word_eqI) simp
qed

lemma crc32_foldl_inj: "foldl crc32_byte c d = foldl crc32_byte c' d \<Longrightarrow> c = c'"
  by (induction d arbitrary: c c') (auto dest: crc32_byte_inj)

section \<open>Properties\<close>

text \<open>
  C0. The two checksums are the same function: the table-driven \<open>crc32_file\<close>, over any
  sequence of non-empty buffers that \<open>fread\<close> delivers, equals the bitwise \<open>crc32IsoHdlc\<close> of
  the whole file.
\<close>
theorem crc32_file_iso_hdlc:
  assumes "[] \<notin> set (butlast reads)"
  shows "crc32_file reads = crc32IsoHdlc (concat reads)"
  using crc32_file_loop_eq [OF assms]
  by (simp add: crc32_file_def crc32IsoHdlc_def CRC32_INIT_def CRC32_XOR_OUT_def)

theorem crc32_file_iso_hdlc_witness:
  "crc32_file [[0x31, 0x32], [0x33], []] = crc32IsoHdlc [0x31, 0x32, 0x33]"
  using crc32_file_iso_hdlc [of "[[0x31, 0x32], [0x33], []]"] by simp

text \<open>
  C30. The checksum detects every corruption of a single byte of an image, whatever surrounds it.
\<close>
theorem crc32_detects_byte_change:
  assumes "x \<noteq> y"
  shows "crc32IsoHdlc (pre @ [x] @ post) \<noteq> crc32IsoHdlc (pre @ [y] @ post)"
proof
  assume "crc32IsoHdlc (pre @ [x] @ post) = crc32IsoHdlc (pre @ [y] @ post)"
  then have "foldl crc32_byte (crc32_byte (foldl crc32_byte CRC32_INIT pre) x) post =
      foldl crc32_byte (crc32_byte (foldl crc32_byte CRC32_INIT pre) y) post"
    unfolding crc32IsoHdlc_def xor_cancel_right by simp
  then have "x = y" by (rule crc32_byte_inj2 [OF crc32_foldl_inj])
  with assms show False ..
qed

theorem crc32_detects_byte_change_witness:
  "crc32IsoHdlc ([1, 2] @ [3] @ [4]) \<noteq> crc32IsoHdlc ([1, 2] @ [7] @ [4])"
  by (rule crc32_detects_byte_change) simp

lemma funpow_8: "(f ^^ 8) x = f (f (f (f (f (f (f (f x)))))))"
  by (simp add: numeral_eq_Suc)

lemma crc32_vector:
  "crc32IsoHdlc [0x31, 0x32, 0x33, 0x34, 0x35, 0x36, 0x37, 0x38, 0x39] = 0xCBF43926"
  by (simp add: crc32IsoHdlc_def crc32_byte_def crc32_bit_def CRC32_INIT_def CRC32_XOR_OUT_def
      CRC32_POLY_REFLECTED_def funpow_8)

end
