(* ===== verification/Ota_Message.thy ===== *)
theory Ota_Message
  imports Byte_Order Crc32
begin

text \<open>
  The OTA wire messages of \<open>ground_ota.c\<close> (START, DATA, END) and its self-test. A builder
  fills the caller's array from its start and returns the number of bytes it filled; the array
  keeps whatever it held beyond them.
\<close>

section \<open>The code\<close>

definition OTA_PACKET_START :: u8 where "OTA_PACKET_START = 0"
definition OTA_PACKET_DATA :: u8 where "OTA_PACKET_DATA = 1"
definition OTA_PACKET_END :: u8 where "OTA_PACKET_END = 2"
definition OTA_IMAGE_BOOTLOADER :: u8 where "OTA_IMAGE_BOOTLOADER = 0"
definition OTA_IMAGE_FIRMWARE :: u8 where "OTA_IMAGE_FIRMWARE = 1"
definition OTA_HEADER_SIZE :: nat where "OTA_HEADER_SIZE = 6"
definition OTA_DATA_PAYLOAD_MAX :: nat where "OTA_DATA_PAYLOAD_MAX = 224"
definition OTA_START_INFO_SIZE :: nat where "OTA_START_INFO_SIZE = 8"
definition OTA_MESSAGE_SIZE_MAX :: nat where "OTA_MESSAGE_SIZE_MAX = 230"

text \<open>\<open>body\<close> is \<open>None\<close> for a NULL pointer.\<close>

definition serializeOtaMessage ::
    "bytes \<Rightarrow> u8 \<Rightarrow> u8 \<Rightarrow> u16 \<Rightarrow> u16 \<Rightarrow> bytes option \<Rightarrow> bytes \<times> nat" where
  "serializeOtaMessage out commandType imageType payloadLength chunkIndex body =
     (let out = store_at out 0 [commandType];
          out = store_at out 1 [imageType];
          out = store_at out 2 (putU16Le payloadLength);
          out = store_at out 4 (putU16Le chunkIndex);
          out = (case body of
                   Some d \<Rightarrow> if 0 < payloadLength
                             then store_at out OTA_HEADER_SIZE (take (unat payloadLength) d) else out
                 | None \<Rightarrow> out)
      in (out, OTA_HEADER_SIZE + unat payloadLength))"

definition buildStartMessage :: "bytes \<Rightarrow> u8 \<Rightarrow> u32 \<Rightarrow> u32 \<Rightarrow> bytes \<times> nat" where
  "buildStartMessage out imageType imageSize imageCrc32 =
     serializeOtaMessage out OTA_PACKET_START imageType (of_nat OTA_START_INFO_SIZE) 0
       (Some (putU32Le imageSize @ putU32Le imageCrc32))"

definition buildDataMessage :: "bytes \<Rightarrow> u8 \<Rightarrow> u16 \<Rightarrow> bytes \<Rightarrow> u16 \<Rightarrow> bytes \<times> nat" where
  "buildDataMessage out imageType chunkIndex d dataLength =
     serializeOtaMessage out OTA_PACKET_DATA imageType dataLength chunkIndex (Some d)"

definition buildEndMessage :: "bytes \<Rightarrow> u8 \<Rightarrow> bytes \<times> nat" where
  "buildEndMessage out imageType = serializeOtaMessage out OTA_PACKET_END imageType 0 0 None"

text \<open>\<open>actual\<close> is the uninitialised local array.\<close>

definition runSelfTests :: "bytes \<Rightarrow> bool" where
  "runSelfTests actual =
     (if crc32IsoHdlc [0x31, 0x32, 0x33, 0x34, 0x35, 0x36, 0x37, 0x38, 0x39] \<noteq> 0xCBF43926 then False
      else
        let (actual, len) = buildStartMessage actual OTA_IMAGE_FIRMWARE 0x00012345 0x89ABCDEF in
        if len \<noteq> 14 \<or> take 14 actual \<noteq> [0x00, 0x01, 0x08, 0x00, 0x00, 0x00,
             0x45, 0x23, 0x01, 0x00, 0xEF, 0xCD, 0xAB, 0x89] then False
        else
          let (actual, len) = buildEndMessage actual OTA_IMAGE_FIRMWARE in
          \<not> (len \<noteq> 6 \<or> take 6 actual \<noteq> [0x02, 0x01, 0x00, 0x00, 0x00, 0x00]))"

section \<open>Messages as bytes\<close>

text \<open>What a builder leaves in the first bytes of the array.\<close>

definition ota_message :: "u8 \<Rightarrow> u8 \<Rightarrow> u16 \<Rightarrow> bytes \<Rightarrow> bytes" where
  "ota_message commandType imageType chunkIndex body =
     [commandType, imageType] @ putU16Le (of_nat (length body)) @ putU16Le chunkIndex @ body"

lemma length_ota_message [simp]: "length (ota_message c i k b) = 6 + length b"
  by (simp add: ota_message_def)

lemma store_at_append:
  "length p = i \<Longrightarrow> length d = length q \<Longrightarrow> store_at (p @ q @ r) i d = p @ d @ r"
  by (simp add: store_at_def)

lemma drop_six: "drop (6 + m) (a # b # c # d # e # f # rest) = drop m rest"
  by (simp add: numeral_eq_Suc)

lemma serialize_some:
  assumes "OTA_HEADER_SIZE + unat n \<le> length out" "unat n \<le> length d"
  shows "serializeOtaMessage out c i n k (Some d) =
    (ota_message c i k (take (unat n) d) @ drop (6 + unat n) out, 6 + unat n)"
proof -
  obtain b0 b1 l0 l1 k0 k1 rest where out: "out = [b0] @ [b1] @ [l0, l1] @ [k0, k1] @ rest"
    using assms(1) by (auto simp: OTA_HEADER_SIZE_def numeral_eq_Suc Suc_le_length_iff)
  have n: "of_nat (unat n) = n" by simp
  have pos: "0 < n \<longleftrightarrow> 0 < unat n" by (simp add: word_less_nat_alt)
  have zero: "unat n = 0 \<Longrightarrow> n = 0" by (simp add: unat_eq_zero)
  show ?thesis
    using assms zero
    by (auto simp: serializeOtaMessage_def out store_at_def Let_def OTA_HEADER_SIZE_def ota_message_def
        putU16Le_def pos min_absorb2 drop_six)
qed

lemma serialize_none:
  assumes "OTA_HEADER_SIZE \<le> length out"
  shows "serializeOtaMessage out c i 0 k None = (ota_message c i k [] @ drop 6 out, 6)"
proof -
  obtain b0 b1 l0 l1 k0 k1 rest where out: "out = [b0] @ [b1] @ [l0, l1] @ [k0, k1] @ rest"
    using assms(1) by (auto simp: OTA_HEADER_SIZE_def numeral_eq_Suc Suc_le_length_iff)
  show ?thesis
    by (simp add: serializeOtaMessage_def out store_at_def Let_def OTA_HEADER_SIZE_def ota_message_def
        putU16Le_def)
qed

definition start_body :: "u32 \<Rightarrow> u32 \<Rightarrow> bytes" where
  "start_body imageSize crc = putU32Le imageSize @ putU32Le crc"

lemma build_messages:
  "14 \<le> length out \<Longrightarrow> buildStartMessage out i imageSize crc =
     (ota_message OTA_PACKET_START i 0 (start_body imageSize crc) @ drop 14 out, 14)"
  "6 + unat n \<le> length out \<Longrightarrow> unat n \<le> length d \<Longrightarrow> buildDataMessage out i k d n =
     (ota_message OTA_PACKET_DATA i k (take (unat n) d) @ drop (6 + unat n) out, 6 + unat n)"
  "6 \<le> length out \<Longrightarrow> buildEndMessage out i = (ota_message OTA_PACKET_END i 0 [] @ drop 6 out, 6)"
  by (simp_all add: buildStartMessage_def buildDataMessage_def buildEndMessage_def serialize_some
      serialize_none OTA_HEADER_SIZE_def OTA_START_INFO_SIZE_def start_body_def)

section \<open>The transfer of an image\<close>

text \<open>
  What both senders put on the air, once each: a START with the size and the checksum, the image
  in DATA messages of at most 224 bytes with consecutive 16-bit indices, and an END.
\<close>

fun ota_data_messages :: "u8 \<Rightarrow> nat \<Rightarrow> bytes list \<Rightarrow> bytes list" where
  "ota_data_messages imageType i [] = []"
| "ota_data_messages imageType i (c # cs) =
     ota_message OTA_PACKET_DATA imageType (of_nat i) c # ota_data_messages imageType (Suc i) cs"

definition ota_transfer :: "u8 \<Rightarrow> bytes \<Rightarrow> bytes list" where
  "ota_transfer imageType img =
     [ota_message OTA_PACKET_START imageType 0 (start_body (of_nat (length img)) (crc32IsoHdlc img))] @
     ota_data_messages imageType 0 (chunks OTA_DATA_PAYLOAD_MAX img) @
     [ota_message OTA_PACKET_END imageType 0 []]"

lemma length_ota_data_messages [simp]: "length (ota_data_messages t i cs) = length cs"
  by (induction cs arbitrary: i) simp_all

lemma nth_ota_data_messages:
  "j < length cs \<Longrightarrow> ota_data_messages t i cs ! j = ota_message OTA_PACKET_DATA t (of_nat (i + j)) (cs ! j)"
proof (induction cs arbitrary: i j)
  case (Cons c cs)
  then show ?case by (cases j) (simp_all add: add.assoc)
qed simp

text \<open>Dropping the headers of the DATA messages gives the image back.\<close>

lemma ota_data_bodies: "concat (map (drop 6) (ota_data_messages t i cs)) = concat cs"
  by (induction cs arbitrary: i) (simp_all add: ota_message_def)

lemma ota_transfer_image: "concat (map (drop 6) (butlast (tl (ota_transfer t img)))) = img"
  by (simp add: ota_transfer_def butlast_append ota_data_bodies concat_chunks OTA_DATA_PAYLOAD_MAX_def)

section \<open>Properties\<close>

text \<open>
  The self-test that \<open>ground_ota\<close> runs at every start passes: the checksum vector and the
  serialised START and END messages are the expected bytes, whatever the local array held.
\<close>
lemma self_tests_pass:
  assumes "length actual = 14"
  shows "runSelfTests actual"
  using assms
  by (simp add: runSelfTests_def crc32_vector build_messages)
     (simp add: ota_message_def start_body_def putU16Le_def putU32Le_def OTA_PACKET_START_def
       OTA_PACKET_END_def OTA_IMAGE_FIRMWARE_def)

lemma self_tests_pass_example: "runSelfTests (replicate 14 0xAA)"
  by (rule self_tests_pass) simp

end
