(* ===== verification/Ota_Flasher.thy ===== *)
theory Ota_Flasher
  imports Ota_Message
begin

unbundle bit_operations_syntax

text \<open>
  The packet builder \<open>ota/ota_flasher.c\<close>: it reads an image file twice, first for its size and
  checksum and then for its chunks, and hands one UWB packet per OTA message to
  \<open>printMessage\<close>. The packed structs keep the widths of their bit-fields; a struct copied with
  \<open>memcpy\<close> is the little-endian bytes of its fields, as on the hosts the program runs on.
\<close>

section \<open>The code\<close>

datatype UWB_MESSAGE_TYPE =
    UWB_REVERSED_MESSAGE | UWB_TRANSCEIVE_MESSAGE | UWB_RANGING_MESSAGE | UWB_FLOODING_MESSAGE
  | UWB_DATA_MESSAGE | UWB_AODV_MESSAGE | UWB_OLSR_MESSAGE | SNIFFER | UWB_USER_MESSAGE
  | UWB_ADMIN_MESSAGE | UWB_OTA_MESSAGE | UWB_MESSAGE_TYPE_COUNT

primrec uwb_type_value :: "UWB_MESSAGE_TYPE \<Rightarrow> nat" where
  "uwb_type_value UWB_REVERSED_MESSAGE = 0"
| "uwb_type_value UWB_TRANSCEIVE_MESSAGE = 1"
| "uwb_type_value UWB_RANGING_MESSAGE = 2"
| "uwb_type_value UWB_FLOODING_MESSAGE = 3"
| "uwb_type_value UWB_DATA_MESSAGE = 4"
| "uwb_type_value UWB_AODV_MESSAGE = 5"
| "uwb_type_value UWB_OLSR_MESSAGE = 6"
| "uwb_type_value SNIFFER = 8"
| "uwb_type_value UWB_USER_MESSAGE = 9"
| "uwb_type_value UWB_ADMIN_MESSAGE = 10"
| "uwb_type_value UWB_OTA_MESSAGE = 11"
| "uwb_type_value UWB_MESSAGE_TYPE_COUNT = 12"

record UWB_Packet =
  srcAddress :: u16
  destAddress :: u16
  seqNumber :: u16
  packet_type :: UWB_MESSAGE_TYPE
  packet_length :: "10 word"
  uwb_payload :: bytes

definition UWB_HEADER_SIZE :: nat where "UWB_HEADER_SIZE = 8"
definition UWB_PAYLOAD_SIZE_MAX :: nat where "UWB_PAYLOAD_SIZE_MAX = 246"
definition UWB_OTA_PAYLOAD_SIZE :: nat where "UWB_OTA_PAYLOAD_SIZE = 224"

record OTA_Message =
  command_type :: u8
  image_type :: u8
  payload_length :: u16
  chunk_index :: u16
  ota_body :: bytes

definition ota_bytes :: "OTA_Message \<Rightarrow> bytes" where
  "ota_bytes m = [command_type m, image_type m] @ putU16Le (payload_length m) @
     putU16Le (chunk_index m) @ ota_body m"

text \<open>The overlay of \<open>OTA_Message_t\<close> on a packet's payload.\<close>

definition ota_overlay :: "bytes \<Rightarrow> OTA_Message" where
  "ota_overlay p = \<lparr>command_type = p ! 0, image_type = p ! 1, payload_length = read_le16 (drop 2 p),
     chunk_index = read_le16 (drop 4 p), ota_body = take UWB_OTA_PAYLOAD_SIZE (drop 6 p)\<rparr>"

text \<open>
  An opened file: its bytes, whether reading ends with \<open>ferror\<close> set, and what \<open>fseek\<close> and
  \<open>ftell\<close> report. \<open>None\<close> is a file that cannot be opened.
\<close>

record ota_file =
  of_data :: bytes
  of_error :: bool
  of_seek_end :: bool
  of_tell :: int
  of_seek_set :: bool

definition zero_message :: OTA_Message where
  "zero_message = \<lparr>command_type = 0, image_type = 0, payload_length = 0, chunk_index = 0,
     ota_body = replicate 224 0\<rparr>"

definition zero_packet :: UWB_Packet where
  "zero_packet = \<lparr>srcAddress = 0, destAddress = 0, seqNumber = 0, packet_type = UWB_REVERSED_MESSAGE,
     packet_length = 0, uwb_payload = replicate 246 0\<rparr>"

text \<open>Lines 99 to 102: the length and the copy of \<open>n\<close> bytes of the message.\<close>

definition fill_packet :: "UWB_Packet \<Rightarrow> OTA_Message \<Rightarrow> nat \<Rightarrow> UWB_Packet" where
  "fill_packet p m n = p\<lparr>packet_length := of_nat (UWB_HEADER_SIZE + n),
     uwb_payload := store_at (uwb_payload p) 0 (take n (ota_bytes m))\<rparr>"

function flasher_data ::
    "bytes \<Rightarrow> u32 \<Rightarrow> OTA_Message \<Rightarrow> UWB_Packet \<Rightarrow> UWB_Packet list \<times> OTA_Message \<times> UWB_Packet" where
  "flasher_data rest index m p =
     (let buffer = take UWB_OTA_PAYLOAD_SIZE rest in
      if length buffer = 0 then ([], m, p)
      else
        let m = m\<lparr>ota_body := store_at (ota_body m) 0 buffer, payload_length := of_nat (length buffer),
                  chunk_index := ucast index\<rparr>;
            p = fill_packet p m (6 + length buffer);
            (ps, m', p') = flasher_data (drop UWB_OTA_PAYLOAD_SIZE rest) (index + 1) m p
        in (p # ps, m', p'))"
  by pat_completeness auto
termination
  by (relation "measure (\<lambda>(rest, _). length rest)") (auto simp: UWB_OTA_PAYLOAD_SIZE_def)

declare flasher_data.simps [simp del]

definition flasher_main :: "nat \<Rightarrow> ota_file option \<Rightarrow> ota_file option \<Rightarrow> int \<times> UWB_Packet list" where
  "flasher_main argc open1 open2 =
     (let m = zero_message;
          p = zero_packet\<lparr>packet_type := UWB_OTA_MESSAGE, destAddress := 0xFFFF\<rparr>
      in if argc \<noteq> 2 then (1, [])
      else case open1 of
        None \<Rightarrow> (1, [])
      | Some file \<Rightarrow>
          if \<not> of_seek_end file \<or> of_tell file < 0 \<or> of_tell file > 0xFFFFFFFF \<or> \<not> of_seek_set file
          then (1, [])
          else
            let image_size = (word_of_int (of_tell file) :: u32);
                image_crc32 = crc32_file (chunks 65536 (of_data file) @ [[]])
            in if of_error file then (1, [])
            else
              let m = m\<lparr>command_type := 0, image_type := 1, payload_length := 8,
                        ota_body := store_at (ota_body m) 0 (putU32Le image_size @ putU32Le image_crc32)\<rparr>;
                  p = fill_packet p m 14;
                  start = p
              in case open2 of
                None \<Rightarrow> (1, [start])
              | Some file \<Rightarrow>
                  let m = m\<lparr>command_type := 1, image_type := 1\<rparr>;
                      (ps, m, p) = flasher_data (of_data file) 0 m p
                  in if of_error file then (1, start # ps)
                  else
                    let m = m\<lparr>command_type := 2, image_type := 1, payload_length := 0, chunk_index := 0\<rparr>;
                        p = fill_packet p m 6
                    in (0, start # ps @ [p]))"

section \<open>printMessage\<close>

text \<open>
  The number of body bytes that are printed, from the two lengths that limit it; the warnings
  are printed by the same tests.
\<close>

definition print_body_length :: "nat \<Rightarrow> nat \<Rightarrow> nat" where
  "print_body_length uwbPayloadLength declared =
     (let available = uwbPayloadLength - 6;
          bodyLength = (if UWB_OTA_PAYLOAD_SIZE < declared then UWB_OTA_PAYLOAD_SIZE else declared)
      in if available < bodyLength then available else bodyLength)"

definition print_body :: "bytes \<Rightarrow> string" where
  "print_body body = concat (map (\<lambda>i. (if i mod 16 = 0 then nl @ ''  '' @ fmt_0x 4 i @ '':'' else []) @
     '' '' @ fmt_0x 2 (unat (body ! i))) [0..<length body])"

definition printMessage :: "UWB_Packet \<Rightarrow> string" where
  "printMessage p =
     ''UWB packet header:'' @ nl @
     ''  srcAddress:  '' @ fmt_u (unat (srcAddress p)) @ nl @
     ''  destAddress: '' @ fmt_u (unat (destAddress p)) @ nl @
     ''  seqNumber:   '' @ fmt_u (unat (seqNumber p)) @ nl @
     ''  type:        '' @ fmt_u (uwb_type_value (packet_type p)) @ nl @
     ''  length:      '' @ fmt_u (unat (packet_length p)) @ nl @
     (let plen = unat (packet_length p) in
      if plen < UWB_HEADER_SIZE then
        ''Invalid packet: length is smaller than the UWB header ('' @ fmt_u UWB_HEADER_SIZE @ '' bytes).'' @ nl
      else
        let n = plen - UWB_HEADER_SIZE;
            warn1 = (if UWB_PAYLOAD_SIZE_MAX < n
              then ''Warning: UWB payload length '' @ fmt_u n @ '' exceeds capacity '' @
                fmt_u UWB_PAYLOAD_SIZE_MAX @ ''; truncating.'' @ nl else []);
            n = (if UWB_PAYLOAD_SIZE_MAX < n then UWB_PAYLOAD_SIZE_MAX else n)
        in warn1 @
         (if n < 6 then
            ''Invalid OTA message: only '' @ fmt_u n @ '' payload bytes, header needs '' @ fmt_u 6 @ ''.'' @ nl
          else
            let m = ota_overlay (uwb_payload p);
                declared = unat (payload_length m);
                bounded = (if UWB_OTA_PAYLOAD_SIZE < declared then UWB_OTA_PAYLOAD_SIZE else declared);
                bodyLength = print_body_length n declared
            in ''OTA message header:'' @ nl @
               ''  command_type:  '' @ fmt_u (unat (command_type m)) @ nl @
               ''  image_type:    '' @ fmt_u (unat (image_type m)) @ nl @
               ''  payload_length: '' @ fmt_u declared @ nl @
               ''  chunk_index:   '' @ fmt_u (unat (chunk_index m)) @ nl @
               (if UWB_OTA_PAYLOAD_SIZE < declared
                then ''Warning: OTA payload length '' @ fmt_u declared @ '' exceeds capacity '' @
                  fmt_u UWB_OTA_PAYLOAD_SIZE @ ''; truncating.'' @ nl else []) @
               (if n - 6 < bounded
                then ''Warning: OTA payload declares '' @ fmt_u declared @ '' bytes but only '' @
                  fmt_u (n - 6) @ '' are available; truncating.'' @ nl else []) @
               ''OTA message body ('' @ fmt_u bodyLength @ '' bytes):'' @
               (if bodyLength = 0 then '' <empty>'' @ nl
                else print_body (take bodyLength (ota_body m)) @ nl @
                  (if command_type m = 0 then
                     ''OTA start info:'' @ nl @
                     ''  image_size: '' @ fmt_u (unat (read_le32 (ota_body m))) @ nl @
                     ''  image_crc32: '' @ fmt_u (unat (read_le32 (drop 4 (ota_body m)))) @ nl
                   else []))))"

section \<open>What the packets carry\<close>

text \<open>The OTA message in a packet: the part of its payload that its length covers.\<close>

definition carried :: "UWB_Packet \<Rightarrow> bytes" where
  "carried p = take (unat (packet_length p) - UWB_HEADER_SIZE) (uwb_payload p)"

definition flasher_inv :: "u8 \<Rightarrow> OTA_Message \<Rightarrow> UWB_Packet \<Rightarrow> bool" where
  "flasher_inv c m p \<longleftrightarrow> command_type m = c \<and> image_type m = 1 \<and> length (ota_body m) = 224 \<and>
     length (uwb_payload p) = 246 \<and> packet_type p = UWB_OTA_MESSAGE \<and> destAddress p = 0xFFFF"

lemma length_ota_bytes: "length (ota_bytes m) = 6 + length (ota_body m)"
  by (simp add: ota_bytes_def)

lemma fill_packet_facts:
  assumes "length (uwb_payload p) = 246" "n \<le> 230" "n \<le> length (ota_bytes m)"
  shows "carried (fill_packet p m n) = take n (ota_bytes m)"
    and "length (uwb_payload (fill_packet p m n)) = 246"
    and "unat (packet_length (fill_packet p m n)) = 8 + n"
    and "packet_type (fill_packet p m n) = packet_type p" "destAddress (fill_packet p m n) = destAddress p"
proof -
  have "unat (of_nat (8 + n) :: 10 word) = 8 + n"
    using assms(2) by (simp add: unat_of_nat take_bit_eq_mod del: of_nat_add)
  then show "carried (fill_packet p m n) = take n (ota_bytes m)"
    "unat (packet_length (fill_packet p m n)) = 8 + n"
    using assms by (simp_all add: carried_def fill_packet_def store_at_def UWB_HEADER_SIZE_def)
  show "length (uwb_payload (fill_packet p m n)) = 246"
    using assms by (simp add: fill_packet_def store_at_def)
qed (simp_all add: fill_packet_def)

lemma take_ota_bytes:
  assumes "ota_body m = store_at b 0 c" "payload_length m = of_nat (length c)" "n = 6 + length c"
  shows "take n (ota_bytes m) = ota_message (command_type m) (image_type m) (chunk_index m) c"
proof -
  have "ota_bytes m = ota_message (command_type m) (image_type m) (chunk_index m) c @ drop (length c) b"
    using assms by (simp add: ota_bytes_def ota_message_def store_at_def)
  then show ?thesis using assms(3) by simp
qed

lemma flasher_data_carried:
  assumes "flasher_inv 1 m p" "flasher_data rest (of_nat i) m p = (ps, m', p')"
  shows "map carried ps = ota_data_messages 1 i (chunks 224 rest)" "flasher_inv 1 m' p'"
    and "list_all (\<lambda>q. packet_type q = UWB_OTA_MESSAGE \<and> destAddress q = 0xFFFF) ps"
proof -
  have "map carried ps = ota_data_messages 1 i (chunks 224 rest) \<and> flasher_inv 1 m' p' \<and>
      list_all (\<lambda>q. packet_type q = UWB_OTA_MESSAGE \<and> destAddress q = 0xFFFF) ps"
    using assms
  proof (induction "length rest" arbitrary: rest i m p ps m' p' rule: less_induct)
    case less
    show ?case
    proof (cases "rest = []")
      case True
      with less.prems show ?thesis by (simp add: flasher_data.simps)
    next
      case False
      let ?c = "take 224 rest"
      let ?m = "m\<lparr>ota_body := store_at (ota_body m) 0 ?c, payload_length := of_nat (length ?c),
        chunk_index := ucast (of_nat i :: u32)\<rparr>"
      let ?p = "fill_packet p ?m (6 + length ?c)"
      obtain qs m2 p2 where rec: "flasher_data (drop 224 rest) (of_nat (Suc i)) ?m ?p = (qs, m2, p2)"
        by (cases "flasher_data (drop 224 rest) (of_nat (Suc i)) ?m ?p") auto
      have eq: "(ps, m', p') = (?p # qs, m2, p2)"
        using less.prems(2) False rec
        by (subst (asm) flasher_data.simps) (simp add: UWB_OTA_PAYLOAD_SIZE_def Let_def add.commute)
      have lc: "length ?c \<le> 224" by simp
      have len: "6 + length ?c \<le> length (ota_bytes ?m)" "length (ota_body ?m) = 224"
        using less.prems(1) by (simp_all add: length_ota_bytes flasher_inv_def)
      note f = fill_packet_facts [of p "6 + length ?c" ?m]
      have inv: "flasher_inv 1 ?m ?p"
        using less.prems(1) f(2,4,5) len lc by (simp add: flasher_inv_def)
      have "carried ?p = ota_message 1 1 (of_nat i) ?c"
        using f(1) less.prems(1) len lc take_ota_bytes [of ?m "ota_body m" ?c "6 + length ?c"]
        by (simp add: flasher_inv_def ucast_of_nat_u16)
      moreover have "chunks 224 rest = ?c # chunks 224 (drop 224 rest)"
        using False by (subst chunks.simps) simp
      moreover have "length (drop 224 rest) < length rest" using False by simp
      note IH = less.hyps [OF this inv rec]
      ultimately show ?thesis using eq inv IH f(4,5) less.prems(1)
        by (simp add: OTA_PACKET_DATA_def flasher_inv_def)
    qed
  qed
  then show "map carried ps = ota_data_messages 1 i (chunks 224 rest)" "flasher_inv 1 m' p'"
    "list_all (\<lambda>q. packet_type q = UWB_OTA_MESSAGE \<and> destAddress q = 0xFFFF) ps" by blast+
qed

text \<open>A file that is what it seems: both passes see the same bytes and nothing fails.\<close>

definition good_file :: "bytes \<Rightarrow> ota_file" where
  "good_file d = \<lparr>of_data = d, of_error = False, of_seek_end = True, of_tell = int (length d), of_seek_set = True\<rparr>"

lemma chunks_not_Nil: "0 < n \<Longrightarrow> [] \<notin> set (chunks n d)"
  using chunks_bounds by blast

lemma crc32_file_chunks: "crc32_file (chunks 65536 d @ [[]]) = crc32IsoHdlc d"
proof -
  have "[] \<notin> set (butlast (chunks 65536 d @ [[]]))" by (simp add: butlast_append chunks_not_Nil)
  from crc32_file_loop_eq [OF this] show ?thesis
    by (simp add: crc32_file_def crc32IsoHdlc_def CRC32_INIT_def CRC32_XOR_OUT_def concat_chunks)
qed

lemma flasher_main_good:
  assumes "length d < 2 ^ 32"
  obtains ps where "flasher_main 2 (Some (good_file d)) (Some (good_file d)) = (0, ps)"
    "map carried ps = ota_transfer OTA_IMAGE_FIRMWARE d"
    "list_all (\<lambda>q. packet_type q = UWB_OTA_MESSAGE \<and> destAddress q = 0xFFFF) ps"
proof -
  let ?body = "putU32Le (of_nat (length d)) @ putU32Le (crc32IsoHdlc d)"
  let ?m0 = "zero_message\<lparr>command_type := 0, image_type := 1, payload_length := 8,
      ota_body := store_at (ota_body zero_message) 0 ?body\<rparr>"
  let ?p0 = "zero_packet\<lparr>packet_type := UWB_OTA_MESSAGE, destAddress := 0xFFFF\<rparr>"
  define m where "m = ?m0"
  define p where "p = fill_packet ?p0 m 14"
  define m1 where "m1 = m\<lparr>command_type := 1, image_type := 1\<rparr>"
  have m: "command_type m = 0" "image_type m = 1" "payload_length m = of_nat (length ?body)"
    "chunk_index m = 0" "ota_body m = store_at (ota_body zero_message) 0 ?body" "length (ota_body m) = 224"
    by (simp_all add: m_def zero_message_def store_at_def)
  then have lens: "length (uwb_payload ?p0) = 246" "14 \<le> length (ota_bytes m)"
    by (simp_all add: zero_packet_def length_ota_bytes)
  note f = fill_packet_facts [OF lens(1) _ lens(2), folded p_def]
  have start: "carried p = ota_message 0 1 0 ?body"
    using f(1) take_ota_bytes [OF m(5,3), of 14] m by simp
  have p: "length (uwb_payload p) = 246" "packet_type p = UWB_OTA_MESSAGE" "destAddress p = 0xFFFF"
    using f(2,4,5) by simp_all
  then have inv: "flasher_inv 1 m1 p" using m(6) by (simp add: flasher_inv_def m1_def)
  obtain qs m' p' where rec: "flasher_data d 0 m1 p = (qs, m', p')"
    by (cases "flasher_data d 0 m1 p") auto
  note fd = flasher_data_carried [OF inv, of d 0 qs m' p', simplified, OF rec]
  let ?me = "m'\<lparr>command_type := 2, image_type := 1, payload_length := 0, chunk_index := 0\<rparr>"
  let ?e = "fill_packet p' ?me 6"
  have inv': "flasher_inv 1 m' p'" using fd by simp
  then have le: "length (uwb_payload p') = 246" "6 \<le> length (ota_bytes ?me)"
    by (simp_all add: flasher_inv_def length_ota_bytes)
  note fe = fill_packet_facts [OF le(1) _ le(2)]
  have last: "carried ?e = ota_message 2 1 0 []"
    using fe(1) by (simp add: ota_bytes_def ota_message_def)
  have "flasher_main 2 (Some (good_file d)) (Some (good_file d)) = (0, p # qs @ [?e])"
    using assms rec unfolding p_def m1_def m_def
    by (simp add: flasher_main_def good_file_def Let_def crc32_file_chunks)
  moreover have "map carried (p # qs @ [?e]) = ota_transfer OTA_IMAGE_FIRMWARE d"
    using fd start last
    by (simp add: ota_transfer_def OTA_PACKET_START_def OTA_PACKET_END_def OTA_IMAGE_FIRMWARE_def
        start_body_def OTA_DATA_PAYLOAD_MAX_def)
  moreover have "list_all (\<lambda>q. packet_type q = UWB_OTA_MESSAGE \<and> destAddress q = 0xFFFF) (p # qs @ [?e])"
    using fd p fe(4,5) inv' by (simp add: flasher_inv_def)
  ultimately show thesis by (rule that)
qed

section \<open>Properties\<close>

text \<open>
  C32. For every readable image whose size fits 32 bits, the flasher exits with 0 and its
  packets carry exactly the transfer of the image: a START with the size and the checksum, the
  chunks in order with their indices, and an END. All are OTA packets to the broadcast address,
  and the bodies of the DATA messages concatenate to the image.
\<close>
theorem flasher_emits_transfer:
  assumes "length d < 2 ^ 32"
  shows "\<exists>ps. flasher_main 2 (Some (good_file d)) (Some (good_file d)) = (0, ps) \<and>
    map carried ps = ota_transfer OTA_IMAGE_FIRMWARE d \<and>
    concat (map (drop 6) (butlast (tl (map carried ps)))) = d \<and>
    list_all (\<lambda>p. packet_type p = UWB_OTA_MESSAGE \<and> destAddress p = 0xFFFF) ps"
proof -
  obtain ps where "flasher_main 2 (Some (good_file d)) (Some (good_file d)) = (0, ps)"
    "map carried ps = ota_transfer OTA_IMAGE_FIRMWARE d"
    "list_all (\<lambda>p. packet_type p = UWB_OTA_MESSAGE \<and> destAddress p = 0xFFFF) ps"
    by (rule flasher_main_good [OF assms])
  then show ?thesis by (simp add: ota_transfer_image)
qed

theorem flasher_emits_transfer_witness:
  "\<exists>ps. flasher_main 2 (Some (good_file [1, 2, 3])) (Some (good_file [1, 2, 3])) = (0, ps) \<and>
     concat (map (drop 6) (butlast (tl (map carried ps)))) = [1, 2, 3]"
  using flasher_emits_transfer [of "[1, 2, 3]"] by auto

text \<open>
  C35. The 16-bit chunk index does not identify the chunks of every image that the size check
  accepts: past 65536 chunks the index starts again at 0, so the first chunk and the chunk
  65536 places later are sent under the same index, although the flasher reports success.
\<close>
theorem flasher_index_wraps:
  assumes "65536 * 224 < length d" "length d < 2 ^ 32"
  shows "\<exists>ps. flasher_main 2 (Some (good_file d)) (Some (good_file d)) = (0, ps) \<and>
    65537 < length ps \<and> take 2 (drop 4 (carried (ps ! 1))) = take 2 (drop 4 (carried (ps ! 65537)))"
proof -
  obtain ps where ps: "flasher_main 2 (Some (good_file d)) (Some (good_file d)) = (0, ps)"
    "map carried ps = ota_transfer OTA_IMAGE_FIRMWARE d" by (rule flasher_main_good [OF assms(2)])
  let ?cs = "chunks 224 d"
  have "65536 * 224 + 224 \<le> length d + 224 - 1" using assms(1) by simp
  then have "65537 \<le> (length d + 224 - 1) div 224" by (simp add: less_eq_div_iff_mult_less_eq)
  then have cs: "65537 \<le> length ?cs" by (simp add: length_chunks)
  have len: "length ps = length ?cs + 2"
    using arg_cong [OF ps(2), of length] by (simp add: ota_transfer_def OTA_DATA_PAYLOAD_MAX_def)
  have nth: "carried (ps ! Suc j) = ota_message OTA_PACKET_DATA OTA_IMAGE_FIRMWARE (of_nat j) (?cs ! j)"
    if "j < length ?cs" for j
  proof -
    have "carried (ps ! Suc j) = ota_transfer OTA_IMAGE_FIRMWARE d ! Suc j"
      unfolding ps(2) [symmetric] by (rule nth_map [symmetric]) (use len that in simp)
    then show ?thesis using that
      by (simp add: ota_transfer_def nth_append nth_ota_data_messages OTA_DATA_PAYLOAD_MAX_def)
  qed
  have first: "0 < length ?cs" using cs by linarith
  have index: "(65536 :: u16) = 0" by simp
  have "take 2 (drop 4 (ota_message c i k b)) = putU16Le k" for c i k b
    by (simp add: ota_message_def putU16Le_def)
  then have "take 2 (drop 4 (carried (ps ! Suc 0))) = take 2 (drop 4 (carried (ps ! Suc 65536)))"
    using nth [OF first] nth [of 65536] cs index by simp
  then show ?thesis using ps(1) len cs by auto
qed

theorem flasher_index_wraps_witness:
  "\<exists>ps. flasher_main 2 (Some (good_file (replicate 14680065 7))) (Some (good_file (replicate 14680065 7))) = (0, ps) \<and>
     take 2 (drop 4 (carried (ps ! 1))) = take 2 (drop 4 (carried (ps ! 65537)))"
  using flasher_index_wraps [of "replicate 14680065 7"] by auto

end
