(* ===== verification/C_Text.thy ===== *)
theory C_Text
  imports Prelude
begin

text \<open>
  The functions of the C library on text that the command lines and prompts use:
  \<open>strtoul\<close> with base 0, \<open>fgets\<close>, \<open>strchr\<close>; and the parsers the programs build on them,
  which are the same text in \<open>ground_ota.c\<close> and \<open>ground_admin.c\<close>.
\<close>

section \<open>strtoul(text, &end, 0)\<close>

text \<open>The value of a digit or letter, as \<open>strtoul\<close> counts them; 36 for any other character.\<close>

definition digit_value :: "char \<Rightarrow> nat" where
  "digit_value c =
     (if 48 \<le> ascii c \<and> ascii c \<le> 57 then ascii c - 48
      else if 97 \<le> ascii (tolower c) \<and> ascii (tolower c) \<le> 122 then ascii (tolower c) - 87
      else 36)"

fun scan_digits :: "nat \<Rightarrow> nat \<Rightarrow> string \<Rightarrow> nat \<times> string" where
  "scan_digits base acc [] = (acc, [])"
| "scan_digits base acc (c # cs) =
     (if digit_value c < base then scan_digits base (acc * base + digit_value c) cs else (acc, c # cs))"

text \<open>\<open>unsigned long\<close> has 64 bits on the hosts the programs are built for.\<close>

definition ULONG_MAX :: nat where "ULONG_MAX = 18446744073709551615"

text \<open>
  The number without its sign: base 16 after \<open>0x\<close> and a hexadecimal digit, base 8 after a
  \<open>0\<close>, else base 10. \<open>None\<close>: no digits.
\<close>

definition scan_number :: "string \<Rightarrow> (nat \<times> string) option" where
  "scan_number t =
     (case t of
        z # x # d # r \<Rightarrow>
          if z = CHR ''0'' \<and> (x = CHR ''x'' \<or> x = CHR ''X'') \<and> digit_value d < 16
          then Some (scan_digits 16 0 (d # r))
          else if z = CHR ''0'' then Some (scan_digits 8 0 t)
          else if digit_value z < 10 then Some (scan_digits 10 0 t) else None
      | z # r \<Rightarrow>
          if z = CHR ''0'' then Some (scan_digits 8 0 t)
          else if digit_value z < 10 then Some (scan_digits 10 0 t) else None
      | [] \<Rightarrow> None)"

text \<open>The value, whether \<open>errno\<close> is set, and the text at \<open>end\<close>.\<close>

definition strtoul0 :: "string \<Rightarrow> nat \<times> bool \<times> string" where
  "strtoul0 text =
     (let t = dropWhile isspace text;
          negative = (t \<noteq> [] \<and> hd t = CHR ''-'');
          u = (if t \<noteq> [] \<and> (hd t = CHR ''-'' \<or> hd t = CHR ''+'') then tl t else t)
      in case scan_number u of
           None \<Rightarrow> (0, False, text)
         | Some (v, rest) \<Rightarrow>
             if ULONG_MAX < v then (ULONG_MAX, True, rest)
             else (if negative \<and> v \<noteq> 0 then ULONG_MAX + 1 - v else v, False, rest))"

section \<open>strtol(text, &end, 10)\<close>

definition LONG_MAX :: int where "LONG_MAX = 9223372036854775807"

definition strtol10 :: "string \<Rightarrow> int \<times> bool \<times> string" where
  "strtol10 text =
     (let t = dropWhile isspace text;
          negative = (t \<noteq> [] \<and> hd t = CHR ''-'');
          u = (if t \<noteq> [] \<and> (hd t = CHR ''-'' \<or> hd t = CHR ''+'') then tl t else t)
      in if u = [] \<or> 10 \<le> digit_value (hd u) then (0, False, text)
         else case scan_digits 10 0 u of (v, rest) \<Rightarrow>
           if negative then (if LONG_MAX + 1 < int v then (- LONG_MAX - 1, True, rest) else (- int v, False, rest))
           else if LONG_MAX < int v then (LONG_MAX, True, rest) else (int v, False, rest))"

section \<open>Parsers of the command lines\<close>

text \<open>The result of reading a command line: the help was asked for, an error, or the options.\<close>

datatype 'o parse_result = Parse_Help | Parse_Failed | Parsed 'o

text \<open>\<open>None\<close> is the result \<open>false\<close>.\<close>

definition parseUnsigned :: "string \<Rightarrow> nat \<Rightarrow> nat option" where
  "parseUnsigned text maximum =
     (if text = [] \<or> hd text = CHR ''-'' then None
      else case strtoul0 text of (parsed, err, rest) \<Rightarrow>
        if err \<or> rest = text \<or> rest \<noteq> [] \<or> maximum < parsed then None else Some parsed)"

text \<open>\<open>strchr\<close>: the text from the first occurrence of the character.\<close>

fun strchr :: "string \<Rightarrow> char \<Rightarrow> string option" where
  "strchr [] c = None"
| "strchr (x # xs) c = (if x = c then Some (x # xs) else strchr xs c)"

definition parseBusAddress :: "string \<Rightarrow> (int \<times> int) option" where
  "parseBusAddress text =
     (if 64 \<le> length text then None
      else case strchr text CHR '':'' of
        None \<Rightarrow> None
      | Some separator \<Rightarrow>
          if strchr (tl separator) CHR '':'' \<noteq> None then None
          else case parseUnsigned (take (length text - length separator) text) 255 of
            None \<Rightarrow> None
          | Some parsedBus \<Rightarrow>
              (case parseUnsigned (tl separator) 255 of
                 None \<Rightarrow> None
               | Some parsedAddress \<Rightarrow> Some (int parsedBus, int parsedAddress)))"

section \<open>Lines\<close>

text \<open>
  \<open>fgets(storage, n, stdin)\<close> on the characters left to read: a line with its newline, or its
  first \<open>n - 1\<close> characters. \<open>None\<close> is NULL, at the end of the input.
\<close>

fun take_line :: "nat \<Rightarrow> string \<Rightarrow> string \<times> string" where
  "take_line 0 cs = ([], cs)"
| "take_line (Suc n) [] = ([], [])"
| "take_line (Suc n) (c # cs) =
     (if c = CHR 0x0A then ([c], cs) else (case take_line n cs of (l, r) \<Rightarrow> (c # l, r)))"

definition fgets :: "nat \<Rightarrow> string \<Rightarrow> (string \<times> string) option" where
  "fgets n input = (if input = [] then None else Some (take_line (n - 1) input))"

text \<open>The two trimming loops, from the front and from the end.\<close>

definition trim_spaces :: "string \<Rightarrow> string" where
  "trim_spaces text = rev (dropWhile isspace (rev (dropWhile isspace text)))"

definition trimAndLower :: "string \<Rightarrow> string" where
  "trimAndLower text = map tolower (trim_spaces text)"

definition trimInput :: "string \<Rightarrow> string" where
  "trimInput text =
     (let t = trim_spaces text in
      if 2 \<le> length t \<and> (hd t = CHR 0x22 \<and> last t = CHR 0x22 \<or> hd t = CHR 0x27 \<and> last t = CHR 0x27)
      then butlast (tl t) else t)"

section \<open>Facts\<close>

lemma take_line_append: "take_line n cs = (l, r) \<Longrightarrow> cs = l @ r"
  by (induction n cs arbitrary: l r rule: take_line.induct) (auto split: prod.splits if_splits)

lemma take_line_progress: "cs \<noteq> [] \<Longrightarrow> 0 < n \<Longrightarrow> take_line n cs = (l, r) \<Longrightarrow> length r < length cs"
  by (cases n; cases cs) (auto split: prod.splits if_splits dest!: take_line_append)

lemma fgets_progress: "1 < n \<Longrightarrow> fgets n input = Some (l, r) \<Longrightarrow> length r < length input"
  by (auto simp: fgets_def split: if_splits intro!: take_line_progress [of input "n - 1"])

lemma dropWhile_core:
  "\<forall>c \<in> set xs. P c \<Longrightarrow> ys \<noteq> [] \<Longrightarrow> \<not> P (hd ys) \<Longrightarrow> dropWhile P (xs @ ys) = ys"
  by (induction xs) (auto simp: dropWhile_eq_self_iff)

lemma trim_spaces_core:
  assumes "\<forall>c \<in> set before. isspace c" "\<forall>c \<in> set after. isspace c"
    and "t \<noteq> []" "\<And>c. c \<in> set t \<Longrightarrow> \<not> isspace c"
  shows "trim_spaces (before @ t @ after) = t"
proof -
  have h: "\<not> isspace (hd t)" "\<not> isspace (hd (rev t))" using assms(3,4) by (simp_all add: hd_rev)
  have "dropWhile isspace (before @ t @ after) = t @ after"
    using dropWhile_core [OF assms(1), of "t @ after"] assms(3) h by simp
  moreover have "dropWhile isspace (rev after @ rev t) = rev t"
    using dropWhile_core [of "rev after" isspace "rev t"] assms(2,3) h by simp
  ultimately show ?thesis by (simp add: trim_spaces_def)
qed

lemma isspace_tolower: "isspace c \<Longrightarrow> isspace (tolower c)"
  by (auto simp: isspace_def tolower_def)

lemma parseUnsigned_le: "parseUnsigned text maximum = Some v \<Longrightarrow> v \<le> maximum"
  by (auto simp: parseUnsigned_def split: if_splits prod.splits)

lemma parseBusAddress_range:
  "parseBusAddress text = Some (bus, address) \<Longrightarrow> 0 \<le> bus \<and> bus \<le> 255 \<and> 0 \<le> address \<and> address \<le> 255"
  by (auto simp: parseBusAddress_def split: if_splits option.splits dest!: parseUnsigned_le)

text \<open>Decimal text.\<close>

lemma dec_digit_facts:
  assumes "n < 10"
  shows "digit_value (dec_digit n) = n" "\<not> isspace (dec_digit n)" "dec_digit n \<noteq> CHR '':''"
    "dec_digit n \<noteq> CHR ''-''" "dec_digit n \<noteq> CHR ''+''" "(dec_digit n = CHR ''0'') = (n = 0)"
    "dec_digit n \<noteq> CHR ''x''" "dec_digit n \<noteq> CHR ''X''"
proof -
  have a: "ascii (dec_digit n) = 48 + n" using assms by (simp add: dec_digit_def)
  have sep: "ascii CHR '':'' = 58" "ascii CHR ''-'' = 45" "ascii CHR ''+'' = 43" "ascii CHR ''0'' = 48"
    "ascii CHR ''x'' = 120" "ascii CHR ''X'' = 88"
    by simp_all
  show "digit_value (dec_digit n) = n" "\<not> isspace (dec_digit n)"
    using assms a by (simp_all add: digit_value_def isspace_def)
  show "dec_digit n \<noteq> CHR '':''" "dec_digit n \<noteq> CHR ''-''" "dec_digit n \<noteq> CHR ''+''"
    "(dec_digit n = CHR ''0'') = (n = 0)" "dec_digit n \<noteq> CHR ''x''" "dec_digit n \<noteq> CHR ''X''"
    using assms unfolding char_eq_ascii sep a by simp_all
qed

lemma scan_digits_append:
  "scan_digits base acc (xs @ ys) =
     (case scan_digits base acc xs of (v, []) \<Rightarrow> scan_digits base v ys | (v, c # r) \<Rightarrow> (v, c # r @ ys))"
  by (induction xs arbitrary: acc) simp_all

lemma scan_digits_fmt_u: "scan_digits 10 acc (fmt_u n) = (acc * 10 ^ length (fmt_u n) + n, [])"
proof (induction n arbitrary: acc rule: fmt_u.induct)
  case (1 n)
  show ?case
  proof (cases "n < 10")
    case True
    then show ?thesis by (simp add: fmt_u.simps [of n] dec_digit_facts)
  next
    case False
    have "n mod 10 < 10" by simp
    note d = dec_digit_facts(1) [OF this]
    have split: "fmt_u n = fmt_u (n div 10) @ [dec_digit (n mod 10)]" using False by (simp add: fmt_u.simps [of n])
    show ?thesis unfolding split using "1.IH" [OF False, of acc]
      by (simp add: scan_digits_append d algebra_simps)
  qed
qed

lemma fmt_u_first: "\<exists>d r. fmt_u n = dec_digit d # r \<and> d < 10 \<and> (d = 0 \<longrightarrow> n = 0 \<and> r = [])"
proof (induction n rule: fmt_u.induct)
  case (1 n)
  show ?case
  proof (cases "n < 10")
    case True
    then show ?thesis by (auto simp: fmt_u.simps [of n])
  next
    case False
    then obtain d r where "fmt_u (n div 10) = dec_digit d # r" "d < 10" "d = 0 \<longrightarrow> n div 10 = 0 \<and> r = []"
      using "1.IH" by blast
    with False show ?thesis by (auto simp: fmt_u.simps [of n])
  qed
qed

lemma scan_number_fmt_u: "scan_number (fmt_u n) = Some (n, [])"
proof -
  obtain d r where f: "fmt_u n = dec_digit d # r" "d < 10" "d = 0 \<longrightarrow> n = 0 \<and> r = []"
    using fmt_u_first by blast
  note s = scan_digits_fmt_u [of 0 n, unfolded f(1)]
  show ?thesis
  proof (cases "d = 0")
    case True
    with f dec_digit_facts [OF f(2)] show ?thesis by (simp add: scan_number_def)
  next
    case False
    with f(2) dec_digit_facts [OF f(2)] s show ?thesis
      unfolding f(1) by (cases r; cases "tl r") (simp_all add: scan_number_def del: scan_digits.simps)
  qed
qed

lemma strtoul0_fmt_u:
  assumes "n \<le> ULONG_MAX"
  shows "strtoul0 (fmt_u n) = (n, False, [])"
proof -
  obtain d r where f: "fmt_u n = dec_digit d # r" "d < 10" using fmt_u_first by blast
  note df = dec_digit_facts [OF f(2)]
  have "dropWhile isspace (fmt_u n) = fmt_u n" using f df by simp
  moreover have "hd (fmt_u n) \<noteq> CHR ''-''" "hd (fmt_u n) \<noteq> CHR ''+''" using f df by simp_all
  ultimately show ?thesis using assms by (simp add: strtoul0_def scan_number_fmt_u Let_def)
qed

lemma strtoul0_minus:
  assumes "n \<le> ULONG_MAX" "0 < n"
  shows "strtoul0 (CHR ''-'' # fmt_u n) = (ULONG_MAX + 1 - n, False, [])"
  using assms by (simp add: strtoul0_def scan_number_fmt_u isspace_def)

lemma parseUnsigned_fmt_u:
  assumes "maximum \<le> ULONG_MAX" "n \<le> maximum"
  shows "parseUnsigned (fmt_u n) maximum = Some n"
proof -
  obtain d r where f: "fmt_u n = dec_digit d # r" "d < 10" using fmt_u_first by blast
  have "fmt_u n \<noteq> []" "hd (fmt_u n) \<noteq> CHR ''-''" using f dec_digit_facts [OF f(2)] by simp_all
  then show ?thesis using assms strtoul0_fmt_u [of n] by (simp add: parseUnsigned_def)
qed

lemma colon_fmt_u: "CHR '':'' \<notin> set (fmt_u n)"
proof (induction n rule: fmt_u.induct)
  case (1 n)
  have "n mod 10 < 10" by simp
  from dec_digit_facts(3) [OF this] dec_digit_facts(3) [of n] 1 show ?case
    by (subst fmt_u.simps) (auto split: if_splits)
qed

lemma length_fmt_u: "n < 10 ^ k \<Longrightarrow> 0 < k \<Longrightarrow> length (fmt_u n) \<le> k"
proof (induction n arbitrary: k rule: fmt_u.induct)
  case (1 n)
  show ?case
  proof (cases "n < 10")
    case True
    with "1.prems" show ?thesis by (simp add: fmt_u.simps [of n])
  next
    case False
    with "1.prems" obtain j where j: "k = Suc j" "0 < j" by (cases k; cases "k - 1") auto
    have "n div 10 < 10 ^ j" using "1.prems" j by (simp add: less_mult_imp_div_less mult.commute)
    from "1.IH" [OF False this j(2)] False j show ?thesis by (simp add: fmt_u.simps [of n])
  qed
qed

lemma strchr_none: "c \<notin> set xs \<Longrightarrow> strchr xs c = None"
  by (induction xs) auto

lemma strchr_some: "c \<notin> set xs \<Longrightarrow> strchr (xs @ c # ys) c = Some (c # ys)"
  by (induction xs) auto

section \<open>Properties\<close>

text \<open>
  The device selector \<open>BUS:ADDRESS\<close> is parsed back to the two numbers it was printed from,
  and whatever the parser accepts is within the 8-bit range that the device comparison relies on.
\<close>
lemma bus_address_round_trip:
  assumes "bus \<le> 255" "address \<le> 255"
  shows "parseBusAddress (fmt_u bus @ '':'' @ fmt_u address) = Some (int bus, int address) \<and>
    (\<forall>text b a. parseBusAddress text = Some (b, a) \<longrightarrow> 0 \<le> b \<and> b \<le> 255 \<and> 0 \<le> a \<and> a \<le> 255)"
proof -
  have "length (fmt_u bus) \<le> 3" "length (fmt_u address) \<le> 3"
    using assms by (auto intro!: length_fmt_u)
  moreover have "parseUnsigned (fmt_u bus) 255 = Some bus" "parseUnsigned (fmt_u address) 255 = Some address"
    using assms by (auto intro!: parseUnsigned_fmt_u simp: ULONG_MAX_def)
  moreover have "strchr (fmt_u bus @ CHR '':'' # fmt_u address) CHR '':'' = Some (CHR '':'' # fmt_u address)"
    by (rule strchr_some [OF colon_fmt_u])
  moreover have "strchr (fmt_u address) CHR '':'' = None" by (rule strchr_none [OF colon_fmt_u])
  ultimately show ?thesis
    using parseBusAddress_range by (simp add: parseBusAddress_def)
qed

lemma bus_address_round_trip_example:
  "parseBusAddress ''20:7'' = Some (20, 7)"
proof -
  have "fmt_u 20 @ '':'' @ fmt_u 7 = ''20:7''"
    by code_simp
  then show ?thesis using bus_address_round_trip [of 20 7] by simp
qed

end
