(* ===== verification/Libusb.thy ===== *)
theory Libusb
  imports Prelude
begin

text \<open>
  The USB library as the programs see it. libusb is not part of the repository, so its functions
  are the fields of a record that every definition using them takes as an argument, over a state
  \<open>'w\<close> of the bus that only they change. The wrappers below are the calls the programs make:
  each runs the library's function and appends to the log of calls, which the properties on
  resources and on transmitted bytes are about.
\<close>

datatype libusb_response =
    LIBUSB_SUCCESS | LIBUSB_ERROR_TIMEOUT | LIBUSB_ERROR_INTERRUPTED | LIBUSB_ERROR_NO_DEVICE
  | LIBUSB_ERROR_NOT_SUPPORTED | LIBUSB_ERROR_OTHER int

record usb_endpoint =
  bEndpointAddress :: u8
  bmAttributes :: u8
  wMaxPacketSize :: u16

record usb_setting =
  bInterfaceNumber :: u8
  bAlternateSetting :: u8
  setting_endpoints :: "usb_endpoint list"

text \<open>An interface is the list of its settings, a configuration the list of its interfaces.\<close>

type_synonym usb_config = "usb_setting list list"

text \<open>\<open>None\<close> is a descriptor that the library fails to return.\<close>

record usb_device =
  dev_ids :: "(u16 \<times> u16) option" \<comment> \<open>vendor and product\<close>
  dev_bus :: u8
  dev_address :: u8
  dev_config :: "usb_config option" \<comment> \<open>configuration 0\<close>
  dev_active_config :: "usb_config option"

record 'w libusb =
  lu_init :: "'w \<Rightarrow> libusb_response \<times> 'w"
  lu_devices :: "'w \<Rightarrow> usb_device list option \<times> 'w" \<comment> \<open>None: a negative count\<close>
  lu_open :: "'w \<Rightarrow> usb_device \<Rightarrow> libusb_response \<times> 'w"
  lu_auto_detach :: "'w \<Rightarrow> libusb_response \<times> 'w"
  lu_get_configuration :: "'w \<Rightarrow> libusb_response \<times> int \<times> 'w"
  lu_set_configuration :: "'w \<Rightarrow> int \<Rightarrow> libusb_response \<times> 'w"
  lu_claim :: "'w \<Rightarrow> int \<Rightarrow> libusb_response \<times> 'w"
  lu_clear_halt :: "'w \<Rightarrow> u8 \<Rightarrow> libusb_response \<times> 'w"
  lu_link_select :: "'w \<Rightarrow> u16 \<Rightarrow> nat \<Rightarrow> bool \<times> 'w" \<comment> \<open>the vendor control transfer; False: negative\<close>
  lu_bulk_in :: "'w \<Rightarrow> u8 \<Rightarrow> nat \<Rightarrow> nat \<Rightarrow> libusb_response \<times> bytes \<times> 'w"
  lu_bulk_out :: "'w \<Rightarrow> u8 \<Rightarrow> bytes \<Rightarrow> nat \<Rightarrow> libusb_response \<times> int \<times> 'w"

text \<open>
  The calls, with success where the call acquires something or sends data: a bulk write succeeds when
  the library reports no error and all bytes as transferred. A delay is logged as well.
\<close>

datatype usb_call =
    Init bool | Exit | Get_List bool | Free_List | Open bool | Close | Claim bool | Release
  | Bulk_In u8 nat nat | Bulk_Out u8 bytes nat bool | Clear_Halt u8 | Link_Select u16 | Set_Configuration int
  | Sleep nat

record 'w usb =
  us_world :: 'w
  us_calls :: "usb_call list"

abbreviation log_call :: "usb_call \<Rightarrow> 'w usb \<Rightarrow> 'w usb" where
  "log_call c s \<equiv> s\<lparr>us_calls := us_calls s @ [c]\<rparr>"

definition usb_init :: "'w libusb \<Rightarrow> 'w usb \<Rightarrow> libusb_response \<times> 'w usb" where
  "usb_init L s = (case lu_init L (us_world s) of (r, w) \<Rightarrow>
     (r, log_call (Init (r = LIBUSB_SUCCESS)) (s\<lparr>us_world := w\<rparr>)))"

definition usb_exit :: "'w usb \<Rightarrow> 'w usb" where
  "usb_exit s = log_call Exit s"

definition usb_device_list :: "'w libusb \<Rightarrow> 'w usb \<Rightarrow> usb_device list option \<times> 'w usb" where
  "usb_device_list L s = (case lu_devices L (us_world s) of (ds, w) \<Rightarrow>
     (ds, log_call (Get_List (ds \<noteq> None)) (s\<lparr>us_world := w\<rparr>)))"

definition usb_free_list :: "'w usb \<Rightarrow> 'w usb" where
  "usb_free_list s = log_call Free_List s"

definition usb_open :: "'w libusb \<Rightarrow> usb_device \<Rightarrow> 'w usb \<Rightarrow> libusb_response \<times> 'w usb" where
  "usb_open L d s = (case lu_open L (us_world s) d of (r, w) \<Rightarrow>
     (r, log_call (Open (r = LIBUSB_SUCCESS)) (s\<lparr>us_world := w\<rparr>)))"

definition usb_close :: "'w usb \<Rightarrow> 'w usb" where
  "usb_close s = log_call Close s"

definition usb_auto_detach :: "'w libusb \<Rightarrow> 'w usb \<Rightarrow> libusb_response \<times> 'w usb" where
  "usb_auto_detach L s = (case lu_auto_detach L (us_world s) of (r, w) \<Rightarrow> (r, s\<lparr>us_world := w\<rparr>))"

definition usb_get_configuration :: "'w libusb \<Rightarrow> 'w usb \<Rightarrow> libusb_response \<times> int \<times> 'w usb" where
  "usb_get_configuration L s = (case lu_get_configuration L (us_world s) of (r, c, w) \<Rightarrow>
     (r, c, s\<lparr>us_world := w\<rparr>))"

definition usb_set_configuration :: "'w libusb \<Rightarrow> int \<Rightarrow> 'w usb \<Rightarrow> libusb_response \<times> 'w usb" where
  "usb_set_configuration L c s = (case lu_set_configuration L (us_world s) c of (r, w) \<Rightarrow>
     (r, log_call (Set_Configuration c) (s\<lparr>us_world := w\<rparr>)))"

definition usb_claim :: "'w libusb \<Rightarrow> int \<Rightarrow> 'w usb \<Rightarrow> libusb_response \<times> 'w usb" where
  "usb_claim L i s = (case lu_claim L (us_world s) i of (r, w) \<Rightarrow>
     (r, log_call (Claim (r = LIBUSB_SUCCESS)) (s\<lparr>us_world := w\<rparr>)))"

definition usb_release :: "'w usb \<Rightarrow> 'w usb" where
  "usb_release s = log_call Release s"

definition usb_clear_halt :: "'w libusb \<Rightarrow> u8 \<Rightarrow> 'w usb \<Rightarrow> libusb_response \<times> 'w usb" where
  "usb_clear_halt L ep s = (case lu_clear_halt L (us_world s) ep of (r, w) \<Rightarrow>
     (r, log_call (Clear_Halt ep) (s\<lparr>us_world := w\<rparr>)))"

definition usb_link_select :: "'w libusb \<Rightarrow> u16 \<Rightarrow> nat \<Rightarrow> 'w usb \<Rightarrow> bool \<times> 'w usb" where
  "usb_link_select L v timeout s = (case lu_link_select L (us_world s) v timeout of (ok, w) \<Rightarrow>
     (ok, log_call (Link_Select v) (s\<lparr>us_world := w\<rparr>)))"

definition usb_bulk_in :: "'w libusb \<Rightarrow> u8 \<Rightarrow> nat \<Rightarrow> nat \<Rightarrow> 'w usb \<Rightarrow> libusb_response \<times> bytes \<times> 'w usb" where
  "usb_bulk_in L ep n timeout s = (case lu_bulk_in L (us_world s) ep n timeout of (r, d, w) \<Rightarrow>
     (r, d, log_call (Bulk_In ep n timeout) (s\<lparr>us_world := w\<rparr>)))"

definition usb_bulk_out :: "'w libusb \<Rightarrow> u8 \<Rightarrow> bytes \<Rightarrow> nat \<Rightarrow> 'w usb \<Rightarrow> libusb_response \<times> int \<times> 'w usb" where
  "usb_bulk_out L ep d timeout s = (case lu_bulk_out L (us_world s) ep d timeout of (r, k, w) \<Rightarrow>
     (r, k, log_call (Bulk_Out ep d timeout (r = LIBUSB_SUCCESS \<and> k = int (length d))) (s\<lparr>us_world := w\<rparr>)))"

definition usb_sleep :: "nat \<Rightarrow> 'w usb \<Rightarrow> 'w usb" where
  "usb_sleep ms s = log_call (Sleep ms) s"

text \<open>
  Resources held after a sequence of calls: contexts, device lists, handles and interfaces, each
  as acquisitions minus releases.
\<close>

fun call_balance :: "usb_call \<Rightarrow> int \<times> int \<times> int \<times> int" where
  "call_balance (Init True) = (1, 0, 0, 0)"
| "call_balance Exit = (-1, 0, 0, 0)"
| "call_balance (Get_List True) = (0, 1, 0, 0)"
| "call_balance Free_List = (0, -1, 0, 0)"
| "call_balance (Open True) = (0, 0, 1, 0)"
| "call_balance Close = (0, 0, -1, 0)"
| "call_balance (Claim True) = (0, 0, 0, 1)"
| "call_balance Release = (0, 0, 0, -1)"
| "call_balance _ = (0, 0, 0, 0)"

definition balance_add ::
    "int \<times> int \<times> int \<times> int \<Rightarrow> int \<times> int \<times> int \<times> int \<Rightarrow> int \<times> int \<times> int \<times> int" where
  "balance_add = (\<lambda>(a, b, c, d) (a', b', c', d'). (a + a', b + b', c + c', d + d'))"

definition held :: "usb_call list \<Rightarrow> int \<times> int \<times> int \<times> int" where
  "held calls = foldl balance_add (0, 0, 0, 0) (map call_balance calls)"

lemma balance_add_0 [simp]: "balance_add x (0, 0, 0, 0) = x"
  by (cases x) (simp add: balance_add_def)

lemma balance_assoc: "balance_add (balance_add a b) c = balance_add a (balance_add b c)"
  by (cases a; cases b; cases c) (simp add: balance_add_def)

lemma balance_num [simp]:
  "balance_add (a, b, c, d) (a', b', c', d') = (a + a', b + b', c + c', d + d')"
  by (simp add: balance_add_def)

lemma held_simps [simp]: "held [] = (0, 0, 0, 0)"
  "held (cs @ ds) = foldl balance_add (held cs) (map call_balance ds)"
  by (simp_all add: held_def)

text \<open>
  The bulk writes, transfer by transfer: what was requested, each with its success; the requests, and
  those that were carried out completely.
\<close>

fun bulk_outs :: "usb_call list \<Rightarrow> (bytes \<times> bool) list" where
  "bulk_outs [] = []"
| "bulk_outs (Bulk_Out ep d timeout ok # cs) = (d, ok) # bulk_outs cs"
| "bulk_outs (_ # cs) = bulk_outs cs"

definition out_transfers :: "usb_call list \<Rightarrow> bytes list" where
  "out_transfers calls = map fst (bulk_outs calls)"

definition complete_transfers :: "usb_call list \<Rightarrow> bytes list" where
  "complete_transfers calls = map fst (filter snd (bulk_outs calls))"

lemma bulk_outs_append [simp]: "bulk_outs (xs @ ys) = bulk_outs xs @ bulk_outs ys"
  by (induction xs rule: bulk_outs.induct) simp_all

lemma transfers_Nil [simp]: "out_transfers [] = []" "complete_transfers [] = []"
  by (simp_all add: out_transfers_def complete_transfers_def)

lemma out_transfers_append [simp]: "out_transfers (xs @ ys) = out_transfers xs @ out_transfers ys"
  by (simp add: out_transfers_def)

lemma complete_transfers_append [simp]:
  "complete_transfers (xs @ ys) = complete_transfers xs @ complete_transfers ys"
  by (simp add: complete_transfers_def)

text \<open>
  From \<open>bs\<close> to \<open>bs'\<close> the first transfers of \<open>ts\<close> were made: \<open>k\<close> of them were carried out completely, and
  the next one may have been requested and have failed.
\<close>

definition sent_some :: "(bytes \<times> bool) list \<Rightarrow> (bytes \<times> bool) list \<Rightarrow> bytes list \<Rightarrow> nat \<Rightarrow> bool" where
  "sent_some bs bs' ts k \<longleftrightarrow> k \<le> length ts \<and>
     (bs' = bs @ map (\<lambda>d. (d, True)) (take k ts) \<or>
      k < length ts \<and> bs' = bs @ map (\<lambda>d. (d, True)) (take k ts) @ [(ts ! k, False)])"

lemma sent_some_0 [simp]: "sent_some bs bs ts 0"
  by (simp add: sent_some_def)

lemma sent_some_all: "sent_some bs bs' ts (length ts) \<longleftrightarrow> bs' = bs @ map (\<lambda>d. (d, True)) ts"
  by (simp add: sent_some_def)

lemma sent_some_trans:
  "sent_some bs bs' xs (length xs) \<Longrightarrow> sent_some bs' bs'' ys k \<Longrightarrow> sent_some bs bs'' (xs @ ys) (length xs + k)"
  by (auto simp: sent_some_all) (auto simp: sent_some_def nth_append)

lemma sent_some_more: "sent_some bs bs' xs k \<Longrightarrow> sent_some bs bs' (xs @ ys) k"
  by (auto simp: sent_some_def nth_append)

lemma sent_some_one: "sent_some bs (bs @ [(d, ok)]) (d # ts) (if ok then 1 else 0)"
  by (simp add: sent_some_def)

text \<open>What it says of the requests and of the transfers that were carried out.\<close>

lemma sent_some_transfers:
  assumes "sent_some (bulk_outs cs) (bulk_outs cs') ts k"
  shows "complete_transfers cs' = complete_transfers cs @ take k ts"
    and "\<exists>n. k \<le> n \<and> n \<le> k + 1 \<and> n \<le> length ts \<and> out_transfers cs' = out_transfers cs @ take n ts"
proof -
  have ok: "filter snd (map (\<lambda>d. (d, True)) xs) = map (\<lambda>d. (d, True)) xs" for xs :: "bytes list"
    by (induction xs) simp_all
  have fst: "map fst (map (\<lambda>d. (d, True)) xs) = xs" for xs :: "bytes list" by (induction xs) simp_all
  from assms show "complete_transfers cs' = complete_transfers cs @ take k ts"
    by (auto simp: sent_some_def complete_transfers_def ok fst simp del: map_map)
  from assms consider "k \<le> length ts" "bulk_outs cs' = bulk_outs cs @ map (\<lambda>d. (d, True)) (take k ts)"
    | "k < length ts" "bulk_outs cs' = bulk_outs cs @ map (\<lambda>d. (d, True)) (take k ts) @ [(ts ! k, False)]"
    by (auto simp: sent_some_def)
  then show "\<exists>n. k \<le> n \<and> n \<le> k + 1 \<and> n \<le> length ts \<and> out_transfers cs' = out_transfers cs @ take n ts"
  proof cases
    case 1
    then show ?thesis by (intro exI [of _ k]) (simp add: out_transfers_def fst del: map_map)
  next
    case 2
    then show ?thesis
      by (intro exI [of _ "Suc k"]) (simp add: out_transfers_def fst take_Suc_conv_app_nth del: map_map)
  qed
qed

text \<open>Nothing written, nothing acquired or released.\<close>

definition us_silent :: "'w usb \<Rightarrow> 'w usb \<Rightarrow> bool" where
  "us_silent s t \<longleftrightarrow> bulk_outs (us_calls t) = bulk_outs (us_calls s) \<and>
     held (us_calls t) = held (us_calls s)"

lemma us_silent_refl [simp]: "us_silent s s"
  by (simp add: us_silent_def)

lemma us_silent_transfers:
  "us_silent s t \<Longrightarrow> out_transfers (us_calls t) = out_transfers (us_calls s)"
  "us_silent s t \<Longrightarrow> complete_transfers (us_calls t) = complete_transfers (us_calls s)"
  by (simp_all add: us_silent_def out_transfers_def complete_transfers_def)

lemma us_silent_trans: "us_silent s t \<Longrightarrow> us_silent t u \<Longrightarrow> us_silent s u"
  by (simp add: us_silent_def)

end
