(* ===== verification/Usb_Session.thy ===== *)
theory Usb_Session
  imports C_Text Libusb
begin

text \<open>
  The USB session that \<open>ground_ota.c\<close> and \<open>ground_admin.c\<close> share word for word: choosing and
  opening the device, claiming its interface, exact bulk writes, and the wait for the relay's
  four-byte acknowledgement. Both \<open>Options\<close> structs begin with the fields of \<open>UsbOptions\<close>.
\<close>

section \<open>The code\<close>

definition CF_USB_PACKET_SIZE :: nat where "CF_USB_PACKET_SIZE = 64"
definition LOCAL_TX_ACK_TIMEOUT_MS :: nat where "LOCAL_TX_ACK_TIMEOUT_MS = 1500"
definition SNIFFER_ACK_SIZE :: nat where "SNIFFER_ACK_SIZE = 4"
definition localTxAck :: bytes where
  "localTxAck = [0xAC, 0xC0, 0x00, 0x01]"

record UsbOptions =
  uo_vid :: u16
  uo_pid :: u16
  uo_deviceIndex :: u32
  uo_busNumber :: int
  uo_deviceAddress :: int
  uo_interfaceNumber :: int
  uo_endpointIn :: u8
  uo_endpointOut :: u8
  uo_timeoutMs :: u32

definition session_matches :: "'a UsbOptions_scheme \<Rightarrow> usb_device \<Rightarrow> bool" where
  "session_matches opts d =
     (case dev_ids d of
        None \<Rightarrow> False
      | Some (vendor, product) \<Rightarrow>
          \<not> (vendor \<noteq> uo_vid opts \<or> product \<noteq> uo_pid opts) \<and>
          \<not> ((0 \<le> uo_busNumber opts \<and> dev_bus d \<noteq> word_of_int (uo_busNumber opts)) \<or>
             (0 \<le> uo_deviceAddress opts \<and> dev_address d \<noteq> word_of_int (uo_deviceAddress opts))))"

text \<open>\<open>handle\<close> says whether the handle is not NULL.\<close>

fun open_loop ::
    "'w libusb \<Rightarrow> 'a UsbOptions_scheme \<Rightarrow> usb_device list \<Rightarrow> u32 \<Rightarrow> bool \<Rightarrow> 'w usb \<Rightarrow> bool \<times> 'w usb" where
  "open_loop L opts [] matchIndex handle s = (handle, s)"
| "open_loop L opts (d # ds) matchIndex handle s =
     (if \<not> session_matches opts d then open_loop L opts ds matchIndex handle s
      else if matchIndex = uo_deviceIndex opts
      then (case usb_open L d s of (r, s) \<Rightarrow> open_loop L opts ds (matchIndex + 1) (r = LIBUSB_SUCCESS) s)
      else open_loop L opts ds (matchIndex + 1) handle s)"

definition openCrazyflie :: "'w libusb \<Rightarrow> 'a UsbOptions_scheme \<Rightarrow> 'w usb \<Rightarrow> bool \<times> 'w usb" where
  "openCrazyflie L opts s =
     (case usb_device_list L s of
        (None, s) \<Rightarrow> (False, s)
      | (Some devices, s) \<Rightarrow>
          (case open_loop L opts devices 0 False s of (handle, s) \<Rightarrow> (handle, usb_free_list s)))"

text \<open>The listing: the number of matches, or \<open>-1\<close>, and the text printed.\<close>

definition listCrazyflies :: "'w libusb \<Rightarrow> 'a UsbOptions_scheme \<Rightarrow> 'w usb \<Rightarrow> int \<times> string \<times> 'w usb" where
  "listCrazyflies L opts s =
     (case usb_device_list L s of
        (None, s) \<Rightarrow> (-1, [], s)
      | (Some devices, s) \<Rightarrow>
          let ms = filter (\<lambda>d. dev_ids d = Some (uo_vid opts, uo_pid opts)) devices;
              ids = ''vid=0x'' @ fmt_0X 4 (unat (uo_vid opts)) @ '' pid=0x'' @ fmt_0X 4 (unat (uo_pid opts)) @ nl;
              listing = concat (map (\<lambda>d. ''device='' @ fmt_u (unat (dev_bus d)) @ '':'' @
                fmt_u (unat (dev_address d)) @ '' '' @ ids) ms)
          in (int (length ms),
              if ms = [] then ''No matching USB devices found for '' @ fmt_0X 4 (unat (uo_vid opts)) @ '':'' @
                fmt_0X 4 (unat (uo_pid opts)) @ ''.'' @ nl else listing,
              usb_free_list s))"

definition prepareUsbInterface :: "'w libusb \<Rightarrow> 'a UsbOptions_scheme \<Rightarrow> 'w usb \<Rightarrow> bool \<times> 'w usb" where
  "prepareUsbInterface L opts s =
     (case usb_get_configuration L s of (r, configuration, s) \<Rightarrow>
        let (go, s) = (if r = LIBUSB_SUCCESS \<and> configuration \<noteq> 1
                       then (case usb_set_configuration L 1 s of (r, s) \<Rightarrow> (r = LIBUSB_SUCCESS, s))
                       else (True, s))
        in if \<not> go then (False, s)
           else case usb_auto_detach L s of (_, s) \<Rightarrow>
             case usb_claim L (uo_interfaceNumber opts) s of (r, s) \<Rightarrow>
               if r \<noteq> LIBUSB_SUCCESS then (False, s)
               else case usb_link_select L 1 (unat (uo_timeoutMs opts)) s of (_, s) \<Rightarrow> (True, s))"

definition restoreUsbInterface :: "'w libusb \<Rightarrow> 'a UsbOptions_scheme \<Rightarrow> bool \<Rightarrow> 'w usb \<Rightarrow> 'w usb" where
  "restoreUsbInterface L opts handle s =
     (if \<not> handle then s
      else case usb_link_select L 0 (unat (uo_timeoutMs opts)) s of (_, s) \<Rightarrow> usb_release s)"

text \<open>The label \<open>cleanup\<close> of both \<open>main\<close> functions.\<close>

definition session_cleanup ::
    "'w libusb \<Rightarrow> 'a UsbOptions_scheme \<Rightarrow> bool \<Rightarrow> bool \<Rightarrow> bool \<Rightarrow> 'w usb \<Rightarrow> 'w usb" where
  "session_cleanup L opts claimed handle ctx s =
     (let s = (if claimed then restoreUsbInterface L opts handle s else s);
          s = (if handle then usb_close s else s)
      in if ctx then usb_exit s else s)"

definition bulkWriteExact :: "'w libusb \<Rightarrow> 'a UsbOptions_scheme \<Rightarrow> bytes \<Rightarrow> 'w usb \<Rightarrow> bool \<times> 'w usb" where
  "bulkWriteExact L opts d s =
     (case usb_bulk_out L (uo_endpointOut opts) d (unat (uo_timeoutMs opts)) s of (r, transferred, s) \<Rightarrow>
        if r \<noteq> LIBUSB_SUCCESS then (False, s)
        else if transferred \<noteq> int (length d) then (False, s)
        else (True, s))"

definition wait_body ::
    "'w libusb \<Rightarrow> 'a UsbOptions_scheme \<Rightarrow> nat \<times> 'w usb \<Rightarrow> (bool \<times> 'w usb) + (nat \<times> 'w usb)" where
  "wait_body L opts = (\<lambda>(elapsed, s).
     if \<not> elapsed < LOCAL_TX_ACK_TIMEOUT_MS then Inl (False, s)
     else
       let remaining = LOCAL_TX_ACK_TIMEOUT_MS - elapsed;
           timeout = (if unat (uo_timeoutMs opts) < 100 then unat (uo_timeoutMs opts) else 100);
           timeout = (if remaining < timeout then remaining else timeout)
       in case usb_bulk_in L (uo_endpointIn opts) CF_USB_PACKET_SIZE timeout s of (r, received, s) \<Rightarrow>
         let elapsed = elapsed + timeout in
         if r = LIBUSB_ERROR_TIMEOUT then Inr (elapsed, s)
         else if r \<noteq> LIBUSB_SUCCESS then Inl (False, s)
         else if length received = SNIFFER_ACK_SIZE \<and> received = localTxAck then Inl (True, s)
         else Inr (elapsed, s))"

definition waitForLocalTxAck :: "'w libusb \<Rightarrow> 'a UsbOptions_scheme \<Rightarrow> 'w usb \<Rightarrow> (bool \<times> 'w usb) option" where
  "waitForLocalTxAck L opts s = c_loop (\<lambda>x. Some (wait_body L opts x)) (0, s)"

text \<open>
  The part of both \<open>main\<close> functions that lists the devices, and the part that opens the device,
  runs \<open>body\<close> on it and goes to \<open>cleanup\<close>. \<open>EXIT_SUCCESS\<close> is 0, \<open>EXIT_FAILURE\<close> 1.
\<close>

definition list_devices_run :: "'w libusb \<Rightarrow> 'a UsbOptions_scheme \<Rightarrow> 'w usb \<Rightarrow> int \<times> 'w usb" where
  "list_devices_run L opts s =
     (case usb_init L s of (r, s) \<Rightarrow>
        if r \<noteq> LIBUSB_SUCCESS then (1, session_cleanup L opts False False False s)
        else case listCrazyflies L opts s of (n, _, s) \<Rightarrow>
          (if n < 0 then 1 else 0, session_cleanup L opts False False True s))"

definition with_device ::
    "'w libusb \<Rightarrow> 'a UsbOptions_scheme \<Rightarrow> ('w usb \<Rightarrow> (int \<times> 'w usb) option) \<Rightarrow> 'w usb \<Rightarrow> (int \<times> 'w usb) option" where
  "with_device L opts body s =
     (case usb_init L s of (r, s) \<Rightarrow>
        if r \<noteq> LIBUSB_SUCCESS then Some (1, session_cleanup L opts False False False s)
        else case openCrazyflie L opts s of (handle, s) \<Rightarrow>
          if \<not> handle then Some (1, session_cleanup L opts False False True s)
          else case prepareUsbInterface L opts s of (claimed, s) \<Rightarrow>
            if \<not> claimed then Some (1, session_cleanup L opts False True True s)
            else do {
              (result, s) \<leftarrow> body s;
              Some (result, session_cleanup L opts True True True s)
            })"

section \<open>Facts\<close>

text \<open>The wait ends: every poll adds at least one millisecond to \<open>elapsed\<close>. It writes nothing.\<close>

lemma waitForLocalTxAck_returns:
  assumes "uo_timeoutMs opts \<noteq> 0"
  obtains ok s' where "waitForLocalTxAck L opts s = Some (ok, s')"
    "us_silent s s'"
proof -
  have t0: "0 < unat (uo_timeoutMs opts)" using assms by (simp add: unat_gt_0)
  have "\<exists>r. c_loop (\<lambda>x. Some (wait_body L opts x)) (0, s) = Some r \<and> us_silent s (snd r)"
  proof (rule c_loop_total [where I = "\<lambda>(e, t). us_silent s t" and m = "\<lambda>(e, t). LOCAL_TX_ACK_TIMEOUT_MS - e"])
    fix x x' assume "case x of (e, t) \<Rightarrow> us_silent s t" "Some (wait_body L opts x) = Some (Inr x')"
    then show "(case x' of (e, t) \<Rightarrow> us_silent s t) \<and>
        (case x' of (e, t) \<Rightarrow> LOCAL_TX_ACK_TIMEOUT_MS - e) < (case x of (e, t) \<Rightarrow> LOCAL_TX_ACK_TIMEOUT_MS - e)"
      using t0 by (cases x) (auto simp: wait_body_def usb_bulk_in_def us_silent_def Let_def split: prod.splits if_splits)
  next
    fix x r assume "case x of (e, t) \<Rightarrow> us_silent s t" "Some (wait_body L opts x) = Some (Inl r)"
    then show "us_silent s (snd r)"
      by (cases x) (auto simp: wait_body_def usb_bulk_in_def us_silent_def Let_def split: prod.splits if_splits)
  qed simp_all
  then show thesis using that by (auto simp: waitForLocalTxAck_def)
qed

text \<open>What opening, claiming and the cleanup do to the resources held.\<close>

text \<open>The library never lists so many devices that the 32-bit match counter wraps.\<close>

definition few_devices :: "'w libusb \<Rightarrow> bool" where
  "few_devices L \<longleftrightarrow> (\<forall>w ds w'. lu_devices L w = (Some ds, w') \<longrightarrow> length ds < 2 ^ 32)"

lemma open_loop_held:
  assumes "unat matchIndex + length ds < 2 ^ 32" "open_loop L opts ds matchIndex handle s = (h, s')"
  shows "uo_deviceIndex opts < matchIndex \<Longrightarrow> h = handle \<and> s' = s"
    and "\<not> uo_deviceIndex opts < matchIndex \<Longrightarrow> \<not> handle \<Longrightarrow>
      held (us_calls s') = balance_add (held (us_calls s)) (0, 0, if h then 1 else 0, 0) \<and>
      bulk_outs (us_calls s') = bulk_outs (us_calls s)"
proof -
  have "(uo_deviceIndex opts < matchIndex \<longrightarrow> h = handle \<and> s' = s) \<and>
    (\<not> uo_deviceIndex opts < matchIndex \<and> \<not> handle \<longrightarrow>
      held (us_calls s') = balance_add (held (us_calls s)) (0, 0, if h then 1 else 0, 0) \<and>
      bulk_outs (us_calls s') = bulk_outs (us_calls s))"
    using assms
  proof (induction ds arbitrary: matchIndex handle s)
    case (Cons d ds)
    show ?case
    proof (cases "session_matches opts d")
      case False
      then show ?thesis using Cons.IH [of matchIndex handle s] Cons.prems by simp
    next
      case True
      have i: "unat (matchIndex + 1) = unat matchIndex + 1"
        using Cons.prems(1) by (simp add: unat_word_ariths)
      show ?thesis
      proof (cases "matchIndex = uo_deviceIndex opts")
        case False
        then have "uo_deviceIndex opts < matchIndex + 1 \<longleftrightarrow> uo_deviceIndex opts < matchIndex"
          by (auto simp: word_less_nat_alt i) (metis less_antisym unsigned_word_eqI)
        then show ?thesis using Cons.IH [of "matchIndex + 1" handle s] Cons.prems True False i by simp
      next
        case hit: True
        obtain r s1 where o: "usb_open L d s = (r, s1)" by (cases "usb_open L d s") auto
        have "uo_deviceIndex opts < matchIndex + 1" using i unfolding hit [symmetric] word_less_nat_alt by simp
        then have "h = (r = LIBUSB_SUCCESS) \<and> s' = s1"
          using Cons.IH [of "matchIndex + 1" "r = LIBUSB_SUCCESS" s1] Cons.prems True hit o i by simp
        moreover have "held (us_calls s1) = balance_add (held (us_calls s)) (0, 0, if r = LIBUSB_SUCCESS then 1 else 0, 0)"
          "bulk_outs (us_calls s1) = bulk_outs (us_calls s)"
          using o by (auto simp: usb_open_def split: prod.splits)
        ultimately show ?thesis using hit by simp
      qed
    qed
  qed (auto simp: )
  then show "uo_deviceIndex opts < matchIndex \<Longrightarrow> h = handle \<and> s' = s"
    "\<not> uo_deviceIndex opts < matchIndex \<Longrightarrow> \<not> handle \<Longrightarrow>
      held (us_calls s') = balance_add (held (us_calls s)) (0, 0, if h then 1 else 0, 0) \<and>
      bulk_outs (us_calls s') = bulk_outs (us_calls s)" by blast+
qed

lemma openCrazyflie_held:
  assumes "few_devices L" "openCrazyflie L opts s = (h, s')"
  shows "held (us_calls s') = balance_add (held (us_calls s)) (0, 0, if h then 1 else 0, 0)"
    and "bulk_outs (us_calls s') = bulk_outs (us_calls s)"
proof -
  have "held (us_calls s') = balance_add (held (us_calls s)) (0, 0, if h then 1 else 0, 0) \<and>
    bulk_outs (us_calls s') = bulk_outs (us_calls s)"
  proof (cases "lu_devices L (us_world s)")
    case (Pair ds w)
    show ?thesis
    proof (cases ds)
      case None
      then show ?thesis using assms(2) Pair by (auto simp: openCrazyflie_def usb_device_list_def)
    next
      case (Some devices)
      let ?s1 = "log_call (Get_List True) (s\<lparr>us_world := w\<rparr>)"
      obtain h2 s2 where l: "open_loop L opts devices 0 False ?s1 = (h2, s2)"
        by (cases "open_loop L opts devices 0 False ?s1") auto
      have "length devices < 2 ^ 32" using assms(1) Pair Some unfolding few_devices_def by blast
      then have "unat (0 :: u32) + length devices < 2 ^ 32" by simp
      note o = open_loop_held(2) [OF this l]
      have "h = h2" "s' = usb_free_list s2"
        using assms(2) Pair Some l by (simp_all add: openCrazyflie_def usb_device_list_def)
      then show ?thesis using o by (simp add: usb_free_list_def balance_assoc)
    qed
  qed
  then show "held (us_calls s') = balance_add (held (us_calls s)) (0, 0, if h then 1 else 0, 0)"
    "bulk_outs (us_calls s') = bulk_outs (us_calls s)" by blast+
qed

lemma prepareUsbInterface_held:
  assumes "prepareUsbInterface L opts s = (ok, s')"
  shows "held (us_calls s') = balance_add (held (us_calls s)) (0, 0, 0, if ok then 1 else 0)"
    and "bulk_outs (us_calls s') = bulk_outs (us_calls s)"
  using assms
  by (auto simp: prepareUsbInterface_def usb_get_configuration_def usb_set_configuration_def
      usb_auto_detach_def usb_claim_def usb_link_select_def balance_assoc Let_def split: prod.splits if_splits)

lemma listCrazyflies_held:
  assumes "listCrazyflies L opts s = (n, listing, s')"
  shows "us_silent s s'"
  using assms
  by (auto simp: listCrazyflies_def usb_device_list_def usb_free_list_def us_silent_def balance_assoc Let_def
      split: prod.splits option.splits)

lemma session_cleanup_held:
  "claimed \<longrightarrow> handle \<Longrightarrow>
   held (us_calls (session_cleanup L opts claimed handle ctx s)) =
     balance_add (held (us_calls s)) (if ctx then -1 else 0, 0, if handle then -1 else 0, if claimed then -1 else 0)"
  "bulk_outs (us_calls (session_cleanup L opts claimed handle ctx s)) = bulk_outs (us_calls s)"
  by (auto simp: session_cleanup_def restoreUsbInterface_def usb_link_select_def usb_release_def usb_close_def
      usb_exit_def balance_assoc Let_def split: prod.splits)

lemma usb_init_held:
  "usb_init L s = (r, s') \<Longrightarrow>
     held (us_calls s') = balance_add (held (us_calls s)) (if r = LIBUSB_SUCCESS then 1 else 0, 0, 0, 0) \<and>
     bulk_outs (us_calls s') = bulk_outs (us_calls s)"
  by (auto simp: usb_init_def split: prod.splits)

lemma cleanup_nothing [simp]: "session_cleanup L opts False False False s = s"
  by (simp add: session_cleanup_def)

lemma list_devices_run_facts:
  assumes "list_devices_run L opts s = (r, s')"
  shows "us_silent s s'" "r = 0 \<or> r = 1"
proof -
  obtain r1 s1 where i: "usb_init L s = (r1, s1)" by (cases "usb_init L s") auto
  obtain n t s2 where l: "listCrazyflies L opts s1 = (n, t, s2)" by (cases "listCrazyflies L opts s1") auto
  have "us_silent s s' \<and> (r = 0 \<or> r = 1)"
    using assms i usb_init_held [OF i] l listCrazyflies_held [OF l]
    by (cases "r1 = LIBUSB_SUCCESS")
       (auto simp: list_devices_run_def us_silent_def session_cleanup_held balance_assoc)
  then show "us_silent s s'" "r = 0 \<or> r = 1" by simp_all
qed

text \<open>
  Either the device could not be opened and nothing was written, or the body ran, from a state
  with nothing written, and its result is returned; all that was acquired is released.
\<close>

lemma with_device_cases:
  assumes "few_devices L" "\<And>t. \<exists>r t'. body t = Some (r, t') \<and> held (us_calls t') = held (us_calls t)"
  obtains (closed) s' where "with_device L opts body s = Some (1, s')" "us_silent s s'"
    | (ran) t r t' s' where "bulk_outs (us_calls t) = bulk_outs (us_calls s)" "body t = Some (r, t')"
        "with_device L opts body s = Some (r, s')" "held (us_calls s') = held (us_calls s)"
        "bulk_outs (us_calls s') = bulk_outs (us_calls t')"
proof -
  obtain r1 s1 where i: "usb_init L s = (r1, s1)" by (cases "usb_init L s") auto
  note hi = usb_init_held [OF i]
  show thesis
  proof (cases "r1 = LIBUSB_SUCCESS")
    case False
    then show thesis using closed i hi by (simp add: with_device_def us_silent_def)
  next
    case init: True
    obtain h s2 where o: "openCrazyflie L opts s1 = (h, s2)" by (cases "openCrazyflie L opts s1") auto
    note ho = openCrazyflie_held [OF assms(1) o]
    show thesis
    proof (cases h)
      case False
      then show thesis using closed i hi init o ho
        by (simp add: with_device_def session_cleanup_held balance_assoc us_silent_def)
    next
      case opened: True
      obtain c s3 where p: "prepareUsbInterface L opts s2 = (c, s3)"
        by (cases "prepareUsbInterface L opts s2") auto
      note hp = prepareUsbInterface_held [OF p]
      show thesis
      proof (cases c)
        case False
        then show thesis using closed i hi init o ho opened p hp
          by (simp add: with_device_def session_cleanup_held balance_assoc us_silent_def)
      next
        case claimed: True
        obtain r t' where b: "body s3 = Some (r, t')" "held (us_calls t') = held (us_calls s3)"
          using assms(2) by blast
        let ?s = "session_cleanup L opts True True True t'"
        have "with_device L opts body s = Some (r, ?s)"
          using i init o opened p claimed b by (simp add: with_device_def)
        moreover have "held (us_calls ?s) = held (us_calls s)"
          using hi ho(1) hp(1) b(2) init opened claimed by (simp add: session_cleanup_held balance_assoc)
        ultimately show thesis
          using ran [of s3 r t' ?s] hi ho(2) hp(2) b(1) by (simp add: session_cleanup_held)
      qed
    qed
  qed
qed

text \<open>
  A relay that works: every bulk transfer is accepted completely, and a wait finds the
  acknowledgement at once.
\<close>

definition relay_accepts :: "'w libusb \<Rightarrow> 'a UsbOptions_scheme \<Rightarrow> bool" where
  "relay_accepts L opts \<longleftrightarrow>
     (\<forall>w d t. \<exists>w'. lu_bulk_out L w (uo_endpointOut opts) d t = (LIBUSB_SUCCESS, int (length d), w'))"

definition relay_acknowledges :: "'w libusb \<Rightarrow> 'a UsbOptions_scheme \<Rightarrow> bool" where
  "relay_acknowledges L opts \<longleftrightarrow>
     (\<forall>w n t. \<exists>w'. lu_bulk_in L w (uo_endpointIn opts) n t = (LIBUSB_SUCCESS, localTxAck, w'))"

lemma bulkWriteExact_works:
  assumes "relay_accepts L opts"
  obtains s' where "bulkWriteExact L opts d s = (True, s')"
proof -
  obtain w' where "lu_bulk_out L (us_world s) (uo_endpointOut opts) d (unat (uo_timeoutMs opts)) =
      (LIBUSB_SUCCESS, int (length d), w')"
    using assms unfolding relay_accepts_def by blast
  then show thesis using that by (simp add: bulkWriteExact_def usb_bulk_out_def)
qed

lemma waitForLocalTxAck_works:
  assumes "relay_acknowledges L opts"
  obtains s' where "waitForLocalTxAck L opts s = Some (True, s')"
proof -
  let ?t = "if unat (uo_timeoutMs opts) < 100 then unat (uo_timeoutMs opts) else 100"
  have t: "(if LOCAL_TX_ACK_TIMEOUT_MS - 0 < ?t then LOCAL_TX_ACK_TIMEOUT_MS - 0 else ?t) = ?t"
    by (simp add: LOCAL_TX_ACK_TIMEOUT_MS_def)
  obtain w' where "lu_bulk_in L (us_world s) (uo_endpointIn opts) CF_USB_PACKET_SIZE ?t = (LIBUSB_SUCCESS, localTxAck, w')"
    using assms unfolding relay_acknowledges_def by blast
  then have "wait_body L opts (0, s) = Inl (True, log_call (Bulk_In (uo_endpointIn opts) CF_USB_PACKET_SIZE ?t) (s\<lparr>us_world := w'\<rparr>))"
    by (simp add: wait_body_def usb_bulk_in_def t [unfolded diff_zero] localTxAck_def SNIFFER_ACK_SIZE_def Let_def)
       (simp add: LOCAL_TX_ACK_TIMEOUT_MS_def)
  then show thesis using that by (subst (asm) waitForLocalTxAck_def, subst (asm) c_loop.simps) simp
qed

text \<open>
  From \<open>s\<close> to \<open>s'\<close> the first of the transfers \<open>ts\<close> were made and carried out completely, the last one
  requested perhaps not; when \<open>ok\<close>, all of them were carried out.
\<close>

definition sent_prefix :: "'w usb \<Rightarrow> 'w usb \<Rightarrow> bytes list \<Rightarrow> bool \<Rightarrow> bool" where
  "sent_prefix s s' ts ok \<longleftrightarrow> held (us_calls s') = held (us_calls s) \<and>
     (\<exists>k. sent_some (bulk_outs (us_calls s)) (bulk_outs (us_calls s')) ts k \<and> (ok \<longrightarrow> k = length ts))"

lemma sent_prefix_trans:
  assumes "sent_prefix s t xs True" "sent_prefix t u ys ok"
  shows "sent_prefix s u (xs @ ys) ok"
proof -
  from assms(2) obtain k where "sent_some (bulk_outs (us_calls t)) (bulk_outs (us_calls u)) ys k" "ok \<longrightarrow> k = length ys"
    "held (us_calls u) = held (us_calls t)"
    by (auto simp: sent_prefix_def)
  with assms(1) show ?thesis
    unfolding sent_prefix_def by (intro conjI exI [of _ "length xs + k"]) (auto intro: sent_some_trans)
qed

lemma sent_prefix_fail: "sent_prefix s t xs ok \<Longrightarrow> sent_prefix s t (xs @ ys) False"
  unfolding sent_prefix_def by (blast intro: sent_some_more)

lemma sent_prefix_same: "sent_prefix s s [] ok"
  by (simp add: sent_prefix_def exI [of _ 0])

lemma sent_prefix_nothing: "sent_prefix s s ts False"
  by (auto simp: sent_prefix_def intro!: exI [of _ 0])

lemma sent_prefix_silent:
  "sent_prefix s t ts ok \<Longrightarrow> us_silent t u \<Longrightarrow> sent_prefix s u ts ok"
  by (simp add: sent_prefix_def us_silent_def)

lemma sent_prefix_weaken: "sent_prefix s t ts True \<Longrightarrow> sent_prefix s t ts ok"
  by (auto simp: sent_prefix_def)

lemma sent_prefix_held: "sent_prefix s s' ts ok \<Longrightarrow> held (us_calls s') = held (us_calls s)"
  by (simp add: sent_prefix_def)

text \<open>The requests are a prefix, all but at most the last one of which was carried out.\<close>

lemma sent_prefix_cases:
  assumes "sent_prefix s s' ts ok"
  obtains n k where "n \<le> length ts" "k \<le> n" "n \<le> k + 1"
    "out_transfers (us_calls s') = out_transfers (us_calls s) @ take n ts"
    "complete_transfers (us_calls s') = complete_transfers (us_calls s) @ take k ts"
    "ok \<longrightarrow> n = length ts \<and> k = length ts"
proof -
  obtain k where k: "sent_some (bulk_outs (us_calls s)) (bulk_outs (us_calls s')) ts k" "ok \<longrightarrow> k = length ts"
    using assms by (auto simp: sent_prefix_def)
  obtain n where "k \<le> n" "n \<le> k + 1" "n \<le> length ts" "out_transfers (us_calls s') = out_transfers (us_calls s) @ take n ts"
    using sent_some_transfers(2) [OF k(1)] by blast
  then show thesis using sent_some_transfers(1) [OF k(1)] k(2) by (intro that [of n k]) auto
qed

lemma sent_prefix_all:
  assumes "sent_prefix s s' ts True"
  shows "out_transfers (us_calls s') = out_transfers (us_calls s) @ ts"
    and "complete_transfers (us_calls s') = complete_transfers (us_calls s) @ ts"
  by (rule sent_prefix_cases [OF assms], simp)+

lemma bulkWriteExact_sent:
  assumes "bulkWriteExact L opts d s = (ok, s')"
  shows "sent_prefix s s' [d] ok"
proof -
  have "held (us_calls s') = held (us_calls s) \<and> bulk_outs (us_calls s') = bulk_outs (us_calls s) @ [(d, ok)]"
    using assms by (auto simp: bulkWriteExact_def usb_bulk_out_def split: prod.splits if_splits)
  then show ?thesis using sent_some_one [of "bulk_outs (us_calls s)" d ok "[]"]
    by (auto simp: sent_prefix_def split: if_splits)
qed

end
