(* ===== verification/Ota_Broadcast.thy ===== *)
theory Ota_Broadcast
  imports Ota_Message Usb_Session
begin

text \<open>
  Sending an OTA image through the relay, \<open>ground_ota.c\<close>: bulk transfers, the wait for the
  relay's transmit acknowledgement, repetition, and the broadcast of a whole image. Messages to
  the terminal are left out. A result \<open>None\<close> would be a wait that never ends; it is proved not
  to occur.
\<close>

section \<open>The code\<close>

definition SNIFFER_DOWNLINK_TYPED_MAGIC :: u32 where "SNIFFER_DOWNLINK_TYPED_MAGIC = 0x0000CCCD"
definition DOWNLINK_TYPED_META_SIZE :: nat where "DOWNLINK_TYPED_META_SIZE = 20"
definition UWB_DEST_ANY :: u16 where "UWB_DEST_ANY = 0xFFFF"
definition UWB_OTA_TYPE :: u8 where "UWB_OTA_TYPE = 11"
definition START_ANNOUNCE_DURATION_MS :: nat where "START_ANNOUNCE_DURATION_MS = 10000"
definition START_ROUND_INTERVAL_MS :: nat where "START_ROUND_INTERVAL_MS = 250"
definition PACKET_REPEAT_COUNT :: nat where "PACKET_REPEAT_COUNT = 3"
definition PACKET_REPEAT_INTERVAL_MS :: nat where "PACKET_REPEAT_INTERVAL_MS = 3"
definition DATA_CHUNK_INTERVAL_MS :: nat where "DATA_CHUNK_INTERVAL_MS = 3"

record OtaOptions = UsbOptions +
  oo_imageType :: u8
  oo_filePath :: "string option"
  oo_listDevices :: bool
  oo_assumeYes :: bool
  oo_dryRun :: bool
  oo_verbose :: bool
  oo_selfTestOnly :: bool
  oo_waitForLocalAck :: bool

record Image =
  im_data :: bytes
  im_size :: u32
  im_crc32 :: u32

definition delayUnlessDryRun :: "OtaOptions \<Rightarrow> nat \<Rightarrow> 'w usb \<Rightarrow> 'w usb" where
  "delayUnlessDryRun opts ms s = (if \<not> oo_dryRun opts then usb_sleep ms s else s)"

function writePayloadPackets :: "'w libusb \<Rightarrow> OtaOptions \<Rightarrow> bytes \<Rightarrow> 'w usb \<Rightarrow> bool \<times> 'w usb" where
  "writePayloadPackets L opts rest s =
     (if rest = [] then (True, s)
      else let packetLength = (if CF_USB_PACKET_SIZE < length rest then CF_USB_PACKET_SIZE else length rest)
           in case bulkWriteExact L opts (take packetLength rest) s of (ok, s) \<Rightarrow>
                if \<not> ok then (False, s) else writePayloadPackets L opts (drop packetLength rest) s)"
  by pat_completeness auto
termination
  by (relation "measure (\<lambda>(L, opts, rest, s). length rest)")
     (auto simp: CF_USB_PACKET_SIZE_def)

declare writePayloadPackets.simps [simp del]

definition typed_meta :: "u16 \<Rightarrow> u16 \<Rightarrow> bytes" where
  "typed_meta sequence payloadLength =
     putU32Le SNIFFER_DOWNLINK_TYPED_MAGIC @ putU16Le UWB_DEST_ANY @ putU16Le sequence @
     putU16Le payloadLength @ putU64Le 0 @ [UWB_OTA_TYPE, 0]"

definition sendOtaPayload ::
    "'w libusb \<Rightarrow> OtaOptions \<Rightarrow> u16 \<Rightarrow> bytes \<Rightarrow> u16 \<Rightarrow> 'w usb \<Rightarrow> (bool \<times> 'w usb) option" where
  "sendOtaPayload L opts sequence payload payloadLength s =
     (if OTA_MESSAGE_SIZE_MAX < unat payloadLength then Some (False, s)
      else if oo_dryRun opts then Some (True, s)
      else case bulkWriteExact L opts (typed_meta sequence payloadLength) s of (ok, s) \<Rightarrow>
        if \<not> ok then Some (False, s)
        else case writePayloadPackets L opts (take (unat payloadLength) payload) s of (ok, s) \<Rightarrow>
          if \<not> ok then Some (False, s)
          else if oo_waitForLocalAck opts then do {
            (acked, s) \<leftarrow> waitForLocalTxAck L opts s;
            if \<not> acked then Some (False, s) else Some (True, s)
          }
          else Some (True, s))"

text \<open>The loop over \<open>repeat\<close>, from its current value; the result includes the sequence number.\<close>

function send_repeats ::
    "nat \<Rightarrow> 'w libusb \<Rightarrow> OtaOptions \<Rightarrow> u16 \<Rightarrow> bytes \<Rightarrow> u16 \<Rightarrow> 'w usb \<Rightarrow> (bool \<times> u16 \<times> 'w usb) option" where
  "send_repeats rep L opts sequence message messageLength s =
     (if \<not> rep < PACKET_REPEAT_COUNT then Some (True, sequence, s)
      else do {
        (ok, s) \<leftarrow> sendOtaPayload L opts sequence message messageLength s;
        if \<not> ok then Some (False, sequence, s)
        else
          let sequence = sequence + 1;
              s = (if rep + 1 < PACKET_REPEAT_COUNT then delayUnlessDryRun opts PACKET_REPEAT_INTERVAL_MS s else s)
          in send_repeats (rep + 1) L opts sequence message messageLength s
      })"
  by pat_completeness auto
termination
  by (relation "measure (\<lambda>(rep, _). PACKET_REPEAT_COUNT - rep)") auto

declare send_repeats.simps [simp del]

definition sendRepeated ::
    "'w libusb \<Rightarrow> OtaOptions \<Rightarrow> u16 \<Rightarrow> bytes \<Rightarrow> u16 \<Rightarrow> 'w usb \<Rightarrow> (bool \<times> u16 \<times> 'w usb) option" where
  "sendRepeated = send_repeats 0"

definition startRoundDurationMs :: nat where
  "startRoundDurationMs = (PACKET_REPEAT_COUNT - 1) * PACKET_REPEAT_INTERVAL_MS + START_ROUND_INTERVAL_MS"

definition startRounds :: nat where
  "startRounds = (START_ANNOUNCE_DURATION_MS + startRoundDurationMs - 1) div startRoundDurationMs"

function broadcast_start ::
    "nat \<Rightarrow> 'w libusb \<Rightarrow> OtaOptions \<Rightarrow> u16 \<Rightarrow> bytes \<Rightarrow> u16 \<Rightarrow> 'w usb \<Rightarrow> (bool \<times> u16 \<times> 'w usb) option" where
  "broadcast_start round L opts sequence message messageLength s =
     (if \<not> round < startRounds then Some (True, sequence, s)
      else do {
        (ok, sequence, s) \<leftarrow> sendRepeated L opts sequence message messageLength s;
        if \<not> ok then Some (False, sequence, s)
        else broadcast_start (round + 1) L opts sequence message messageLength
          (delayUnlessDryRun opts START_ROUND_INTERVAL_MS s)
      })"
  by pat_completeness auto
termination
  by (relation "measure (\<lambda>(round, _). startRounds - round)") auto

declare broadcast_start.simps [simp del]

definition total_chunks :: "u32 \<Rightarrow> u32" where
  "total_chunks sz = (sz + of_nat OTA_DATA_PAYLOAD_MAX - 1) div of_nat OTA_DATA_PAYLOAD_MAX"

text \<open>The DATA loop, over the array \<open>message\<close> that each message is built in.\<close>

function broadcast_data ::
    "u32 \<Rightarrow> 'w libusb \<Rightarrow> OtaOptions \<Rightarrow> Image \<Rightarrow> u16 \<Rightarrow> bytes \<Rightarrow> 'w usb \<Rightarrow> (bool \<times> u16 \<times> bytes \<times> 'w usb) option" where
  "broadcast_data chunkIndex L opts img sequence message s =
     (if \<not> chunkIndex < total_chunks (im_size img) then Some (True, sequence, message, s)
      else
        let offset = chunkIndex * of_nat OTA_DATA_PAYLOAD_MAX;
            remaining = im_size img - offset;
            chunkLength = (ucast (if of_nat OTA_DATA_PAYLOAD_MAX < remaining
              then of_nat OTA_DATA_PAYLOAD_MAX else remaining) :: u16);
            (message, messageLength) = buildDataMessage message (oo_imageType opts) (ucast chunkIndex)
              (drop (unat offset) (im_data img)) chunkLength
        in do {
          (ok, sequence, s) \<leftarrow> sendRepeated L opts sequence message (of_nat messageLength) s;
          if \<not> ok then Some (False, sequence, message, s)
          else
            let s = (if chunkIndex + 1 < total_chunks (im_size img)
                     then delayUnlessDryRun opts DATA_CHUNK_INTERVAL_MS s else s)
            in broadcast_data (chunkIndex + 1) L opts img sequence message s
        })"
  by pat_completeness auto
termination
proof (relation "measure (\<lambda>(i, L, opts, img, _). unat (total_chunks (im_size img)) - unat i)", goal_cases)
  case (2 i L opts img sequence message s)
  then have "i < total_chunks (im_size img)" by simp
  moreover from this have "unat (i + 1) = unat i + 1"
    using unsigned_less [of "total_chunks (im_size img)", where 'a=nat]
    by (simp add: unat_word_ariths word_less_nat_alt)
  ultimately show ?case by (simp add: word_less_nat_alt)
qed simp

declare broadcast_data.simps [simp del]

text \<open>\<open>message\<close> is the uninitialised local array of \<open>OTA_MESSAGE_SIZE_MAX\<close> bytes.\<close>

definition broadcastImage ::
    "'w libusb \<Rightarrow> OtaOptions \<Rightarrow> Image \<Rightarrow> bytes \<Rightarrow> 'w usb \<Rightarrow> (bool \<times> 'w usb) option" where
  "broadcastImage L opts img message s = (
     let (message, messageLength) =
           buildStartMessage message (oo_imageType opts) (im_size img) (im_crc32 img)
     in do {
       (ok, sequence, s) \<leftarrow> broadcast_start 0 L opts 1 message (of_nat messageLength) s;
       if \<not> ok then Some (False, s)
       else do {
         (ok, sequence, message, s) \<leftarrow> broadcast_data 0 L opts img sequence message s;
         if \<not> ok then Some (False, s)
         else
           let (message, messageLength) = buildEndMessage message (oo_imageType opts)
           in do {
             (ok, sequence, s) \<leftarrow> sendRepeated L opts sequence message (of_nat messageLength) s;
             Some (ok, s)
           }
       }
     })"

section \<open>What is transmitted\<close>

text \<open>
  The transfers of one frame (its metadata, then its bytes in packets), of a frame repeated
  \<open>n\<close> times under consecutive sequence numbers, and of a list of messages.
\<close>

definition frame_transfers :: "u16 \<Rightarrow> bytes \<Rightarrow> bytes list" where
  "frame_transfers sequence m = typed_meta sequence (of_nat (length m)) # chunks CF_USB_PACKET_SIZE m"

primrec repeated :: "nat \<Rightarrow> u16 \<Rightarrow> bytes \<Rightarrow> bytes list" where
  "repeated 0 sequence m = []"
| "repeated (Suc n) sequence m = frame_transfers sequence m @ repeated n (sequence + 1) m"

fun sched :: "u16 \<Rightarrow> bytes list \<Rightarrow> bytes list" where
  "sched sequence [] = []"
| "sched sequence (m # ms) = repeated PACKET_REPEAT_COUNT sequence m @ sched (sequence + 3) ms"

lemma sched_append: "sched sequence (xs @ ys) = sched sequence xs @ sched (sequence + 3 * of_nat (length xs)) ys"
  by (induction xs arbitrary: sequence) (simp_all add: algebra_simps)

lemma delay_silent: "us_silent s (delayUnlessDryRun opts ms s)"
  by (simp add: delayUnlessDryRun_def usb_sleep_def us_silent_def)

lemma delay_dry [simp]: "oo_dryRun opts \<Longrightarrow> delayUnlessDryRun opts ms s = s"
  by (simp add: delayUnlessDryRun_def)

lemma writePayloadPackets_sent:
  "writePayloadPackets L opts rest s = (ok, s') \<Longrightarrow> sent_prefix s s' (chunks CF_USB_PACKET_SIZE rest) ok"
proof (induction L opts rest s rule: writePayloadPackets.induct)
  case (1 L opts rest s)
  show ?case
  proof (cases "rest = []")
    case True
    with "1.prems" show ?thesis by (simp add: writePayloadPackets.simps sent_prefix_same)
  next
    case False
    let ?n = "if CF_USB_PACKET_SIZE < length rest then CF_USB_PACKET_SIZE else length rest"
    have n: "take ?n rest = take CF_USB_PACKET_SIZE rest" "drop ?n rest = drop CF_USB_PACKET_SIZE rest"
      by simp_all
    have ch: "chunks CF_USB_PACKET_SIZE rest = [take ?n rest] @ chunks CF_USB_PACKET_SIZE (drop ?n rest)"
      unfolding n using False by (subst chunks.simps) (simp add: CF_USB_PACKET_SIZE_def)
    obtain ok1 s1 where w: "bulkWriteExact L opts (take ?n rest) s = (ok1, s1)"
      by (cases "bulkWriteExact L opts (take ?n rest) s") auto
    show ?thesis
    proof (cases ok1)
      case True
      then have "writePayloadPackets L opts (drop ?n rest) s1 = (ok, s')"
        using "1.prems" False w by (subst (asm) writePayloadPackets.simps) (simp add: Let_def)
      then have "sent_prefix s1 s' (chunks CF_USB_PACKET_SIZE (drop ?n rest)) ok"
        using "1.IH" [OF False refl w [symmetric]] True by simp
      with bulkWriteExact_sent [OF w] True show ?thesis unfolding ch by (intro sent_prefix_trans) simp_all
    next
      case nok: False
      then have "s' = s1 \<and> \<not> ok"
        using "1.prems" False w by (subst (asm) writePayloadPackets.simps) (simp add: Let_def)
      with sent_prefix_fail [OF bulkWriteExact_sent [OF w]] show ?thesis unfolding ch by simp
    qed
  qed
qed

text \<open>One frame.\<close>

lemma sendOtaPayload_sent:
  assumes "uo_timeoutMs opts \<noteq> 0" "n \<le> 230" "n \<le> length a"
  obtains ok s' where "sendOtaPayload L opts sequence a (of_nat n) s = Some (ok, s')"
    "\<not> oo_dryRun opts \<Longrightarrow> sent_prefix s s' (frame_transfers sequence (take n a)) ok"
    "oo_dryRun opts \<Longrightarrow> ok \<and> s' = s"
proof -
  have n: "unat (of_nat n :: u16) = n" using assms(2) by (intro unat_of_nat_u16) simp
  show thesis
  proof (cases "oo_dryRun opts")
    case True
    then show thesis using that [of True s] assms(2) n
      by (simp add: sendOtaPayload_def OTA_MESSAGE_SIZE_MAX_def)
  next
    case False
    let ?meta = "typed_meta sequence (of_nat n)"
    have fr: "frame_transfers sequence (take n a) = [?meta] @ chunks CF_USB_PACKET_SIZE (take n a)"
      using assms(3) by (simp add: frame_transfers_def min_absorb2)
    obtain ok1 s1 where w1: "bulkWriteExact L opts ?meta s = (ok1, s1)"
      by (cases "bulkWriteExact L opts ?meta s") auto
    obtain ok2 s2 where w2: "writePayloadPackets L opts (take n a) s1 = (ok2, s2)"
      by (cases "writePayloadPackets L opts (take n a) s1") auto
    obtain ok3 s3 where w3: "waitForLocalTxAck L opts s2 = Some (ok3, s3)"
      "us_silent s2 s3"
      using waitForLocalTxAck_returns [OF assms(1)] .
    note p1 = bulkWriteExact_sent [OF w1] and p2 = writePayloadPackets_sent [OF w2]
    have p12: "sent_prefix s s2 (frame_transfers sequence (take n a)) ok2" if ok1
      unfolding fr using p1 p2 that by (intro sent_prefix_trans) simp_all
    have p13: "sent_prefix s s3 (frame_transfers sequence (take n a)) ok3" if ok1 ok2
      using sent_prefix_silent [OF sent_prefix_weaken w3(2)] p12 that by simp
    show thesis
      using that [of False s1] that [of False s2] that [of True s2] that [of ok3 s3]
        sent_prefix_fail [OF p1, folded fr, of "chunks CF_USB_PACKET_SIZE (take n a)"] p12 p13
        False assms(2) n w1 w2 w3(1)
      unfolding fr
      by (cases ok1; cases ok2; cases "oo_waitForLocalAck opts"; cases ok3)
         (auto simp: sendOtaPayload_def OTA_MESSAGE_SIZE_MAX_def)
  qed
qed

text \<open>Repetition: on success the sequence number advanced once per frame.\<close>

lemma send_repeats_sent:
  assumes "uo_timeoutMs opts \<noteq> 0" "n \<le> 230" "n \<le> length a" "rep \<le> PACKET_REPEAT_COUNT"
  shows "\<exists>ok sequence' s'. send_repeats rep L opts sequence a (of_nat n) s = Some (ok, sequence', s') \<and>
    (\<not> oo_dryRun opts \<longrightarrow> sent_prefix s s' (repeated (PACKET_REPEAT_COUNT - rep) sequence (take n a)) ok) \<and>
    (oo_dryRun opts \<longrightarrow> ok \<and> s' = s) \<and> (ok \<longrightarrow> sequence' = sequence + of_nat (PACKET_REPEAT_COUNT - rep))"
  using assms(4)
proof (induction "PACKET_REPEAT_COUNT - rep" arbitrary: rep sequence s)
  case 0
  then have "send_repeats rep L opts sequence a (of_nat n) s = Some (True, sequence, s)"
    by (subst send_repeats.simps) simp
  with 0 show ?case by (auto simp: sent_prefix_same)
next
  case (Suc k)
  obtain ok1 s1 where w: "sendOtaPayload L opts sequence a (of_nat n) s = Some (ok1, s1)"
    "\<not> oo_dryRun opts \<Longrightarrow> sent_prefix s s1 (frame_transfers sequence (take n a)) ok1"
    "oo_dryRun opts \<Longrightarrow> ok1 \<and> s1 = s"
    using sendOtaPayload_sent [OF assms(1-3)] by metis
  let ?s = "if rep + 1 < PACKET_REPEAT_COUNT then delayUnlessDryRun opts PACKET_REPEAT_INTERVAL_MS s1 else s1"
  have silent: "us_silent s1 ?s" by (simp add: delay_silent)
  have dry: "oo_dryRun opts \<Longrightarrow> ?s = s1" by simp
  have rep: "rep < PACKET_REPEAT_COUNT" "k = PACKET_REPEAT_COUNT - (rep + 1)" using Suc.hyps(2) by simp_all
  from Suc.hyps(1) [OF rep(2), of "sequence + 1" ?s] rep(1) obtain ok2 seq2 s2 where
    r: "send_repeats (rep + 1) L opts (sequence + 1) a (of_nat n) ?s = Some (ok2, seq2, s2)"
    "\<not> oo_dryRun opts \<longrightarrow> sent_prefix ?s s2 (repeated (PACKET_REPEAT_COUNT - (rep + 1)) (sequence + 1) (take n a)) ok2"
    "oo_dryRun opts \<longrightarrow> ok2 \<and> s2 = ?s" "ok2 \<longrightarrow> seq2 = sequence + 1 + of_nat (PACKET_REPEAT_COUNT - (rep + 1))"
    by auto
  have count: "PACKET_REPEAT_COUNT - rep = Suc (PACKET_REPEAT_COUNT - (rep + 1))"
    using Suc.hyps(2) rep(2) by simp
  have reps: "repeated (PACKET_REPEAT_COUNT - rep) sequence (take n a) = frame_transfers sequence (take n a) @
      repeated (PACKET_REPEAT_COUNT - (rep + 1)) (sequence + 1) (take n a)"
    by (simp only: count repeated.simps)
  show ?case
  proof (cases ok1)
    case True
    have "send_repeats rep L opts sequence a (of_nat n) s = Some (ok2, seq2, s2)"
      using w(1) True r(1) rep(1) by (subst send_repeats.simps) (simp add: Let_def)
    moreover have "sent_prefix s s2 (repeated (PACKET_REPEAT_COUNT - rep) sequence (take n a)) ok2"
      if "\<not> oo_dryRun opts"
      unfolding reps using w(2) [OF that] r(2) that True
      by (intro sent_prefix_trans [OF sent_prefix_silent [OF _ silent]]) simp_all
    ultimately show ?thesis using r(3,4) w(3) dry count by auto
  next
    case False
    have "send_repeats rep L opts sequence a (of_nat n) s = Some (False, sequence, s1)"
      using w(1) False rep(1) by (subst send_repeats.simps) (simp add: Let_def)
    then show ?thesis using w(2,3) False reps sent_prefix_fail by fastforce
  qed
qed

lemma sendRepeated_sent:
  assumes "uo_timeoutMs opts \<noteq> 0" "n \<le> 230" "n \<le> length a" "take n a = m"
  obtains ok sequence' s' where "sendRepeated L opts sequence a (of_nat n) s = Some (ok, sequence', s')"
    "\<not> oo_dryRun opts \<Longrightarrow> sent_prefix s s' (sched sequence [m]) ok"
    "oo_dryRun opts \<Longrightarrow> ok \<and> s' = s" "ok \<Longrightarrow> sequence' = sequence + 3"
  using send_repeats_sent [OF assms(1-3), of 0 L sequence s] that assms(4)
  by (auto simp: sendRepeated_def PACKET_REPEAT_COUNT_def)

lemma startRounds_value: "startRounds = 40"
  by (simp add: startRounds_def startRoundDurationMs_def START_ANNOUNCE_DURATION_MS_def
      PACKET_REPEAT_COUNT_def PACKET_REPEAT_INTERVAL_MS_def START_ROUND_INTERVAL_MS_def)

lemma broadcast_start_sent:
  assumes "uo_timeoutMs opts \<noteq> 0" "n \<le> 230" "n \<le> length a" "take n a = m" "round \<le> startRounds"
  shows "\<exists>ok sequence' s'. broadcast_start round L opts sequence a (of_nat n) s = Some (ok, sequence', s') \<and>
    (\<not> oo_dryRun opts \<longrightarrow> sent_prefix s s' (sched sequence (replicate (startRounds - round) m)) ok) \<and>
    (oo_dryRun opts \<longrightarrow> ok \<and> s' = s) \<and> (ok \<longrightarrow> sequence' = sequence + 3 * of_nat (startRounds - round))"
  using assms(5)
proof (induction "startRounds - round" arbitrary: round sequence s)
  case 0
  then have "broadcast_start round L opts sequence a (of_nat n) s = Some (True, sequence, s)"
    by (subst broadcast_start.simps) simp
  with 0 show ?case by (auto simp: sent_prefix_same)
next
  case (Suc k)
  obtain ok1 seq1 s1 where w: "sendRepeated L opts sequence a (of_nat n) s = Some (ok1, seq1, s1)"
    "\<not> oo_dryRun opts \<Longrightarrow> sent_prefix s s1 (sched sequence [m]) ok1"
    "oo_dryRun opts \<Longrightarrow> ok1 \<and> s1 = s" "ok1 \<Longrightarrow> seq1 = sequence + 3"
    using sendRepeated_sent [OF assms(1-4)] by metis
  let ?s = "delayUnlessDryRun opts START_ROUND_INTERVAL_MS s1"
  note silent = delay_silent [of s1 opts START_ROUND_INTERVAL_MS]
  have round: "round < startRounds" "k = startRounds - (round + 1)" using Suc.hyps(2) by simp_all
  from Suc.hyps(1) [OF round(2), of "sequence + 3" ?s] round(1) obtain ok2 seq2 s2 where
    r: "broadcast_start (round + 1) L opts (sequence + 3) a (of_nat n) ?s = Some (ok2, seq2, s2)"
    "\<not> oo_dryRun opts \<longrightarrow> sent_prefix ?s s2 (sched (sequence + 3) (replicate (startRounds - (round + 1)) m)) ok2"
    "oo_dryRun opts \<longrightarrow> ok2 \<and> s2 = ?s" "ok2 \<longrightarrow> seq2 = sequence + 3 + 3 * of_nat (startRounds - (round + 1))"
    by auto
  have count: "startRounds - round = Suc (startRounds - (round + 1))" using Suc.hyps(2) round(2) by simp
  have split: "sched sequence (replicate (startRounds - round) m) =
      sched sequence [m] @ sched (sequence + 3) (replicate (startRounds - (round + 1)) m)"
    unfolding count by simp
  show ?case
  proof (cases ok1)
    case True
    have "broadcast_start round L opts sequence a (of_nat n) s = Some (ok2, seq2, s2)"
      using w(1,4) True r(1) round(1) by (subst broadcast_start.simps) simp
    moreover have "sent_prefix s s2 (sched sequence (replicate (startRounds - round) m)) ok2"
      if "\<not> oo_dryRun opts"
      unfolding split using w(2) [OF that] r(2) that True
      by (intro sent_prefix_trans [OF sent_prefix_silent [OF _ silent]]) simp_all
    ultimately show ?thesis using r(3,4) w(3) count by (auto simp: algebra_simps)
  next
    case False
    have "broadcast_start round L opts sequence a (of_nat n) s = Some (False, seq1, s1)"
      using w(1) False round(1) by (subst broadcast_start.simps) simp
    then show ?thesis using w(2,3) False split sent_prefix_fail by fastforce
  qed
qed

text \<open>An image as \<open>readImage\<close> leaves it.\<close>

definition FIRMWARE_IMAGE_SIZE_MAX :: nat where "FIRMWARE_IMAGE_SIZE_MAX = 262112"

definition image_ok :: "Image \<Rightarrow> bool" where
  "image_ok img \<longleftrightarrow> 0 < length (im_data img) \<and> length (im_data img) \<le> FIRMWARE_IMAGE_SIZE_MAX \<and>
     im_size img = of_nat (length (im_data img)) \<and> im_crc32 img = crc32IsoHdlc (im_data img)"

lemma image_ok_sizes:
  assumes "image_ok img"
  shows "unat (im_size img) = length (im_data img)"
    and "unat (total_chunks (im_size img)) = length (chunks 224 (im_data img))"
    and "length (chunks 224 (im_data img)) \<le> 1171"
proof -
  have le: "length (im_data img) \<le> 262112" and sz: "im_size img = of_nat (length (im_data img))"
    using assms by (simp_all add: image_ok_def FIRMWARE_IMAGE_SIZE_MAX_def)
  show u: "unat (im_size img) = length (im_data img)"
    unfolding sz using le by (intro unat_of_nat_u32) simp
  have "im_size img + of_nat 224 - 1 = of_nat (length (im_data img) + 223)"
    by (simp add: sz)
  then have "unat (im_size img + of_nat 224 - 1) = length (im_data img) + 223"
    using le by (simp add: unat_of_nat_u32 del: of_nat_add of_nat_numeral)
  then show "unat (total_chunks (im_size img)) = length (chunks 224 (im_data img))"
    by (simp add: total_chunks_def OTA_DATA_PAYLOAD_MAX_def unat_div length_chunks)
  show "length (chunks 224 (im_data img)) \<le> 1171"
    using le by (simp add: length_chunks)
qed

lemma chunks_step:
  assumes "i < length (chunks 224 d)"
  shows "i * 224 < length d"
    and "chunks 224 (drop (i * 224) d) = take 224 (drop (i * 224) d) # chunks 224 (drop (Suc i * 224) d)"
proof -
  show l: "i * 224 < length d"
    using assms by (simp add: length_chunks)
  then show "chunks 224 (drop (i * 224) d) = take 224 (drop (i * 224) d) # chunks 224 (drop (Suc i * 224) d)"
    by (subst chunks.simps) (simp add: add.commute)
qed

lemma take_length_take: "take (length (take n xs)) xs = take n xs"
  by (cases "length xs \<le> n") (simp_all add: min_def)

lemma broadcast_data_sent:
  assumes "uo_timeoutMs opts \<noteq> 0" "image_ok img" "length a = 230"
    and "unat i \<le> length (chunks 224 (im_data img))"
  shows "\<exists>ok sequence' a' s'. broadcast_data i L opts img sequence a s = Some (ok, sequence', a', s') \<and>
    (\<not> oo_dryRun opts \<longrightarrow> sent_prefix s s' (sched sequence
       (ota_data_messages (oo_imageType opts) (unat i) (chunks 224 (drop (unat i * 224) (im_data img))))) ok) \<and>
    (oo_dryRun opts \<longrightarrow> ok \<and> s' = s) \<and> (ok \<longrightarrow> length a' = 230 \<and>
       sequence' = sequence + 3 * of_nat (length (chunks 224 (drop (unat i * 224) (im_data img)))))"
  using assms(3,4)
proof (induction "length (chunks 224 (im_data img)) - unat i" arbitrary: i sequence a s)
  case 0
  then have "broadcast_data i L opts img sequence a s = Some (True, sequence, a, s)"
    using image_ok_sizes(2) [OF assms(2)]
    by (subst broadcast_data.simps) (simp add: word_less_nat_alt)
  moreover have "chunks 224 (drop (unat i * 224) (im_data img)) = []"
  proof -
    have "length (im_data img) \<le> unat i * 224"
      using 0 by (simp add: length_chunks)
    then show ?thesis by simp
  qed
  ultimately show ?case using 0 by (auto simp: sent_prefix_same)
next
  case (Suc k)
  let ?d = "im_data img" and ?t = "oo_imageType opts"
  let ?c = "take 224 (drop (unat i * 224) ?d)"
  have lt: "unat i < length (chunks 224 ?d)" using Suc.hyps(2) by simp
  note sizes = image_ok_sizes [OF assms(2)]
  note step = chunks_step [OF lt]
  have small: "unat i * 224 < 262304" using lt sizes(3) by simp
  have i1: "unat (i + 1) = Suc (unat i)" using small by (simp add: unat_word_ariths)
  have off: "unat (i * of_nat 224) = unat i * 224" using small by (simp add: unat_word_ariths)
  have rem: "unat (im_size img - i * of_nat 224) = length ?d - unat i * 224"
    using step(1) off sizes(1) by (subst unat_sub) (simp_all add: word_le_nat_alt)
  have lc: "length ?c = min 224 (length ?d - unat i * 224)" by simp
  let ?cl = "ucast (if of_nat 224 < im_size img - i * of_nat 224 then of_nat 224
    else im_size img - i * of_nat 224) :: u16"
  have cl: "unat ?cl = length ?c"
  proof -
    have "unat (if of_nat 224 < im_size img - i * of_nat 224 then of_nat 224
        else im_size img - i * of_nat 224) = length ?c"
      using rem by (simp add: lc word_less_nat_alt)
    then show ?thesis by (simp add: unsigned_ucast_eq take_bit_eq_mod)
  qed
  let ?m = "ota_message OTA_PACKET_DATA ?t (of_nat (unat i)) ?c"
  let ?a = "?m @ drop (6 + length ?c) a"
  have lm: "length ?m = 6 + length ?c" "length ?c \<le> 224" by simp_all
  have idx: "ucast i = (of_nat (unat i) :: u16)" using ucast_of_nat_u16 [of "unat i"] by simp
  have build: "buildDataMessage a ?t (ucast i) (drop (unat i * 224) ?d) ?cl = (?a, 6 + length ?c)"
  proof -
    have tk: "take (length ?c) (drop (unat i * 224) ?d) = ?c" by (rule take_length_take)
    have "6 + unat ?cl \<le> length a" unfolding cl using Suc.prems(1) by simp
    moreover have "unat ?cl \<le> length (drop (unat i * 224) ?d)" unfolding cl by simp
    ultimately show ?thesis using build_messages(2) [of ?cl a "drop (unat i * 224) ?d" ?t "ucast i"]
      unfolding cl tk idx by blast
  qed
  have len: "length ?a = 230" "6 + length ?c \<le> 230" "6 + length ?c \<le> length ?a" "take (6 + length ?c) ?a = ?m"
    using Suc.prems(1) lm by simp_all
  obtain ok1 seq1 s1 where w: "sendRepeated L opts sequence ?a (of_nat (6 + length ?c)) s = Some (ok1, seq1, s1)"
    "\<not> oo_dryRun opts \<Longrightarrow> sent_prefix s s1 (sched sequence [?m]) ok1"
    "oo_dryRun opts \<Longrightarrow> ok1 \<and> s1 = s" "ok1 \<Longrightarrow> seq1 = sequence + 3"
    using sendRepeated_sent [OF assms(1) len(2,3,4)] by metis
  let ?s = "if i + 1 < total_chunks (im_size img) then delayUnlessDryRun opts DATA_CHUNK_INTERVAL_MS s1 else s1"
  have silent: "us_silent s1 ?s" by (simp add: delay_silent)
  have dry: "oo_dryRun opts \<Longrightarrow> ?s = s1" by simp
  have k: "k = length (chunks 224 ?d) - unat (i + 1)" using Suc.hyps(2) i1 by simp
  from Suc.hyps(1) [OF k len(1), of "sequence + 3" ?s] lt i1 obtain ok2 seq2 a2 s2 where
    r: "broadcast_data (i + 1) L opts img (sequence + 3) ?a ?s = Some (ok2, seq2, a2, s2)"
    "\<not> oo_dryRun opts \<longrightarrow> sent_prefix ?s s2 (sched (sequence + 3)
       (ota_data_messages ?t (Suc (unat i)) (chunks 224 (drop (Suc (unat i) * 224) ?d)))) ok2"
    "oo_dryRun opts \<longrightarrow> ok2 \<and> s2 = ?s" "ok2 \<longrightarrow> length a2 = 230 \<and>
       seq2 = sequence + 3 + 3 * of_nat (length (chunks 224 (drop (Suc (unat i) * 224) ?d)))"
    by auto
  have split: "sched sequence (ota_data_messages ?t (unat i) (chunks 224 (drop (unat i * 224) ?d))) =
      sched sequence [?m] @ sched (sequence + 3) (ota_data_messages ?t (Suc (unat i)) (chunks 224 (drop (Suc (unat i) * 224) ?d)))"
    unfolding step(2) by simp
  have guard: "i < total_chunks (im_size img)" using lt sizes(2) by (simp add: word_less_nat_alt)
  note body = broadcast_data.simps [of i L opts img sequence a s, unfolded OTA_DATA_PAYLOAD_MAX_def Let_def off build]
  show ?case
  proof (cases ok1)
    case True
    have "broadcast_data i L opts img sequence a s = Some (ok2, seq2, a2, s2)"
      unfolding body using guard w(1) True w(4) [OF True] r(1) by simp
    moreover have "sent_prefix s s2 (sched sequence
        (ota_data_messages ?t (unat i) (chunks 224 (drop (unat i * 224) ?d)))) ok2" if "\<not> oo_dryRun opts"
      unfolding split using w(2) [OF that] r(2) that True
      by (intro sent_prefix_trans [OF sent_prefix_silent [OF _ silent]]) simp_all
    ultimately show ?thesis using r(3,4) w(3) dry unfolding step(2) by (auto simp: algebra_simps)
  next
    case False
    have "broadcast_data i L opts img sequence a s = Some (False, seq1, ?a, s1)"
      unfolding body using guard w(1) False by simp
    then show ?thesis using w(2,3) False split sent_prefix_fail by fastforce
  qed
qed

text \<open>The messages of a whole broadcast: the START is announced in every round.\<close>

definition broadcast_messages :: "u8 \<Rightarrow> bytes \<Rightarrow> bytes list" where
  "broadcast_messages imageType d =
     replicate 40 (ota_message OTA_PACKET_START imageType 0 (start_body (of_nat (length d)) (crc32IsoHdlc d))) @
     ota_data_messages imageType 0 (chunks 224 d) @ [ota_message OTA_PACKET_END imageType 0 []]"

lemma broadcastImage_sent:
  assumes "uo_timeoutMs opts \<noteq> 0" "image_ok img" "length a = 230"
  obtains ok s' where "broadcastImage L opts img a s = Some (ok, s')"
    "\<not> oo_dryRun opts \<Longrightarrow> sent_prefix s s' (sched 1 (broadcast_messages (oo_imageType opts) (im_data img))) ok"
    "oo_dryRun opts \<Longrightarrow> ok \<and> s' = s"
proof -
  let ?t = "oo_imageType opts" and ?d = "im_data img"
  let ?start = "ota_message OTA_PACKET_START ?t 0 (start_body (im_size img) (im_crc32 img))"
  let ?fin = "ota_message OTA_PACKET_END ?t 0 []"
  let ?datas = "ota_data_messages ?t 0 (chunks 224 ?d)"
  have meta: "im_size img = of_nat (length ?d)" "im_crc32 img = crc32IsoHdlc ?d"
    using assms(2) by (simp_all add: image_ok_def)
  let ?a = "?start @ drop 14 a"
  have b1: "buildStartMessage a ?t (im_size img) (im_crc32 img) = (?a, 14)"
    using assms(3) by (simp add: build_messages(1))
  have la: "length ?a = 230" "14 \<le> length ?a" "take 14 ?a = ?start"
    using assms(3) by (simp_all add: start_body_def)
  obtain ok1 seq1 s1 where w1: "broadcast_start 0 L opts 1 ?a (of_nat 14) s = Some (ok1, seq1, s1)"
    "\<not> oo_dryRun opts \<Longrightarrow> sent_prefix s s1 (sched 1 (replicate 40 ?start)) ok1"
    "oo_dryRun opts \<Longrightarrow> ok1 \<and> s1 = s" "ok1 \<Longrightarrow> seq1 = 1 + 3 * of_nat 40"
    using broadcast_start_sent [OF assms(1) _ la(2,3), of 0 L 1 s] unfolding startRounds_value diff_zero
    by auto
  obtain ok2 seq2 a2 s2 where w2: "broadcast_data 0 L opts img seq1 ?a s1 = Some (ok2, seq2, a2, s2)"
    "\<not> oo_dryRun opts \<Longrightarrow> sent_prefix s1 s2 (sched seq1 ?datas) ok2"
    "oo_dryRun opts \<Longrightarrow> ok2 \<and> s2 = s1" "ok2 \<Longrightarrow> length a2 = 230 \<and> seq2 = seq1 + 3 * of_nat (length (chunks 224 ?d))"
    using broadcast_data_sent [OF assms(1,2) la(1), of 0 L seq1 s1] by auto
  let ?a2 = "?fin @ drop 6 a2"
  have b2: "ok2 \<Longrightarrow> buildEndMessage a2 ?t = (?a2, 6)" using w2(4) by (simp add: build_messages(3))
  have l6: "6 \<le> (230 :: nat)" "6 \<le> length ?a2" "take 6 ?a2 = ?fin" by simp_all
  obtain ok3 seq3 s3 where w3: "sendRepeated L opts seq2 ?a2 (of_nat (6 :: nat)) s2 = Some (ok3, seq3, s3)"
    "\<not> oo_dryRun opts \<Longrightarrow> sent_prefix s2 s3 (sched seq2 [?fin]) ok3"
    "oo_dryRun opts \<Longrightarrow> ok3 \<and> s3 = s2"
    using sendRepeated_sent [OF assms(1) l6, of L seq2 s2] by metis
  note body = broadcastImage_def [of L opts img a s, unfolded b1 Let_def prod.case w1(1)]
  let ?all = "sched 1 (broadcast_messages ?t ?d)"
  have all: "?all = sched 1 (replicate 40 ?start) @ sched (1 + 3 * of_nat 40) (?datas @ [?fin])"
    by (simp add: broadcast_messages_def sched_append meta)
  show thesis
  proof (cases ok1)
    case False
    then have "broadcastImage L opts img a s = Some (False, s1)" unfolding body by simp
    then show thesis using that w1(2,3) False sent_prefix_fail unfolding all by metis
  next
    case ok1: True
    note seq1 = w1(4) [OF ok1]
    have rest: "sched (1 + 3 * of_nat 40) (?datas @ [?fin]) = sched seq1 ?datas @ sched (seq1 + 3 * of_nat (length (chunks 224 ?d))) [?fin]"
      unfolding seq1 by (simp add: sched_append)
    show thesis
    proof (cases ok2)
      case False
      then have "broadcastImage L opts img a s = Some (False, s2)" unfolding body using ok1 w2(1) by simp
      moreover have "sent_prefix s s2 ?all False" if "\<not> oo_dryRun opts"
        unfolding all rest using w1(2) [OF that] w2(2) [OF that] ok1 False
        by (intro sent_prefix_trans sent_prefix_fail) simp_all
      ultimately show thesis using that w2(3) False by metis
    next
      case ok2: True
      note seq2 = w2(4) [OF ok2, THEN conjunct2]
      have "broadcastImage L opts img a s = Some (ok3, s3)"
        unfolding body using ok1 ok2 w2(1) b2 [OF ok2] w3(1) by (simp add: Let_def)
      moreover have "sent_prefix s s3 ?all ok3" if "\<not> oo_dryRun opts"
        unfolding all rest using w1(2) [OF that] w2(2) [OF that] w3(2) [OF that] ok1 ok2
        unfolding seq2 by (intro sent_prefix_trans) simp_all
      ultimately show thesis using that w1(3) w2(3) w3(3) by metis
    qed
  qed
qed

section \<open>Properties\<close>

definition good_image :: "bytes \<Rightarrow> Image" where
  "good_image d = \<lparr>im_data = d, im_size = of_nat (length d), im_crc32 = crc32IsoHdlc d\<rparr>"

definition default_options :: OtaOptions where
  "default_options = \<lparr>uo_vid = 0x0483, uo_pid = 0x5740, uo_deviceIndex = 0, uo_busNumber = -1,
     uo_deviceAddress = -1, uo_interfaceNumber = 0, uo_endpointIn = 0x81, uo_endpointOut = 0x01,
     uo_timeoutMs = 1000, oo_imageType = OTA_IMAGE_FIRMWARE, oo_filePath = None,
     oo_listDevices = False, oo_assumeYes = False, oo_dryRun = False, oo_verbose = False,
     oo_selfTestOnly = False, oo_waitForLocalAck = True\<rparr>"

text \<open>A library whose device is gone: every call fails.\<close>

definition dead_libusb :: "unit libusb" where
  "dead_libusb = \<lparr>lu_init = \<lambda>w. (LIBUSB_ERROR_NO_DEVICE, w), lu_devices = \<lambda>w. (None, w),
     lu_open = \<lambda>w d. (LIBUSB_ERROR_NO_DEVICE, w), lu_auto_detach = \<lambda>w. (LIBUSB_ERROR_NO_DEVICE, w),
     lu_get_configuration = \<lambda>w. (LIBUSB_ERROR_NO_DEVICE, 0, w),
     lu_set_configuration = \<lambda>w c. (LIBUSB_ERROR_NO_DEVICE, w), lu_claim = \<lambda>w i. (LIBUSB_ERROR_NO_DEVICE, w),
     lu_clear_halt = \<lambda>w e. (LIBUSB_ERROR_NO_DEVICE, w), lu_link_select = \<lambda>w v t. (False, w),
     lu_bulk_in = \<lambda>w e n t. (LIBUSB_ERROR_TIMEOUT, [], w), lu_bulk_out = \<lambda>w e d t. (LIBUSB_ERROR_NO_DEVICE, 0, w)\<rparr>"

text \<open>
  C4. A broadcast returns, whatever the USB device answers, and the transfers it makes are a
  prefix of the schedule: the START in 40 rounds, every chunk of the image in order and the
  END, each message three times, each copy preceded by its metadata with the next sequence
  number and cut into USB packets of 64 bytes. All but at most the last of them were carried out
  completely. If it reports success, the whole schedule was requested and carried out.
\<close>
theorem broadcast_transmits_image:
  assumes "uo_timeoutMs opts \<noteq> 0" "image_ok img" "length message = OTA_MESSAGE_SIZE_MAX" "\<not> oo_dryRun opts"
  shows "\<exists>ok s' k made. broadcastImage L opts img message s = Some (ok, s') \<and>
    out_transfers (us_calls s') = out_transfers (us_calls s) @
      take k (sched 1 (broadcast_messages (oo_imageType opts) (im_data img))) \<and>
    complete_transfers (us_calls s') = complete_transfers (us_calls s) @
      take made (sched 1 (broadcast_messages (oo_imageType opts) (im_data img))) \<and>
    made \<le> k \<and> k \<le> made + 1 \<and>
    (ok \<longrightarrow> out_transfers (us_calls s') = out_transfers (us_calls s) @
        sched 1 (broadcast_messages (oo_imageType opts) (im_data img)) \<and>
      complete_transfers (us_calls s') = complete_transfers (us_calls s) @
        sched 1 (broadcast_messages (oo_imageType opts) (im_data img))) \<and>
    held (us_calls s') = held (us_calls s)"
proof -
  have a: "length message = 230" using assms(3) by (simp add: OTA_MESSAGE_SIZE_MAX_def)
  obtain ok s' where b: "broadcastImage L opts img message s = Some (ok, s')"
    "sent_prefix s s' (sched 1 (broadcast_messages (oo_imageType opts) (im_data img))) ok"
    using broadcastImage_sent [OF assms(1,2) a, of L s] assms(4) by metis
  show ?thesis
  proof (rule sent_prefix_cases [OF b(2)])
    fix n k
    assume "k \<le> n" "n \<le> k + 1"
      "out_transfers (us_calls s') = out_transfers (us_calls s) @
        take n (sched 1 (broadcast_messages (oo_imageType opts) (im_data img)))"
      "complete_transfers (us_calls s') = complete_transfers (us_calls s) @
        take k (sched 1 (broadcast_messages (oo_imageType opts) (im_data img)))"
      "ok \<longrightarrow> n = length (sched 1 (broadcast_messages (oo_imageType opts) (im_data img))) \<and>
        k = length (sched 1 (broadcast_messages (oo_imageType opts) (im_data img)))"
    then show ?thesis using b(1) sent_prefix_held [OF b(2)]
      by (intro exI [of _ ok] exI [of _ s'] exI [of _ n] exI [of _ k]) auto
  qed
qed

theorem broadcast_transmits_image_witness:
  "\<exists>ok s' k made. broadcastImage dead_libusb default_options (good_image [1, 2, 3]) (replicate 230 0)
       \<lparr>us_world = (), us_calls = []\<rparr> = Some (ok, s') \<and>
     out_transfers (us_calls s') = take k (sched 1 (broadcast_messages OTA_IMAGE_FIRMWARE [1, 2, 3])) \<and>
     complete_transfers (us_calls s') = take made (sched 1 (broadcast_messages OTA_IMAGE_FIRMWARE [1, 2, 3]))"
  using broadcast_transmits_image [of default_options "good_image [1, 2, 3]" "replicate 230 0" dead_libusb
      "\<lparr>us_world = (), us_calls = []\<rparr>"]
  by (auto simp: default_options_def good_image_def image_ok_def FIRMWARE_IMAGE_SIZE_MAX_def OTA_MESSAGE_SIZE_MAX_def
      out_transfers_def complete_transfers_def)

text \<open>
  A dry run succeeds on every valid image and touches no device: it makes no USB call, not
  even a delay.
\<close>
lemma broadcast_dry_run:
  assumes "uo_timeoutMs opts \<noteq> 0" "image_ok img" "length message = OTA_MESSAGE_SIZE_MAX" "oo_dryRun opts"
  shows "broadcastImage L opts img message s = Some (True, s)"
proof -
  have a: "length message = 230" using assms(3) by (simp add: OTA_MESSAGE_SIZE_MAX_def)
  show ?thesis using broadcastImage_sent [OF assms(1,2) a, of L s] assms(4) by metis
qed

lemma broadcast_dry_run_example:
  "broadcastImage dead_libusb (default_options\<lparr>oo_dryRun := True\<rparr>) (good_image [1, 2, 3]) (replicate 230 0)
     \<lparr>us_world = (), us_calls = []\<rparr> = Some (True, \<lparr>us_world = (), us_calls = []\<rparr>)"
  by (rule broadcast_dry_run)
     (simp_all add: default_options_def good_image_def image_ok_def FIRMWARE_IMAGE_SIZE_MAX_def OTA_MESSAGE_SIZE_MAX_def)

end
