(* ===== verification/Ota_Relay.thy ===== *)
theory Ota_Relay
  imports Ota_Broadcast
begin

text \<open>
  A relay that works: every bulk transfer is accepted completely and, where the program waits for
  it, acknowledged. Over such a relay the broadcast cannot fail.
\<close>

definition relay_works :: "'w libusb \<Rightarrow> OtaOptions \<Rightarrow> bool" where
  "relay_works L opts \<longleftrightarrow> relay_accepts L opts \<and> (oo_waitForLocalAck opts \<longrightarrow> relay_acknowledges L opts)"

lemma relay_worksD:
  assumes "relay_works L opts"
  shows "relay_accepts L opts" "oo_waitForLocalAck opts \<Longrightarrow> relay_acknowledges L opts"
  using assms by (simp_all add: relay_works_def)

lemma writePayloadPackets_works:
  assumes "relay_works L opts"
  shows "\<exists>s'. writePayloadPackets L opts rest s = (True, s')"
  using assms
proof (induction L opts rest s rule: writePayloadPackets.induct)
  case (1 L opts rest s)
  show ?case
  proof (cases "rest = []")
    case False
    let ?n = "if CF_USB_PACKET_SIZE < length rest then CF_USB_PACKET_SIZE else length rest"
    obtain s1 where b: "bulkWriteExact L opts (take ?n rest) s = (True, s1)"
      using bulkWriteExact_works [OF relay_worksD(1) [OF "1.prems"]] by metis
    from "1.IH" [OF False refl b [symmetric] _ "1.prems"] b False show ?thesis
      by (subst writePayloadPackets.simps) (simp add: Let_def)
  qed (simp add: writePayloadPackets.simps)
qed

lemma sendOtaPayload_works:
  assumes "relay_works L opts" "n \<le> 230"
  obtains s' where "sendOtaPayload L opts sequence a (of_nat n) s = Some (True, s')"
proof -
  have n: "unat (of_nat n :: u16) = n" using assms(2) by (intro unat_of_nat_u16) simp
  obtain s1 where 1: "bulkWriteExact L opts (typed_meta sequence (of_nat n)) s = (True, s1)"
    using bulkWriteExact_works [OF relay_worksD(1) [OF assms(1)]] by metis
  obtain s2 where 2: "writePayloadPackets L opts (take n a) s1 = (True, s2)"
    using writePayloadPackets_works [OF assms(1)] by metis
  show thesis
  proof (cases "oo_waitForLocalAck opts")
    case True
    obtain s3 where "waitForLocalTxAck L opts s2 = Some (True, s3)"
      using waitForLocalTxAck_works [OF relay_worksD(2) [OF assms(1) True]] by metis
    with 1 2 n assms(2) True that show thesis
      by (cases "oo_dryRun opts") (auto simp: sendOtaPayload_def OTA_MESSAGE_SIZE_MAX_def)
  next
    case False
    with 1 2 n assms(2) that show thesis
      by (cases "oo_dryRun opts") (auto simp: sendOtaPayload_def OTA_MESSAGE_SIZE_MAX_def)
  qed
qed

lemma sendRepeated_works:
  assumes "relay_works L opts" "n \<le> 230"
  shows "\<exists>s'. sendRepeated L opts sequence a (of_nat n) s = Some (True, sequence + 3, s')"
proof -
  have step: "\<exists>s'. send_repeats rep L opts q a (of_nat n) t = send_repeats (rep + 1) L opts (q + 1) a (of_nat n) s'"
    if "rep < PACKET_REPEAT_COUNT" for rep q t
  proof -
    obtain s' where "sendOtaPayload L opts q a (of_nat n) t = Some (True, s')"
      using sendOtaPayload_works [OF assms] by metis
    then show ?thesis using that by (subst send_repeats.simps) (auto simp: Let_def)
  qed
  obtain s1 where 1: "send_repeats 0 L opts sequence a (of_nat n) s = send_repeats 1 L opts (sequence + 1) a (of_nat n) s1"
    using step [of 0 sequence s] by (auto simp: PACKET_REPEAT_COUNT_def)
  obtain s2 where 2: "send_repeats 1 L opts (sequence + 1) a (of_nat n) s1 = send_repeats 2 L opts (sequence + 2) a (of_nat n) s2"
    using step [of 1 "sequence + 1" s1] by (auto simp: PACKET_REPEAT_COUNT_def add.assoc numeral_2_eq_2 numeral_3_eq_3)
  obtain s3 where 3: "send_repeats 2 L opts (sequence + 2) a (of_nat n) s2 = send_repeats 3 L opts (sequence + 3) a (of_nat n) s3"
    using step [of 2 "sequence + 2" s2] by (auto simp: PACKET_REPEAT_COUNT_def add.assoc numeral_2_eq_2 numeral_3_eq_3)
  have "send_repeats 3 L opts (sequence + 3) a (of_nat n) s3 = Some (True, sequence + 3, s3)"
    by (subst send_repeats.simps) (simp add: PACKET_REPEAT_COUNT_def)
  then show ?thesis unfolding sendRepeated_def 1 2 3 by simp
qed

lemma broadcast_start_works:
  assumes "relay_works L opts" "n \<le> 230"
  shows "\<exists>q s'. broadcast_start round L opts sequence a (of_nat n) s = Some (True, q, s')"
proof (induction "startRounds - round" arbitrary: round sequence s)
  case 0
  then show ?case by (subst broadcast_start.simps) simp
next
  case (Suc k)
  obtain s1 where "sendRepeated L opts sequence a (of_nat n) s = Some (True, sequence + 3, s1)"
    using sendRepeated_works [OF assms] by metis
  with Suc show ?case by (subst broadcast_start.simps) simp
qed

lemma broadcast_data_works:
  assumes "relay_works L opts"
  shows "\<exists>q a' s'. broadcast_data i L opts img sequence a s = Some (True, q, a', s')"
proof (induction "unat (total_chunks (im_size img)) - unat i" arbitrary: i sequence a s)
  case 0
  then show ?case by (subst broadcast_data.simps) (simp add: word_less_nat_alt)
next
  case (Suc k)
  then have lt: "i < total_chunks (im_size img)" by (simp add: word_less_nat_alt)
  let ?r = "im_size img - i * of_nat 224"
  let ?cl = "ucast (if of_nat 224 < ?r then of_nat 224 else ?r) :: u16"
  have "unat (if of_nat 224 < ?r then of_nat 224 else ?r) \<le> 224" by (simp add: word_less_nat_alt)
  then have cl: "6 + unat ?cl \<le> 230" by (simp add: unsigned_ucast_eq take_bit_eq_mod)
  obtain a2 where build: "buildDataMessage a (oo_imageType opts) (ucast i)
      (drop (unat (i * of_nat 224)) (im_data img)) ?cl = (a2, 6 + unat ?cl)"
    by (simp add: buildDataMessage_def serializeOtaMessage_def OTA_HEADER_SIZE_def Let_def)
  obtain s1 where w: "sendRepeated L opts sequence a2 (of_nat (6 + unat ?cl)) s = Some (True, sequence + 3, s1)"
    using sendRepeated_works [OF assms cl] by metis
  have "unat (i + 1) = unat i + 1"
    using lt unsigned_less [of "total_chunks (im_size img)", where 'a=nat]
    by (simp add: unat_word_ariths word_less_nat_alt)
  then have k: "k = unat (total_chunks (im_size img)) - unat (i + 1)" using Suc.hyps(2) by simp
  note body = broadcast_data.simps [of i L opts img sequence a s, unfolded OTA_DATA_PAYLOAD_MAX_def Let_def build
      prod.case w]
  show ?case unfolding body using Suc.hyps(1) [OF k] lt by simp
qed

lemma broadcastImage_works:
  assumes "relay_works L opts"
  obtains s' where "broadcastImage L opts img a s = Some (True, s')"
proof -
  define m where "m = buildStartMessage a (oo_imageType opts) (im_size img) (im_crc32 img)"
  have m: "m = (fst m, 14)"
    by (simp add: m_def buildStartMessage_def serializeOtaMessage_def OTA_HEADER_SIZE_def OTA_START_INFO_SIZE_def Let_def)
  obtain q1 s1 where 1: "broadcast_start 0 L opts 1 (fst m) (of_nat 14) s = Some (True, q1, s1)"
    using broadcast_start_works [OF assms, of 14] by fastforce
  obtain q2 a2 s2 where 2: "broadcast_data 0 L opts img q1 (fst m) s1 = Some (True, q2, a2, s2)"
    using broadcast_data_works [OF assms] by metis
  define e where "e = buildEndMessage a2 (oo_imageType opts)"
  have e: "e = (fst e, 6)"
    by (simp add: e_def buildEndMessage_def serializeOtaMessage_def OTA_HEADER_SIZE_def Let_def)
  obtain q3 s3 where 3: "sendRepeated L opts q2 (fst e) (of_nat 6) s2 = Some (True, q3, s3)"
    using sendRepeated_works [OF assms, of 6] by fastforce
  have "broadcastImage L opts img a s = Some (True, s3)"
    unfolding broadcastImage_def m_def [symmetric]
    by (subst m) (simp add: 1 [simplified] 2 Let_def flip: e_def, subst e, simp add: 3 [simplified])
  then show thesis by (rule that)
qed

section \<open>Properties\<close>

text \<open>A relay that accepts every transfer and acknowledges every frame.\<close>

definition echo_libusb :: "unit libusb" where
  "echo_libusb = \<lparr>lu_init = \<lambda>w. (LIBUSB_SUCCESS, w),
     lu_devices = \<lambda>w. (Some [\<lparr>dev_ids = Some (0x0483, 0x5740), dev_bus = 20, dev_address = 7,
       dev_config = None, dev_active_config = None\<rparr>], w),
     lu_open = \<lambda>w d. (LIBUSB_SUCCESS, w), lu_auto_detach = \<lambda>w. (LIBUSB_SUCCESS, w),
     lu_get_configuration = \<lambda>w. (LIBUSB_SUCCESS, 1, w), lu_set_configuration = \<lambda>w c. (LIBUSB_SUCCESS, w),
     lu_claim = \<lambda>w i. (LIBUSB_SUCCESS, w), lu_clear_halt = \<lambda>w e. (LIBUSB_SUCCESS, w),
     lu_link_select = \<lambda>w v t. (True, w), lu_bulk_in = \<lambda>w e n t. (LIBUSB_SUCCESS, localTxAck, w),
     lu_bulk_out = \<lambda>w e d t. (LIBUSB_SUCCESS, int (length d), w)\<rparr>"

lemma echo_works: "relay_works echo_libusb opts"
  by (simp add: relay_works_def relay_accepts_def relay_acknowledges_def echo_libusb_def)

text \<open>
  C22. Over a relay that accepts every transfer and, where the program waits for it, acknowledges
  every frame, a broadcast reports success and the transfers it made are the whole schedule, all of
  them carried out completely.
\<close>
theorem broadcast_completes:
  assumes "relay_works L opts" "uo_timeoutMs opts \<noteq> 0" "image_ok img"
    and "length message = OTA_MESSAGE_SIZE_MAX" "\<not> oo_dryRun opts"
  shows "\<exists>s'. broadcastImage L opts img message s = Some (True, s') \<and>
    out_transfers (us_calls s') = out_transfers (us_calls s) @
      sched 1 (broadcast_messages (oo_imageType opts) (im_data img)) \<and>
    complete_transfers (us_calls s') = complete_transfers (us_calls s) @
      sched 1 (broadcast_messages (oo_imageType opts) (im_data img))"
proof -
  have a: "length message = 230" using assms(4) by (simp add: OTA_MESSAGE_SIZE_MAX_def)
  obtain s' where b: "broadcastImage L opts img message s = Some (True, s')"
    using broadcastImage_works [OF assms(1)] by metis
  from broadcastImage_sent [OF assms(2,3) a, of L s] b assms(5)
  have "sent_prefix s s' (sched 1 (broadcast_messages (oo_imageType opts) (im_data img))) True" by auto
  from sent_prefix_all [OF this] show ?thesis using b by blast
qed

theorem broadcast_completes_witness:
  "\<exists>s'. broadcastImage echo_libusb default_options (good_image [1, 2, 3]) (replicate 230 0)
     \<lparr>us_world = (), us_calls = []\<rparr> = Some (True, s') \<and>
     out_transfers (us_calls s') = sched 1 (broadcast_messages OTA_IMAGE_FIRMWARE [1, 2, 3]) \<and>
     complete_transfers (us_calls s') = sched 1 (broadcast_messages OTA_IMAGE_FIRMWARE [1, 2, 3])"
  using broadcast_completes [OF echo_works, of default_options "good_image [1, 2, 3]" "replicate 230 0"
      "\<lparr>us_world = (), us_calls = []\<rparr>"]
  by (auto simp: default_options_def good_image_def image_ok_def FIRMWARE_IMAGE_SIZE_MAX_def OTA_MESSAGE_SIZE_MAX_def
      out_transfers_def complete_transfers_def)

end
