(* ===== verification/Ground_Ota.thy ===== *)
theory Ground_Ota
  imports Ota_Relay
begin

unbundle bit_operations_syntax

text \<open>
  The program \<open>ground_ota\<close> around the broadcast: its options, the image file, the prompts and
  \<open>main\<close> with its cleanup. Usage texts and messages are left out; a path is prompted for and
  the receivers are confirmed on the characters of the standard input.
\<close>

section \<open>Options\<close>

definition ota_defaults :: OtaOptions where
  "ota_defaults = \<lparr>uo_vid = 0x0483, uo_pid = 0x5740, uo_deviceIndex = 0, uo_busNumber = -1,
     uo_deviceAddress = -1, uo_interfaceNumber = 0, uo_endpointIn = 0x81, uo_endpointOut = 0x01,
     uo_timeoutMs = 1000, oo_imageType = OTA_IMAGE_FIRMWARE, oo_filePath = None,
     oo_listDevices = False, oo_assumeYes = False, oo_dryRun = False, oo_verbose = False,
     oo_selfTestOnly = False, oo_waitForLocalAck = True\<rparr>"

definition parseImageType :: "string \<Rightarrow> u8 option" where
  "parseImageType text =
     (if text = ''firmware'' \<or> text = ''fw'' \<or> text = ''1'' then Some OTA_IMAGE_FIRMWARE
      else if text = ''bootloader'' \<or> text = ''bl'' \<or> text = ''0'' then Some OTA_IMAGE_BOOTLOADER
      else None)"

text \<open>\<open>takeOptionValue\<close>: the next argument, and the arguments after it.\<close>

definition takeOptionValue :: "string list \<Rightarrow> (string \<times> string list) option" where
  "takeOptionValue rest = (case rest of [] \<Rightarrow> None | v # rest' \<Rightarrow> Some (v, rest'))"

text \<open>
  The options of the USB session, which both programs read with the same text: \<open>None\<close> when the
  argument is none of them, else the result \<open>false\<close> or the new options with the arguments left.
\<close>

definition session_option ::
    "string \<Rightarrow> string list \<Rightarrow> 'a UsbOptions_scheme \<Rightarrow> ('a UsbOptions_scheme \<times> string list) option option" where
  "session_option a rest opts =
     (let number = (\<lambda>maximum set. do {
            (v, rest') \<leftarrow> takeOptionValue rest;
            parsed \<leftarrow> parseUnsigned v maximum;
            Some (set parsed, rest')
          })
      in if a = ''--device'' then
           Some (do {
             (v, rest') \<leftarrow> takeOptionValue rest;
             if strchr v CHR '':'' \<noteq> None then do {
               (bus, address) \<leftarrow> parseBusAddress v;
               Some (opts\<lparr>uo_busNumber := bus, uo_deviceAddress := address\<rparr>, rest')
             }
             else do {
               parsed \<leftarrow> parseUnsigned v 0xFFFFFFFF;
               Some (opts\<lparr>uo_deviceIndex := of_nat parsed\<rparr>, rest')
             }
           })
         else if a = ''--vid'' then Some (number 0xFFFF (\<lambda>p. opts\<lparr>uo_vid := of_nat p\<rparr>))
         else if a = ''--pid'' then Some (number 0xFFFF (\<lambda>p. opts\<lparr>uo_pid := of_nat p\<rparr>))
         else if a = ''--interface'' then Some (number 0x7FFFFFFF (\<lambda>p. opts\<lparr>uo_interfaceNumber := int p\<rparr>))
         else if a = ''--endpoint-in'' then Some (number 0xFF (\<lambda>p. opts\<lparr>uo_endpointIn := of_nat p\<rparr>))
         else if a = ''--endpoint-out'' then Some (number 0xFF (\<lambda>p. opts\<lparr>uo_endpointOut := of_nat p\<rparr>))
         else if a = ''--timeout-ms'' then
           Some (do {
             (v, rest') \<leftarrow> takeOptionValue rest;
             parsed \<leftarrow> parseUnsigned v 0xFFFFFFFF;
             if parsed = 0 then None else Some (opts\<lparr>uo_timeoutMs := of_nat parsed\<rparr>, rest')
           })
         else None)"

definition ota_option :: "string \<Rightarrow> string list \<Rightarrow> OtaOptions \<Rightarrow> (OtaOptions \<times> string list) option" where
  "ota_option a rest opts =
     (if a = ''--file'' then do {
        (v, rest') \<leftarrow> takeOptionValue rest;
        Some (opts\<lparr>oo_filePath := Some v\<rparr>, rest')
      }
      else if a = ''--image-type'' then do {
        (v, rest') \<leftarrow> takeOptionValue rest;
        t \<leftarrow> parseImageType v;
        Some (opts\<lparr>oo_imageType := t\<rparr>, rest')
      }
      else case session_option a rest opts of
        Some r \<Rightarrow> r
      | None \<Rightarrow>
          if a = ''--list-devices'' then Some (opts\<lparr>oo_listDevices := True\<rparr>, rest)
          else if a = ''--yes'' then Some (opts\<lparr>oo_assumeYes := True\<rparr>, rest)
          else if a = ''--no-local-ack'' then Some (opts\<lparr>oo_waitForLocalAck := False\<rparr>, rest)
          else if a = ''--verbose'' then Some (opts\<lparr>oo_verbose := True\<rparr>, rest)
          else if a = ''--dry-run'' then Some (opts\<lparr>oo_dryRun := True\<rparr>, rest)
          else if a = ''--self-test'' then Some (opts\<lparr>oo_selfTestOnly := True\<rparr>, rest)
          else None)"

lemma session_option_shorter:
  "session_option a rest opts = Some (Some (o', r)) \<Longrightarrow> length r \<le> length rest"
  by (auto simp: session_option_def takeOptionValue_def Let_def bind_eq_Some_conv
      split: if_splits list.splits)

lemma ota_option_shorter: "ota_option a rest opts = Some (o', r) \<Longrightarrow> length r \<le> length rest"
  by (auto simp: ota_option_def takeOptionValue_def bind_eq_Some_conv
      split: if_splits list.splits option.splits dest: session_option_shorter)

definition endpoints_valid :: "'a UsbOptions_scheme \<Rightarrow> bool" where
  "endpoints_valid opts \<longleftrightarrow> \<not> (uo_endpointIn opts AND 0x80 \<noteq> 0x80 \<or> uo_endpointOut opts AND 0x80 \<noteq> 0x00)"

text \<open>The loop over the arguments after the program's name, then the check of the directions.\<close>

function ota_parse :: "string list \<Rightarrow> OtaOptions \<Rightarrow> OtaOptions parse_result" where
  "ota_parse [] opts = (if endpoints_valid opts then Parsed opts else Parse_Failed)"
| "ota_parse (a # rest) opts =
     (if a = ''--help'' \<or> a = ''-h'' then Parse_Help
      else case ota_option a rest opts of
        None \<Rightarrow> Parse_Failed
      | Some (opts', rest') \<Rightarrow> ota_parse rest' opts')"
  by pat_completeness auto
termination
  by (relation "measure (\<lambda>(args, opts). length args)") (auto dest: ota_option_shorter)

definition ota_parseOptions :: "string list \<Rightarrow> OtaOptions parse_result" where
  "ota_parseOptions args = ota_parse args ota_defaults"

section \<open>The image file and the prompts\<close>

text \<open>A file that was opened; \<open>bi_malloc\<close> says whether its buffer can be allocated.\<close>

record bin_file =
  bi_data :: bytes
  bi_seek_end :: bool
  bi_tell :: int
  bi_seek_set :: bool
  bi_malloc :: bool

definition readImage :: "bin_file option \<Rightarrow> Image option" where
  "readImage opened =
     (case opened of
        None \<Rightarrow> None
      | Some file \<Rightarrow>
          if \<not> bi_seek_end file then None
          else if bi_tell file \<le> 0 then None
          else if int FIRMWARE_IMAGE_SIZE_MAX < bi_tell file then None
          else if \<not> bi_seek_set file then None
          else if \<not> bi_malloc file then None
          else
            let d = take (nat (bi_tell file)) (bi_data file)
            in if length d \<noteq> nat (bi_tell file) then None
               else Some \<lparr>im_data = d, im_size = word_of_int (bi_tell file),
                          im_crc32 = crc32IsoHdlc (take (unat (word_of_int (bi_tell file) :: u32)) d)\<rparr>)"

text \<open>
  On Windows, \<open>win32\<close>, a path \<open>/c/...\<close> as the MSYS shell writes it becomes \<open>C:/...\<close>. The terminating NUL is no
  letter and no slash.
\<close>

definition letter :: "char \<Rightarrow> bool" where
  "letter c \<longleftrightarrow> ascii (tolower c) \<in> {97..122}"

definition toupper :: "char \<Rightarrow> char" where
  "toupper c = (if 97 \<le> ascii c \<and> ascii c \<le> 122 then char_of (ascii c - 32) else c)"

definition normalizeInteractiveMsysPath :: "bool \<Rightarrow> string \<Rightarrow> string" where
  "normalizeInteractiveMsysPath win32 path =
     (if win32 \<and> 2 < length path \<and> path ! 0 = CHR ''/'' \<and> letter (path ! 1) \<and> path ! 2 = CHR ''/''
      then path[0 := toupper (path ! 1), 1 := CHR '':''] else path)"

definition promptForPath :: "bool \<Rightarrow> string \<Rightarrow> (string \<times> string) option" where
  "promptForPath win32 input =
     (case fgets 4096 input of
        None \<Rightarrow> None
      | Some (line, input) \<Rightarrow>
          let trimmed = trimInput line
          in if trimmed = [] then None else Some (normalizeInteractiveMsysPath win32 trimmed, input))"

lemma normalize_msys_path:
  "letter d \<Longrightarrow> normalizeInteractiveMsysPath True (CHR ''/'' # d # CHR ''/'' # rest) = toupper d # CHR '':'' # CHR ''/'' # rest"
  by (simp add: normalizeInteractiveMsysPath_def)

lemma normalize_msys_path_again:
  "normalizeInteractiveMsysPath w (normalizeInteractiveMsysPath w path) = normalizeInteractiveMsysPath w path"
proof -
  have "\<not> letter CHR '':''" by (simp add: letter_def tolower_def)
  then show ?thesis by (simp add: normalizeInteractiveMsysPath_def)
qed

lemma length_normalize_msys_path [simp]: "length (normalizeInteractiveMsysPath w path) = length path"
  by (simp add: normalizeInteractiveMsysPath_def)

definition confirmReceiverReady :: "string \<Rightarrow> bool \<times> string" where
  "confirmReceiverReady input =
     (case fgets 32 input of
        None \<Rightarrow> (False, input)
      | Some (line, input) \<Rightarrow>
          let answer = trimInput line in (answer = ''YES'' \<or> answer = ''yes'', input))"

section \<open>main\<close>

text \<open>
  The world of the program beside USB: whether it is Windows, the standard input, the files, and the contents of its
  two uninitialised arrays.
\<close>

record ota_env =
  en_win32 :: bool
  en_stdin :: string
  en_files :: "string \<Rightarrow> bin_file option"
  en_actual :: bytes
  en_message :: bytes

text \<open>
  From opening the device to the cleanup.
\<close>

definition ota_transmit ::
    "'w libusb \<Rightarrow> OtaOptions \<Rightarrow> Image \<Rightarrow> bytes \<Rightarrow> 'w usb \<Rightarrow> (int \<times> 'w usb) option" where
  "ota_transmit L opts img message s =
     (if oo_dryRun opts then do {
        (ok, s) \<leftarrow> broadcastImage L opts img message s;
        Some (if ok then 0 else 1, session_cleanup L opts False False False s)
      }
      else with_device L opts (\<lambda>s. do {
        (ok, s) \<leftarrow> broadcastImage L opts img message s;
        Some (if ok then 0 else 1, s)
      }) s)"

definition ota_main :: "'w libusb \<Rightarrow> ota_env \<Rightarrow> string list \<Rightarrow> 'w usb \<Rightarrow> (int \<times> 'w usb) option" where
  "ota_main L env args s =
     (case ota_parseOptions args of
        Parse_Help \<Rightarrow> Some (0, s)
      | Parse_Failed \<Rightarrow> Some (1, s)
      | Parsed opts \<Rightarrow>
          if \<not> runSelfTests (en_actual env) then Some (1, s)
          else if oo_selfTestOnly opts then Some (0, s)
          else if oo_listDevices opts then
            Some (list_devices_run L opts s)
          else case (case oo_filePath opts of
                       Some path \<Rightarrow> Some (path, en_stdin env)
                     | None \<Rightarrow> promptForPath (en_win32 env) (en_stdin env)) of
            None \<Rightarrow> Some (1, s)
          | Some (path, input) \<Rightarrow>
              (case readImage (en_files env path) of
                 None \<Rightarrow> Some (1, session_cleanup L opts False False False s)
               | Some img \<Rightarrow>
                   if \<not> oo_assumeYes opts \<and> \<not> oo_dryRun opts \<and> \<not> fst (confirmReceiverReady input)
                   then Some (1, session_cleanup L opts False False False s)
                   else ota_transmit L opts img (en_message env) s))"

section \<open>Facts\<close>

lemma readImage_ok:
  assumes "readImage opened = Some img"
  shows "image_ok img"
proof -
  from assms obtain f where f: "opened = Some f" "0 < bi_tell f"
    "bi_tell f \<le> int FIRMWARE_IMAGE_SIZE_MAX"
    "length (take (nat (bi_tell f)) (bi_data f)) = nat (bi_tell f)"
    and img: "img = \<lparr>im_data = take (nat (bi_tell f)) (bi_data f), im_size = word_of_int (bi_tell f),
      im_crc32 = crc32IsoHdlc (take (unat (word_of_int (bi_tell f) :: u32)) (take (nat (bi_tell f)) (bi_data f)))\<rparr>"
    by (auto simp: readImage_def Let_def split: option.splits if_splits)
  have w: "(word_of_int (bi_tell f) :: u32) = of_nat (nat (bi_tell f))" using f(2) by simp
  have "unat (of_nat (nat (bi_tell f)) :: u32) = nat (bi_tell f)"
    using f(2,3) by (intro unat_of_nat_u32) (simp add: FIRMWARE_IMAGE_SIZE_MAX_def)
  then show ?thesis using f(2-4) unfolding img w
    by (simp add: image_ok_def FIRMWARE_IMAGE_SIZE_MAX_def min_absorb2 del: of_nat_nat)
qed

definition options_valid :: "'a UsbOptions_scheme \<Rightarrow> bool" where
  "options_valid opts \<longleftrightarrow> uo_timeoutMs opts \<noteq> 0 \<and> endpoints_valid opts"

lemma session_option_timeout:
  assumes "session_option a rest opts = Some (Some (o', r))" "uo_timeoutMs opts \<noteq> 0"
  shows "uo_timeoutMs o' \<noteq> 0"
proof -
  have "(of_nat p :: u32) \<noteq> 0" if "parseUnsigned v 0xFFFFFFFF = Some p" "p \<noteq> 0" for v p
  proof -
    have "unat (of_nat p :: u32) = p" using parseUnsigned_le [OF that(1)] by (intro unat_of_nat_u32) simp
    with that(2) show ?thesis by (metis unsigned_0)
  qed
  with assms show ?thesis
    by (auto simp: session_option_def Let_def bind_eq_Some_conv split: if_splits)
qed

lemma ota_option_timeout:
  assumes "ota_option a rest opts = Some (o', r)" "uo_timeoutMs opts \<noteq> 0"
  shows "uo_timeoutMs o' \<noteq> 0"
  using assms
  by (auto simp: ota_option_def bind_eq_Some_conv split: if_splits option.splits
      dest: session_option_timeout)

lemma ota_parse_valid: "ota_parse args opts = Parsed o' \<Longrightarrow> uo_timeoutMs opts \<noteq> 0 \<Longrightarrow> options_valid o'"
proof (induction args opts rule: ota_parse.induct)
  case (2 a rest opts)
  then show ?case using ota_option_timeout by (auto split: if_splits option.splits prod.splits)
qed (auto simp: options_valid_def split: if_splits)

lemma ota_parseOptions_valid: "ota_parseOptions args = Parsed o' \<Longrightarrow> options_valid o'"
  by (auto simp: ota_parseOptions_def ota_defaults_def intro: ota_parse_valid)

lemma session_option_type:
  "session_option a rest (opts :: OtaOptions) = Some (Some (o', r)) \<Longrightarrow> oo_imageType o' = oo_imageType opts"
  by (auto simp: session_option_def Let_def bind_eq_Some_conv split: if_splits)

lemma parseImageType_range: "parseImageType t = Some v \<Longrightarrow> v = OTA_IMAGE_FIRMWARE \<or> v = OTA_IMAGE_BOOTLOADER"
  by (simp add: parseImageType_def split: if_splits)

lemma ota_option_type:
  assumes "ota_option a rest opts = Some (o', r)" "oo_imageType opts \<in> {OTA_IMAGE_FIRMWARE, OTA_IMAGE_BOOTLOADER}"
  shows "oo_imageType o' \<in> {OTA_IMAGE_FIRMWARE, OTA_IMAGE_BOOTLOADER}"
proof (cases "session_option a rest opts")
  case None
  have "oo_imageType o' = oo_imageType opts \<or> (\<exists>t. parseImageType t = Some (oo_imageType o'))"
    using assms(1) None by (auto simp: ota_option_def bind_eq_Some_conv split: if_splits)
  then show ?thesis using parseImageType_range assms(2) by auto
next
  case (Some x)
  have "oo_imageType o' = oo_imageType opts \<or> (\<exists>t. parseImageType t = Some (oo_imageType o')) \<or> x = Some (o', r)"
    using assms(1) Some by (auto simp: ota_option_def bind_eq_Some_conv split: if_splits)
  then show ?thesis using parseImageType_range assms(2) session_option_type [of a rest opts o' r] Some by auto
qed

lemma ota_parse_type:
  "ota_parse args opts = Parsed o' \<Longrightarrow> oo_imageType opts \<in> {OTA_IMAGE_FIRMWARE, OTA_IMAGE_BOOTLOADER} \<Longrightarrow>
   oo_imageType o' \<in> {OTA_IMAGE_FIRMWARE, OTA_IMAGE_BOOTLOADER}"
proof (induction args opts rule: ota_parse.induct)
  case (2 a rest opts)
  from "2.prems"(1) obtain o2 r2 where "\<not> (a = ''--help'' \<or> a = ''-h'')"
    "ota_option a rest opts = Some (o2, r2)" "ota_parse r2 o2 = Parsed o'"
    by (auto split: if_splits option.splits)
  then show ?case using "2.IH" ota_option_type "2.prems"(2) by metis
qed (auto split: if_splits)

lemma ota_parseOptions_type:
  "ota_parseOptions args = Parsed o' \<Longrightarrow> oo_imageType o' \<in> {OTA_IMAGE_FIRMWARE, OTA_IMAGE_BOOTLOADER}"
  by (auto simp: ota_parseOptions_def dest: ota_parse_type simp: ota_defaults_def)

text \<open>
  From the image to the end of the program: it returns, holds nothing it did not hold before, and
  reports success only when the whole schedule was sent.
\<close>

lemma ota_transmit_facts:
  assumes "uo_timeoutMs opts \<noteq> 0" "image_ok img" "length message = OTA_MESSAGE_SIZE_MAX" "few_devices L"
  obtains r s' where "ota_transmit L opts img message s = Some (r, s')" "r = 0 \<or> r = 1"
    "held (us_calls s') = held (us_calls s)"
    "\<not> oo_dryRun opts \<Longrightarrow> r = 0 \<Longrightarrow>
       sent_prefix s s' (sched 1 (broadcast_messages (oo_imageType opts) (im_data img))) True"
proof -
  have len: "length message = 230" using assms(3) by (simp add: OTA_MESSAGE_SIZE_MAX_def)
  note broadcast = broadcastImage_sent [OF assms(1,2) len, of L]
  show thesis
  proof (cases "oo_dryRun opts")
    case True
    obtain s1 where "broadcastImage L opts img message s = Some (True, s1)" "s1 = s"
      using broadcast [of s] True by metis
    then show thesis using that True by (simp add: ota_transmit_def)
  next
    case wet: False
    let ?all = "sched 1 (broadcast_messages (oo_imageType opts) (im_data img))"
    let ?body = "\<lambda>s. do {
      (ok, s) \<leftarrow> broadcastImage L opts img message s;
      Some (if ok then 0 else (1 :: int), s)
    }"
    have body: "\<exists>ok t'. ?body t = Some (if ok then 0 else 1, t') \<and> sent_prefix t t' ?all ok" for t
    proof -
      obtain ok t' where "broadcastImage L opts img message t = Some (ok, t')" "sent_prefix t t' ?all ok"
        using broadcast [of t] wet by metis
      then show ?thesis by (intro exI [of _ ok] exI [of _ t'] conjI) simp_all
    qed
    have returns: "\<exists>r t'. ?body t = Some (r, t') \<and> held (us_calls t') = held (us_calls t)" for t
      using body [of t] unfolding sent_prefix_def by blast
    show thesis
    proof (rule with_device_cases [where opts = opts and s = s, OF assms(4) returns])
      fix s' assume "with_device L opts ?body s = Some (1, s')" "us_silent s s'"
      then show thesis using that wet by (simp add: ota_transmit_def us_silent_def)
    next
      fix t r t' s'
      assume *: "bulk_outs (us_calls t) = bulk_outs (us_calls s)" "?body t = Some (r, t')"
        "with_device L opts ?body s = Some (r, s')" "held (us_calls s') = held (us_calls s)"
        "bulk_outs (us_calls s') = bulk_outs (us_calls t')"
      obtain ok where ok: "r = (if ok then 0 else 1)" "sent_prefix t t' ?all ok"
        using body [of t] *(2) by auto
      have "ota_transmit L opts img message s = Some (r, s')" using wet *(3) by (simp add: ota_transmit_def)
      moreover have "sent_prefix s s' ?all ok" using ok(2) *(1,4,5) by (simp add: sent_prefix_def)
      ultimately show thesis using ok(1) *(4) that [of r s'] by (cases ok) auto
    qed
  qed
qed

lemma ota_main_facts:
  assumes "few_devices L" "length (en_message env) = OTA_MESSAGE_SIZE_MAX"
  obtains r s' where "ota_main L env args s = Some (r, s')" "r = 0 \<or> r = 1"
    "held (us_calls s') = held (us_calls s)"
proof (cases "ota_parseOptions args")
  case (Parsed opts)
  note timeout = ota_parseOptions_valid [OF Parsed, unfolded options_valid_def, THEN conjunct1]
  consider (early) "\<not> runSelfTests (en_actual env) \<or> oo_selfTestOnly opts"
    | (listing) "runSelfTests (en_actual env)" "\<not> oo_selfTestOnly opts" "oo_listDevices opts"
    | (transmit) "runSelfTests (en_actual env)" "\<not> oo_selfTestOnly opts" "\<not> oo_listDevices opts"
    by blast
  then show thesis
  proof cases
    case early
    then show thesis using that [of 1 s] that [of 0 s] Parsed
      by (cases "runSelfTests (en_actual env)") (simp_all add: ota_main_def)
  next
    case listing
    obtain r s' where b: "list_devices_run L opts s = (r, s')" by (cases "list_devices_run L opts s") auto
    then have "ota_main L env args s = Some (r, s')"
      unfolding ota_main_def Parsed parse_result.case using listing by (simp only: simp_thms if_True if_False)
    then show thesis using that list_devices_run_facts [OF b] by (simp add: us_silent_def)
  next
    case transmit
    define p where "p = (case oo_filePath opts of Some path \<Rightarrow> Some (path, en_stdin env)
      | None \<Rightarrow> promptForPath (en_win32 env) (en_stdin env))"
    note main = ota_main_def [of L env args s, unfolded Parsed parse_result.case, folded p_def]
    show thesis
    proof (cases p)
      case None
      then show thesis using that transmit main by simp
    next
      case (Some a)
      obtain path input where a: "a = (path, input)" by (cases a)
      show thesis
      proof (cases "readImage (en_files env path)")
        case None
        then show thesis using that transmit main Some a by simp
      next
        case img: (Some img)
        from ota_transmit_facts [OF timeout readImage_ok [OF img] assms(2,1), of s] obtain r s' where
          "ota_transmit L opts img (en_message env) s = Some (r, s')" "r = 0 \<or> r = 1"
          "held (us_calls s') = held (us_calls s)" by metis
        then show thesis using that transmit main Some a img
          by (cases "\<not> oo_assumeYes opts \<and> \<not> oo_dryRun opts \<and> \<not> fst (confirmReceiverReady input)") simp_all
      qed
    qed
  qed
qed (use that in \<open>simp_all add: ota_main_def\<close>)

section \<open>Properties\<close>

text \<open>
  The options that the program accepts are usable: the timeout is not zero, the endpoints
  have the direction their transfers need, and the image type is one of the two of the protocol.
\<close>
lemma ota_options_valid:
  assumes "ota_parseOptions args = Parsed opts"
  shows "uo_timeoutMs opts \<noteq> 0 \<and> bit (uo_endpointIn opts) 7 \<and> \<not> bit (uo_endpointOut opts) 7 \<and>
    oo_imageType opts \<in> {OTA_IMAGE_FIRMWARE, OTA_IMAGE_BOOTLOADER}"
  using ota_parseOptions_valid [OF assms] ota_parseOptions_type [OF assms]
  by (simp add: options_valid_def endpoints_valid_def endpoint_direction split: if_splits)

text \<open>
  C24. The program returns with exit code 0 or 1, whatever the USB library answers, whatever is
  typed and whatever the files hold, and every context, device list, handle and interface that it
  acquired has been released.
\<close>
theorem ota_main_releases:
  assumes "few_devices L" "length (en_message env) = OTA_MESSAGE_SIZE_MAX"
  shows "\<exists>r s'. ota_main L env args s = Some (r, s') \<and> (r = 0 \<or> r = 1) \<and>
    held (us_calls s') = held (us_calls s)"
  using ota_main_facts [OF assms] by metis


text \<open>A run with an image file of three bytes over the relay that accepts everything.\<close>

definition demo_env :: ota_env where
  "demo_env = \<lparr>en_win32 = False, en_stdin = [], en_files = (\<lambda>path. if path = ''fw.bin''
     then Some \<lparr>bi_data = [1, 2, 3], bi_seek_end = True, bi_tell = 3, bi_seek_set = True, bi_malloc = True\<rparr> else None),
     en_actual = replicate 14 0, en_message = replicate 230 0\<rparr>"

definition demo_args :: "string list" where
  "demo_args = [''--yes'', ''--file'', ''fw.bin'']"

lemma demo_parse:
  "ota_parseOptions demo_args = Parsed (ota_defaults\<lparr>oo_assumeYes := True, oo_filePath := Some ''fw.bin''\<rparr>)"
  by (simp add: demo_args_def ota_parseOptions_def ota_option_def session_option_def takeOptionValue_def
      endpoints_valid_def ota_defaults_def)

lemma few_devices_echo: "few_devices echo_libusb"
  by (simp add: few_devices_def echo_libusb_def)

lemma ota_options_valid_example:
  "bit (uo_endpointIn (ota_defaults\<lparr>oo_assumeYes := True, oo_filePath := Some ''fw.bin''\<rparr>)) 7"
  using ota_options_valid [OF demo_parse] by blast

theorem ota_main_releases_witness:
  "\<exists>r s'. ota_main echo_libusb demo_env demo_args \<lparr>us_world = (), us_calls = []\<rparr> = Some (r, s') \<and>
     held (us_calls s') = (0, 0, 0, 0)"
  using ota_main_releases [OF few_devices_echo, of demo_env demo_args "\<lparr>us_world = (), us_calls = []\<rparr>"]
  by (auto simp: demo_env_def OTA_MESSAGE_SIZE_MAX_def)



end
