(* ===== verification/Ground_Admin.thy ===== *)
theory Ground_Admin
  imports Ground_Ota
begin

text \<open>
  The program \<open>ground_admin\<close>, \<open>ground_admin.c\<close>: a console whose commands are sent as ADMIN
  frames through the relay, each as an 18-byte metadata transfer and a 4-byte payload transfer
  under a 16-bit sequence number. Help texts and messages are left out; the console is the text
  of the standard input.
\<close>

section \<open>The code\<close>

definition SNIFFER_DOWNLINK_MAGIC :: u32 where "SNIFFER_DOWNLINK_MAGIC = 0x0000CCCC"
definition DOWNLINK_META_SIZE :: nat where "DOWNLINK_META_SIZE = 18"
definition ADMIN_HEADER_SIZE :: nat where "ADMIN_HEADER_SIZE = 4"

datatype BeeEvent =
    BEE_EVENT_ARM | BEE_EVENT_DISARM | BEE_EVENT_TAKEOFF | BEE_EVENT_START | BEE_EVENT_HOVER
  | BEE_EVENT_LAND | BEE_EVENT_REBOOT | BEE_EVENT_OTA | BEE_EVENT_TIMEOUT

primrec bee_event_value :: "BeeEvent \<Rightarrow> u16" where
  "bee_event_value BEE_EVENT_ARM = 0"
| "bee_event_value BEE_EVENT_DISARM = 1"
| "bee_event_value BEE_EVENT_TAKEOFF = 3"
| "bee_event_value BEE_EVENT_START = 4"
| "bee_event_value BEE_EVENT_HOVER = 5"
| "bee_event_value BEE_EVENT_LAND = 6"
| "bee_event_value BEE_EVENT_REBOOT = 7"
| "bee_event_value BEE_EVENT_OTA = 8"
| "bee_event_value BEE_EVENT_TIMEOUT = 9"

type_synonym CommandEntry = "string \<times> BeeEvent"

definition commandTable :: "CommandEntry list" where
  "commandTable =
    [(''arm'', BEE_EVENT_ARM), (''disarm'', BEE_EVENT_DISARM), (''takeoff'', BEE_EVENT_TAKEOFF),
     (''start'', BEE_EVENT_START), (''hover'', BEE_EVENT_HOVER), (''land'', BEE_EVENT_LAND),
     (''reboot'', BEE_EVENT_REBOOT), (''ota'', BEE_EVENT_OTA), (''timeout'', BEE_EVENT_TIMEOUT)]"

record AdminOptions = UsbOptions +
  ao_listDevices :: bool
  ao_waitForAck :: bool
  ao_verbose :: bool
  ao_dryRun :: bool
  ao_oneShotCommand :: "string option"

text \<open>
  The functions that this program has in the same form as \<open>ground_ota\<close>.
\<close>

definition admin_openCrazyflie :: "'w libusb \<Rightarrow> AdminOptions \<Rightarrow> 'w usb \<Rightarrow> bool \<times> 'w usb" where
  "admin_openCrazyflie = openCrazyflie"

definition admin_listCrazyflies :: "'w libusb \<Rightarrow> AdminOptions \<Rightarrow> 'w usb \<Rightarrow> int \<times> string \<times> 'w usb" where
  "admin_listCrazyflies = listCrazyflies"

definition admin_prepareUsbInterface :: "'w libusb \<Rightarrow> AdminOptions \<Rightarrow> 'w usb \<Rightarrow> bool \<times> 'w usb" where
  "admin_prepareUsbInterface = prepareUsbInterface"

definition admin_restoreUsbInterface :: "'w libusb \<Rightarrow> AdminOptions \<Rightarrow> bool \<Rightarrow> 'w usb \<Rightarrow> 'w usb" where
  "admin_restoreUsbInterface = restoreUsbInterface"

definition admin_bulkWriteExact :: "'w libusb \<Rightarrow> AdminOptions \<Rightarrow> bytes \<Rightarrow> 'w usb \<Rightarrow> bool \<times> 'w usb" where
  "admin_bulkWriteExact = bulkWriteExact"

text \<open>One poll of the wait for the acknowledgement of the relay, by the time that has elapsed.\<close>

definition snifferAck :: bytes where "snifferAck = [0xAC, 0xC0, 0x00, 0x01]"
definition ACK_WAIT_TIMEOUT_MS :: nat where "ACK_WAIT_TIMEOUT_MS = 1500"

definition admin_wait_body :: "'w libusb \<Rightarrow> AdminOptions \<Rightarrow> nat \<times> 'w usb \<Rightarrow> (bool \<times> 'w usb) + (nat \<times> 'w usb)" where
  "admin_wait_body L opts = (\<lambda>(elapsed, s).
     if ACK_WAIT_TIMEOUT_MS \<le> elapsed then Inl (False, s)
     else
       let pollTimeout = 100;
           remaining = ACK_WAIT_TIMEOUT_MS - elapsed;
           timeout = min (unat (uo_timeoutMs opts)) pollTimeout;
           timeout = min timeout remaining
       in case usb_bulk_in L (uo_endpointIn opts) CF_USB_PACKET_SIZE timeout s of (result, received, s) \<Rightarrow>
         if result = LIBUSB_ERROR_TIMEOUT then Inr (elapsed + timeout, s)
         else if result \<noteq> LIBUSB_SUCCESS then Inl (False, s)
         else if length received = length snifferAck \<and> received = snifferAck then Inl (True, s)
         else Inr (elapsed + timeout, s))"

definition waitForSnifferAck :: "'w libusb \<Rightarrow> AdminOptions \<Rightarrow> 'w usb \<Rightarrow> (bool \<times> 'w usb) option" where
  "waitForSnifferAck L opts s = c_loop (\<lambda>x. Some (admin_wait_body L opts x)) (0, s)"

text \<open>The parsers of the command line and the writers of numbers.\<close>

definition admin_parseUnsigned :: "string \<Rightarrow> nat \<Rightarrow> nat option" where
  "admin_parseUnsigned text maximum =
     (if text = [] \<or> hd text = CHR ''-'' then None
      else case strtoul0 text of (parsed, err, rest) \<Rightarrow>
        if err \<or> rest = text \<or> rest \<noteq> [] \<or> maximum < parsed then None else Some parsed)"

definition admin_parseBusAddress :: "string \<Rightarrow> (int \<times> int) option" where
  "admin_parseBusAddress text =
     (if 64 \<le> length text then None
      else case strchr text CHR '':'' of
        None \<Rightarrow> None
      | Some separator \<Rightarrow>
          if strchr (tl separator) CHR '':'' \<noteq> None then None
          else do {
            parsedBus \<leftarrow> admin_parseUnsigned (take (length text - length separator) text) 255;
            parsedAddress \<leftarrow> admin_parseUnsigned (tl separator) 255;
            Some (int parsedBus, int parsedAddress)
          })"

definition admin_takeOptionValue :: "string list \<Rightarrow> (string \<times> string list) option" where
  "admin_takeOptionValue rest = (if rest = [] then None else Some (hd rest, tl rest))"

definition admin_putU16Le :: "u16 \<Rightarrow> bytes" where
  "admin_putU16Le v = [ucast (v AND 0xFF), ucast (drop_bit 8 v AND 0xFF)]"

definition admin_putU32Le :: "u32 \<Rightarrow> bytes" where
  "admin_putU32Le v = map (\<lambda>shift. ucast (drop_bit shift v AND 0xFF)) [0, 8, 16, 24]"

definition admin_putU64Le :: "u64 \<Rightarrow> bytes" where
  "admin_putU64Le v = map (\<lambda>i. ucast (drop_bit (8 * i) v)) [0..<8]"

lemma waitForSnifferAck_eq: "waitForSnifferAck = waitForLocalTxAck"
proof -
  have "admin_wait_body L opts = wait_body L opts" for L :: "'w libusb" and opts :: AdminOptions
    by (auto simp: admin_wait_body_def wait_body_def fun_eq_iff ACK_WAIT_TIMEOUT_MS_def LOCAL_TX_ACK_TIMEOUT_MS_def
        snifferAck_def localTxAck_def SNIFFER_ACK_SIZE_def Let_def min_def not_le split: prod.split)
  then show ?thesis unfolding waitForSnifferAck_def waitForLocalTxAck_def by metis
qed

lemma admin_parsers [simp]:
  "admin_parseUnsigned = parseUnsigned" "admin_parseBusAddress = parseBusAddress" "admin_takeOptionValue = takeOptionValue"
proof -
  show u: "admin_parseUnsigned = parseUnsigned" by (simp add: fun_eq_iff admin_parseUnsigned_def parseUnsigned_def)
  show "admin_parseBusAddress = parseBusAddress"
    by (simp add: fun_eq_iff admin_parseBusAddress_def parseBusAddress_def u Option.bind_def split: option.split)
  show "admin_takeOptionValue = takeOptionValue"
    by (simp add: fun_eq_iff admin_takeOptionValue_def takeOptionValue_def split: list.split)
qed

lemma admin_writers [simp]: "admin_putU16Le = putU16Le" "admin_putU32Le = putU32Le" "admin_putU64Le = putU64Le"
  by (simp_all add: fun_eq_iff admin_putU16Le_def putU16Le_def admin_putU32Le_def putU32Le_def admin_putU64Le_def putU64Le_def)

text \<open>The options of the USB session, as in \<open>ground_ota\<close> but read with the functions of this file.\<close>

definition admin_session_option :: "string \<Rightarrow> string list \<Rightarrow> AdminOptions \<Rightarrow> (AdminOptions \<times> string list) option option" where
  "admin_session_option a rest opts =
     (let number = (\<lambda>maximum set. do {
            (v, rest') \<leftarrow> admin_takeOptionValue rest;
            parsed \<leftarrow> admin_parseUnsigned v maximum;
            Some (set parsed, rest')
          })
      in if a = ''--device'' then
           Some (do {
             (v, rest') \<leftarrow> admin_takeOptionValue rest;
             if strchr v CHR '':'' \<noteq> None then do {
               (bus, address) \<leftarrow> admin_parseBusAddress v;
               Some (opts\<lparr>uo_busNumber := bus, uo_deviceAddress := address\<rparr>, rest')
             }
             else do {
               parsed \<leftarrow> admin_parseUnsigned v 0xFFFFFFFF;
               Some (opts\<lparr>uo_deviceIndex := of_nat parsed\<rparr>, rest')
             }
           })
         else if a = ''--vid'' then Some (number 0xFFFF (\<lambda>p. opts\<lparr>uo_vid := of_nat p\<rparr>))
         else if a = ''--pid'' then Some (number 0xFFFF (\<lambda>p. opts\<lparr>uo_pid := of_nat p\<rparr>))
         else if a = ''--interface'' then Some (number 0x7FFFFFFF (\<lambda>p. opts\<lparr>uo_interfaceNumber := int p\<rparr>))
         else if a = ''--endpoint-in'' \<or> a = ''--endpoint-out'' then
           Some (number 0xFF (\<lambda>p. if a = ''--endpoint-in'' then opts\<lparr>uo_endpointIn := of_nat p\<rparr>
             else opts\<lparr>uo_endpointOut := of_nat p\<rparr>))
         else if a = ''--timeout-ms'' then
           Some (do {
             (v, rest') \<leftarrow> admin_takeOptionValue rest;
             parsed \<leftarrow> admin_parseUnsigned v 0xFFFFFFFF;
             if parsed = 0 then None else Some (opts\<lparr>uo_timeoutMs := of_nat parsed\<rparr>, rest')
           })
         else None)"

lemma admin_session_option_eq [simp]: "admin_session_option = session_option"
  unfolding admin_session_option_def session_option_def admin_parsers by (simp add: fun_eq_iff Let_def)

definition admin_defaults :: AdminOptions where
  "admin_defaults = \<lparr>uo_vid = 0x0483, uo_pid = 0x5740, uo_deviceIndex = 0, uo_busNumber = -1,
     uo_deviceAddress = -1, uo_interfaceNumber = 0, uo_endpointIn = 0x81, uo_endpointOut = 0x01,
     uo_timeoutMs = 1000, ao_listDevices = False, ao_waitForAck = True, ao_verbose = False,
     ao_dryRun = False, ao_oneShotCommand = None\<rparr>"





definition findCommand :: "string \<Rightarrow> CommandEntry option" where
  "findCommand name = find (\<lambda>entry. name = fst entry) commandTable"

definition admin_metadata :: "u16 \<Rightarrow> bytes" where
  "admin_metadata sequence =
     admin_putU32Le SNIFFER_DOWNLINK_MAGIC @ admin_putU16Le UWB_DEST_ANY @ admin_putU16Le sequence @
     admin_putU16Le (of_nat ADMIN_HEADER_SIZE) @ admin_putU64Le 0"

definition admin_payload :: "BeeEvent \<Rightarrow> bytes" where
  "admin_payload event = admin_putU16Le (bee_event_value event) @ admin_putU16Le 0"

definition sendAdminCommand ::
    "'w libusb \<Rightarrow> AdminOptions \<Rightarrow> u16 \<Rightarrow> CommandEntry \<Rightarrow> 'w usb \<Rightarrow> (bool \<times> 'w usb) option" where
  "sendAdminCommand L opts sequence command s =
     (if ao_dryRun opts then Some (True, s)
      else case admin_bulkWriteExact L opts (admin_metadata sequence) s of (ok, s) \<Rightarrow>
        if \<not> ok then Some (False, s)
        else case admin_bulkWriteExact L opts (admin_payload (snd command)) s of (ok, s) \<Rightarrow>
          if \<not> ok then Some (False, s)
          else if ao_waitForAck opts then do {
            (acked, s) \<leftarrow> waitForSnifferAck L opts s;
            if \<not> acked then Some (False, s) else Some (True, s)
          }
          else Some (True, s))"

text \<open>The exit code, the sequence number and the state.\<close>

definition runOneCommand ::
    "'w libusb \<Rightarrow> AdminOptions \<Rightarrow> u16 \<Rightarrow> string \<Rightarrow> 'w usb \<Rightarrow> (int \<times> u16 \<times> 'w usb) option" where
  "runOneCommand L opts sequence name s =
     (if 64 \<le> length name then Some (1, sequence, s)
      else case findCommand (trimAndLower name) of
        None \<Rightarrow> Some (1, sequence, s)
      | Some command \<Rightarrow> do {
          (ok, s) \<leftarrow> sendAdminCommand L opts sequence command s;
          if \<not> ok then Some (1, sequence, s) else Some (0, sequence + 1, s)
        })"

text \<open>The console loop from the rest of the input and the next sequence number.\<close>

function interactive_loop ::
    "'w libusb \<Rightarrow> AdminOptions \<Rightarrow> string \<Rightarrow> u16 \<Rightarrow> 'w usb \<Rightarrow> (int \<times> 'w usb) option" where
  "interactive_loop L opts input sequence s =
     (case fgets 128 input of
        None \<Rightarrow> Some (0, s)
      | Some (line, input) \<Rightarrow>
          let commandLine = trimAndLower line in
          if commandLine = [] then interactive_loop L opts input sequence s
          else if commandLine = ''quit'' \<or> commandLine = ''exit'' then Some (0, s)
          else if commandLine = ''help'' then interactive_loop L opts input sequence s
          else case findCommand commandLine of
            None \<Rightarrow> interactive_loop L opts input sequence s
          | Some command \<Rightarrow> do {
              (ok, s) \<leftarrow> sendAdminCommand L opts sequence command s;
              interactive_loop L opts input (if ok then sequence + 1 else sequence) s
            })"
  by pat_completeness auto
termination
  by (relation "measure (\<lambda>(L, opts, input, sequence, s). length input)") (auto dest: fgets_progress [rotated])

declare interactive_loop.simps [simp del]

definition runInteractive :: "'w libusb \<Rightarrow> AdminOptions \<Rightarrow> string \<Rightarrow> 'w usb \<Rightarrow> (int \<times> 'w usb) option" where
  "runInteractive L opts input s = interactive_loop L opts input 1 s"




section \<open>Facts\<close>

lemmas admin_same = admin_openCrazyflie_def admin_listCrazyflies_def admin_prepareUsbInterface_def
  admin_restoreUsbInterface_def admin_bulkWriteExact_def waitForSnifferAck_eq



text \<open>One command: a prefix of its two transfers, both when it succeeds.\<close>

abbreviation admin_frame :: "u16 \<Rightarrow> CommandEntry \<Rightarrow> bytes list" where
  "admin_frame sequence command \<equiv> [admin_metadata sequence, admin_payload (snd command)]"

lemma sendAdminCommand_sent:
  assumes "uo_timeoutMs opts \<noteq> 0"
  obtains ok s' where "sendAdminCommand L opts sequence command s = Some (ok, s')"
    "\<not> ao_dryRun opts \<Longrightarrow> sent_prefix s s' (admin_frame sequence command) ok"
    "ao_dryRun opts \<Longrightarrow> ok \<and> s' = s"
proof (cases "ao_dryRun opts")
  case True
  then show thesis using that by (simp add: sendAdminCommand_def)
next
  case False
  obtain ok1 s1 where 1: "bulkWriteExact L opts (admin_metadata sequence) s = (ok1, s1)"
    by (cases "bulkWriteExact L opts (admin_metadata sequence) s") auto
  obtain ok2 s2 where 2: "bulkWriteExact L opts (admin_payload (snd command)) s1 = (ok2, s2)"
    by (cases "bulkWriteExact L opts (admin_payload (snd command)) s1") auto
  obtain ok3 s3 where 3: "waitForLocalTxAck L opts s2 = Some (ok3, s3)" "us_silent s2 s3"
    by (rule waitForLocalTxAck_returns [OF assms])
  note sent1 = bulkWriteExact_sent [OF 1] and sent2 = bulkWriteExact_sent [OF 2]
  have both: "ok1 \<Longrightarrow> sent_prefix s s2 (admin_frame sequence command) ok2"
    using sent_prefix_trans [of s s1 "[admin_metadata sequence]" s2 "[admin_payload (snd command)]" ok2] sent1 sent2
    by simp
  show thesis
  proof (cases "ok1 \<and> ok2")
    case False
    have "sent_prefix s s1 (admin_frame sequence command) False"
      using sent_prefix_fail [OF sent1, of "[admin_payload (snd command)]"] by simp
    then show thesis using that [of False "if ok1 then s2 else s1"] \<open>\<not> ao_dryRun opts\<close> 1 2 False both
      by (cases ok1) (simp_all add: sendAdminCommand_def admin_same)
  next
    case True
    note all = both [OF conjunct1 [OF True]]
    show thesis
    proof (cases "ao_waitForAck opts")
      case w: True
      have "sent_prefix s s3 (admin_frame sequence command) ok3"
        using sent_prefix_weaken [OF sent_prefix_silent [OF _ 3(2), where ok = True]] all True by simp
      then show thesis using that [of ok3 s3] \<open>\<not> ao_dryRun opts\<close> 1 2 3(1) True w
        by (simp add: sendAdminCommand_def admin_same)
    next
      case w: False
      then show thesis using that [of True s2] \<open>\<not> ao_dryRun opts\<close> 1 2 True all
        by (simp add: sendAdminCommand_def admin_same)
    qed
  qed
qed

text \<open>
  What a console text asks for: the lines as \<open>fgets\<close> cuts them, up to \<open>quit\<close> or \<open>exit\<close>, the
  known commands among them.
\<close>

function console_lines :: "string \<Rightarrow> string list" where
  "console_lines input = (case fgets 128 input of None \<Rightarrow> [] | Some (line, input) \<Rightarrow> line # console_lines input)"
  by pat_completeness auto
termination
  by (relation "measure length") (auto dest: fgets_progress [rotated])

declare console_lines.simps [simp del]

definition session_commands :: "string \<Rightarrow> CommandEntry list" where
  "session_commands input = List.map_filter findCommand
     (takeWhile (\<lambda>l. l \<noteq> ''quit'' \<and> l \<noteq> ''exit'') (map trimAndLower (console_lines input)))"

lemma session_commands_step:
  "session_commands input =
     (case fgets 128 input of
        None \<Rightarrow> []
      | Some (line, rest) \<Rightarrow>
          if trimAndLower line = ''quit'' \<or> trimAndLower line = ''exit'' then []
          else case findCommand (trimAndLower line) of
            None \<Rightarrow> session_commands rest
          | Some command \<Rightarrow> command # session_commands rest)"
  by (simp add: session_commands_def console_lines.simps [of input] map_filter_simps
      split: option.splits prod.splits)

lemma findCommand_not [simp]: "findCommand [] = None" "findCommand ''help'' = None"
  "findCommand ''quit'' = None" "findCommand ''exit'' = None"
  by (simp_all add: findCommand_def commandTable_def)

lemma interactive_step:
  "interactive_loop L opts input sequence s =
     (case fgets 128 input of
        None \<Rightarrow> Some (0, s)
      | Some (line, rest) \<Rightarrow>
          if trimAndLower line = ''quit'' \<or> trimAndLower line = ''exit'' then Some (0, s)
          else case findCommand (trimAndLower line) of
            None \<Rightarrow> interactive_loop L opts rest sequence s
          | Some command \<Rightarrow> do {
              (ok, s) \<leftarrow> sendAdminCommand L opts sequence command s;
              interactive_loop L opts rest (if ok then sequence + 1 else sequence) s
            })"
proof (cases "fgets 128 input")
  case (Some a)
  obtain line rest where a: "a = (line, rest)" by (cases a)
  note step = interactive_loop.simps [of L opts input sequence s, unfolded Some option.case a prod.case Let_def]
  consider "trimAndLower line = []" | "trimAndLower line = ''help''"
    | "trimAndLower line \<noteq> []" "trimAndLower line \<noteq> ''help''" by blast
  then show ?thesis unfolding Some a option.case prod.case by cases (simp_all add: step)
qed (simp add: interactive_loop.simps)










text \<open>Over a relay that works every attempt succeeds.\<close>

lemma sendAdminCommand_works:
  assumes "relay_accepts L opts" "ao_waitForAck opts \<Longrightarrow> relay_acknowledges L opts"
  obtains s' where "sendAdminCommand L opts sequence command s = Some (True, s')"
proof -
  obtain s1 where 1: "bulkWriteExact L opts (admin_metadata sequence) s = (True, s1)"
    using bulkWriteExact_works [OF assms(1)] by metis
  obtain s2 where 2: "bulkWriteExact L opts (admin_payload (snd command)) s1 = (True, s2)"
    using bulkWriteExact_works [OF assms(1)] by metis
  show thesis
  proof (cases "ao_waitForAck opts")
    case True
    obtain s3 where "waitForLocalTxAck L opts s2 = Some (True, s3)"
      using waitForLocalTxAck_works [OF assms(2) [OF True]] by metis
    with 1 2 True that show thesis
      by (cases "ao_dryRun opts") (simp_all add: sendAdminCommand_def admin_same)
  next
    case False
    with 1 2 that show thesis by (cases "ao_dryRun opts") (simp_all add: sendAdminCommand_def admin_same)
  qed
qed

fun admin_sched :: "u16 \<Rightarrow> CommandEntry list \<Rightarrow> bytes list" where
  "admin_sched sequence [] = []"
| "admin_sched sequence (command # rest) = admin_frame sequence command @ admin_sched (sequence + 1) rest"

lemma interactive_loop_works:
  assumes "uo_timeoutMs opts \<noteq> 0" "\<not> ao_dryRun opts"
    and "relay_accepts L opts" "ao_waitForAck opts \<Longrightarrow> relay_acknowledges L opts"
  shows "\<exists>s'. interactive_loop L opts input sequence s = Some (0, s') \<and>
    out_transfers (us_calls s') = out_transfers (us_calls s) @ admin_sched sequence (session_commands input) \<and>
    complete_transfers (us_calls s') = complete_transfers (us_calls s) @ admin_sched sequence (session_commands input)"
proof (induction "length input" arbitrary: input sequence s rule: less_induct)
  case less
  show ?case
  proof (cases "fgets 128 input")
    case None
    then show ?thesis by (simp add: interactive_step session_commands_step [of input])
  next
    case (Some a)
    obtain line rest where a: "a = (line, rest)" by (cases a)
    have shorter: "length rest < length input" using Some a fgets_progress [of 128 input line rest] by simp
    note IH = less.hyps [OF shorter]
    let ?c = "trimAndLower line"
    note step = interactive_step [of L opts input sequence s, unfolded Some a option.case prod.case]
    note spec = session_commands_step [of input, unfolded Some a option.case prod.case]
    consider (leave) "?c = ''quit'' \<or> ?c = ''exit''"
      | (skip) "\<not> (?c = ''quit'' \<or> ?c = ''exit'')" "findCommand ?c = None"
      | (run) command where "\<not> (?c = ''quit'' \<or> ?c = ''exit'')" "findCommand ?c = Some command" by blast
    then show ?thesis
    proof cases
      case leave
      then show ?thesis using step spec by simp
    next
      case skip
      then show ?thesis using step spec IH [of sequence s] by simp
    next
      case run
      obtain s1 where w: "sendAdminCommand L opts sequence command s = Some (True, s1)"
        using sendAdminCommand_works [OF assms(3,4)] by metis
      obtain ok s2 where v: "sendAdminCommand L opts sequence command s = Some (ok, s2)"
        "sent_prefix s s2 (admin_frame sequence command) ok"
        using sendAdminCommand_sent [OF assms(1)] assms(2) by metis
      have "sent_prefix s s1 (admin_frame sequence command) True" using v w by simp
      from sent_prefix_all [OF this] show ?thesis using step spec run w IH [of "sequence + 1" s1] by auto
    qed
  qed
qed

lemma command_table_ok:
  "list_all (\<lambda>(name, event). findCommand name = Some (name, event) \<and> name \<noteq> [] \<and>
     list_all (\<lambda>c. \<not> isspace c) name) commandTable"
  by code_simp

section \<open>Properties\<close>

text \<open>
  The two transfers of a command are what the receiver expects: 18 bytes of metadata with the
  ADMIN magic, the broadcast address, the sequence number and the length of the payload, then 4
  bytes that carry the event; different commands carry different events, never the reserved 2.
\<close>
lemma admin_frame_layout:
  "length (admin_metadata sequence) = DOWNLINK_META_SIZE \<and>
   read_le32 (take 4 (admin_metadata sequence)) = SNIFFER_DOWNLINK_MAGIC \<and>
   read_le16 (take 2 (drop 4 (admin_metadata sequence))) = UWB_DEST_ANY \<and>
   read_le16 (take 2 (drop 6 (admin_metadata sequence))) = sequence \<and>
   unat (read_le16 (take 2 (drop 8 (admin_metadata sequence)))) = length (admin_payload event) \<and>
   length (admin_payload event) = ADMIN_HEADER_SIZE \<and>
   read_le16 (take 2 (admin_payload event)) = bee_event_value event \<and>
   inj bee_event_value \<and> bee_event_value event \<noteq> 2"
proof -
  have i: "inj bee_event_value"
  proof (rule injI)
    fix x y assume "bee_event_value x = bee_event_value y"
    then show "x = y" by (cases x; cases y) simp_all
  qed
  have "bee_event_value event \<noteq> 2" by (cases event) simp_all
  then show ?thesis
    by (simp add: i admin_metadata_def admin_payload_def DOWNLINK_META_SIZE_def ADMIN_HEADER_SIZE_def
        SNIFFER_DOWNLINK_MAGIC_def UWB_DEST_ANY_def)
qed

text \<open>
  A command is recognised in any mixture of cases and with any white space around it.
\<close>
lemma admin_command_recognised:
  assumes "(name, event) \<in> set commandTable" "map tolower typed = name"
    and "\<forall>c \<in> set before. isspace c" "\<forall>c \<in> set after. isspace c"
  shows "findCommand (trimAndLower (before @ typed @ after)) = Some (name, event)"
proof -
  have table: "findCommand name = Some (name, event) \<and> name \<noteq> [] \<and> (\<forall>c \<in> set name. \<not> isspace c)"
    using command_table_ok assms(1) by (auto simp: list_all_iff)
  have nsp: "\<not> isspace c" if "c \<in> set typed" for c
  proof -
    have "\<not> isspace (tolower c)" using table that assms(2) by auto
    then show ?thesis by (rule contrapos_nn) (rule isspace_tolower)
  qed
  have "trim_spaces (before @ typed @ after) = typed"
    using nsp table assms(2) by (intro trim_spaces_core assms(3,4)) auto
  then show ?thesis using table assms(2) by (simp add: trimAndLower_def)
qed

lemma admin_command_recognised_example:
  "findCommand (trimAndLower ''  TakeOff '') = Some (''takeoff'', BEE_EVENT_TAKEOFF)"
proof -
  have "map tolower ''TakeOff'' = ''takeoff''" by code_simp
  then show ?thesis
    using admin_command_recognised [of "''takeoff''" BEE_EVENT_TAKEOFF "''TakeOff''" "''  ''" "'' ''"]
    by (simp add: commandTable_def isspace_def)
qed



text \<open>
  C33. Over a relay that accepts every transfer and acknowledges every frame, a console session
  transmits all its commands, in order, under consecutive sequence numbers from 1; every transfer is
  carried out completely.
\<close>
theorem admin_console_delivers:
  assumes "uo_timeoutMs opts \<noteq> 0" "\<not> ao_dryRun opts" "relay_accepts L opts" "relay_acknowledges L opts"
  shows "\<exists>s'. runInteractive L opts input s = Some (0, s') \<and>
    out_transfers (us_calls s') = out_transfers (us_calls s) @ admin_sched 1 (session_commands input) \<and>
    complete_transfers (us_calls s') = complete_transfers (us_calls s) @ admin_sched 1 (session_commands input)"
  unfolding runInteractive_def using interactive_loop_works [OF assms] by blast

theorem admin_console_delivers_witness:
  "\<exists>s'. runInteractive echo_libusb admin_defaults (''arm'' @ nl @ ''land'' @ nl) \<lparr>us_world = (), us_calls = []\<rparr> = Some (0, s') \<and>
     complete_transfers (us_calls s') = [admin_metadata 1, admin_payload BEE_EVENT_ARM, admin_metadata 2, admin_payload BEE_EVENT_LAND]"
proof -
  have c: "session_commands (''arm'' @ nl @ ''land'' @ nl) = [(''arm'', BEE_EVENT_ARM), (''land'', BEE_EVENT_LAND)]"
    by (code_simp)
  have "relay_accepts echo_libusb admin_defaults" "relay_acknowledges echo_libusb admin_defaults"
    by (simp_all add: relay_accepts_def relay_acknowledges_def echo_libusb_def)
  from admin_console_delivers [OF _ _ this, of "''arm'' @ nl @ ''land'' @ nl" "\<lparr>us_world = (), us_calls = []\<rparr>"] c
  show ?thesis by (auto simp: admin_defaults_def)
qed

text \<open>
  C34. A single command that is not in the table, or is too long for the buffer, is refused with
  exit code 1 and without a USB call. Exit code 0 means that its frame was transmitted: the two
  transfers of the frame were made and nothing else was sent, and the library reported both as carried
  out without an error and with all of their bytes.
\<close>
theorem admin_one_shot:
  assumes "uo_timeoutMs opts \<noteq> 0" "\<not> ao_dryRun opts"
  shows "\<exists>r q s'. runOneCommand L opts sequence name s = Some (r, q, s') \<and>
    (64 \<le> length name \<or> findCommand (trimAndLower name) = None \<longrightarrow> r = 1 \<and> q = sequence \<and> s' = s) \<and>
    (r = 0 \<longrightarrow> q = sequence + 1 \<and> (\<exists>command. findCommand (trimAndLower name) = Some command \<and>
       out_transfers (us_calls s') = out_transfers (us_calls s) @ admin_frame sequence command \<and>
       complete_transfers (us_calls s') = complete_transfers (us_calls s) @ admin_frame sequence command))"
proof (cases "64 \<le> length name \<or> findCommand (trimAndLower name) = None")
  case True
  then show ?thesis by (auto simp: runOneCommand_def split: option.splits)
next
  case False
  then obtain command where c: "findCommand (trimAndLower name) = Some command" "length name < 64" by auto
  obtain ok s1 where w: "sendAdminCommand L opts sequence command s = Some (ok, s1)"
    "sent_prefix s s1 (admin_frame sequence command) ok"
    using sendAdminCommand_sent [OF assms(1)] assms(2) by metis
  then show ?thesis using c sent_prefix_all [of s s1 "admin_frame sequence command"]
    by (cases ok) (auto simp: runOneCommand_def)
qed

theorem admin_one_shot_witness:
  "runOneCommand dead_libusb admin_defaults 1 ''fly'' \<lparr>us_world = (), us_calls = []\<rparr> = Some (1, 1, \<lparr>us_world = (), us_calls = []\<rparr>) \<and>
   (\<exists>s'. runOneCommand echo_libusb admin_defaults 1 ''arm'' \<lparr>us_world = (), us_calls = []\<rparr> = Some (0, 2, s') \<and>
      complete_transfers (us_calls s') = [admin_metadata 1, admin_payload BEE_EVENT_ARM])"
proof -
  let ?s = "\<lparr>us_world = (), us_calls = []\<rparr>"
  have o: "uo_timeoutMs admin_defaults \<noteq> 0" "\<not> ao_dryRun admin_defaults" by (simp_all add: admin_defaults_def)
  have c: "findCommand (trimAndLower ''fly'') = None" "findCommand (trimAndLower ''arm'') = Some (''arm'', BEE_EVENT_ARM)"
    by code_simp+
  have "relay_accepts echo_libusb admin_defaults" "relay_acknowledges echo_libusb admin_defaults"
    by (simp_all add: relay_accepts_def relay_acknowledges_def echo_libusb_def)
  then obtain s1 where "sendAdminCommand echo_libusb admin_defaults 1 (''arm'', BEE_EVENT_ARM) ?s = Some (True, s1)"
    using sendAdminCommand_works by metis
  then have run: "runOneCommand echo_libusb admin_defaults 1 ''arm'' ?s = Some (0, 2, s1)"
    using c(2) by (simp add: runOneCommand_def)
  then have "complete_transfers (us_calls s1) = [admin_metadata 1, admin_payload BEE_EVENT_ARM]"
    using admin_one_shot [OF o, of echo_libusb 1 "''arm''" ?s] c(2) by auto
  moreover have "runOneCommand dead_libusb admin_defaults 1 ''fly'' ?s = Some (1, 1, ?s)"
    using admin_one_shot [OF o, of dead_libusb 1 "''fly''" ?s] c(1) by auto
  ultimately show ?thesis using run by blast
qed



end
