(* ===== verification/Sniffer_Transport.thy ===== *)
theory Sniffer_Transport
  imports Prelude
begin

text \<open>
  The byte-transport interface of \<open>sniffer_capture.h\<close> (\<open>SnifferIoStatus\<close>,
  \<open>SnifferTransport\<close>) and its staging-buffer adapter, \<open>sniffer_buffered_transport.c\<close>. The
  contract a reader keeps is stated as locales: \<open>byte_source\<close> and, with progress and a
  clean end, \<open>byte_stream\<close> are what the parser relies on; \<open>packet_source\<close> and
  \<open>packet_stream\<close> keep the same laws only for requests that hold a whole packet. The adapter
  turns the second kind into the first, which is what the staging buffer is for.
\<close>

section \<open>The interface\<close>

datatype SnifferIoStatus =
    SNIFFER_IO_ERROR | SNIFFER_IO_EOF | SNIFFER_IO_DATA | SNIFFER_IO_TIMEOUT
  | SNIFFER_IO_INTERRUPTED

text \<open>
  \<open>read(context, buffer, capacity, &received)\<close> returns a status and stores \<open>received\<close>
  bytes; here it returns the status, the bytes stored and the new state of its context.
  \<open>write(context, buffer, length, &written)\<close> returns a status and the count written.
\<close>

type_synonym 'c SnifferReadFn = "'c \<Rightarrow> nat \<Rightarrow> SnifferIoStatus \<times> bytes \<times> 'c"
type_synonym 'c SnifferWriteFn = "'c \<Rightarrow> bytes \<Rightarrow> SnifferIoStatus \<times> nat \<times> 'c"

text \<open>The function pointers of a transport; \<open>None\<close> is a NULL pointer.\<close>

record 'c SnifferTransport =
  t_read :: "'c SnifferReadFn option"
  t_write :: "'c SnifferWriteFn option"

section \<open>The staging buffer\<close>

record 'c SnifferBufferedTransport =
  bf_context :: 'c
  bf_buffer :: bytes
  bf_capacity :: nat
  bf_offset :: nat
  bf_length :: nat
  bf_pending_status :: SnifferIoStatus

text \<open>Lines 31 to 38 of \<open>buffered_read\<close>: hand out staged bytes and the pending status once.\<close>

definition buffered_deliver ::
    "'c SnifferBufferedTransport \<Rightarrow> nat \<Rightarrow> SnifferIoStatus \<times> bytes \<times> 'c SnifferBufferedTransport" where
  "buffered_deliver b capacity =
     (let available = bf_length b - bf_offset b;
          chunk = (if capacity < available then capacity else available)
      in (bf_pending_status b, take chunk (drop (bf_offset b) (bf_buffer b)),
          b\<lparr>bf_offset := bf_offset b + chunk, bf_pending_status := SNIFFER_IO_DATA\<rparr>))"

text \<open>
  The upstream reader stores its bytes at the start of the staging array and leaves the rest
  of the array as it was. A reader that claims more bytes than the array holds is an error.
\<close>

definition buffered_read :: "'c SnifferReadFn \<Rightarrow> 'c SnifferBufferedTransport SnifferReadFn" where
  "buffered_read upstream_read b capacity =
     (if capacity = 0 then (SNIFFER_IO_ERROR, [], b)
      else if bf_offset b = bf_length b then
        (let b = b\<lparr>bf_offset := 0, bf_length := 0\<rparr>;
             (status, d, c') = upstream_read (bf_context b) (bf_capacity b);
             b = b\<lparr>bf_context := c'\<rparr>
         in if length d > bf_capacity b then (SNIFFER_IO_ERROR, [], b)
            else let b = b\<lparr>bf_buffer := d @ drop (length d) (bf_buffer b),
                           bf_length := length d, bf_pending_status := status\<rparr>
                 in if length d = 0 then (status, [], b) else buffered_deliver b capacity)
      else buffered_deliver b capacity)"

definition buffered_write ::
    "'c SnifferWriteFn option \<Rightarrow> 'c SnifferBufferedTransport SnifferWriteFn" where
  "buffered_write upstream_write b data =
     (case upstream_write of
        None \<Rightarrow> (SNIFFER_IO_ERROR, 0, b)
      | Some w \<Rightarrow> (case w (bf_context b) data of
                    (status, written, c') \<Rightarrow> (status, written, b\<lparr>bf_context := c'\<rparr>)))"

text \<open>\<open>None\<close> is the return value \<open>-1\<close>; \<open>buffer\<close> is the caller's array.\<close>

definition sniffer_buffered_transport_init ::
    "'c SnifferTransport \<Rightarrow> 'c \<Rightarrow> bytes \<Rightarrow> nat \<Rightarrow> 'c SnifferBufferedTransport option" where
  "sniffer_buffered_transport_init upstream c buffer capacity =
     (if t_read upstream = None \<or> capacity = 0 then None
      else Some \<lparr>bf_context = c, bf_buffer = buffer, bf_capacity = capacity,
                 bf_offset = 0, bf_length = 0, bf_pending_status = SNIFFER_IO_DATA\<rparr>)"

definition sniffer_buffered_transport_adapter ::
    "'c SnifferTransport \<Rightarrow> 'c SnifferBufferedTransport SnifferTransport" where
  "sniffer_buffered_transport_adapter upstream =
     \<lparr>t_read = map_option buffered_read (t_read upstream),
      t_write = Some (buffered_write (t_write upstream))\<rparr>"

section \<open>The contract of a reader\<close>

text \<open>
  \<open>pending c\<close> are the bytes the source still has to deliver in state \<open>c\<close>. Every read
  delivers a prefix of them, at most as many as asked for, whatever the status. This is what
  the parser of \<open>sniffer_capture.c\<close> relies on.
\<close>

locale byte_source =
  fixes rd :: "'c SnifferReadFn"
    and pending :: "'c \<Rightarrow> bytes"
    and wf :: "'c \<Rightarrow> bool"
  assumes rd_wf: "wf c \<Longrightarrow> 0 < n \<Longrightarrow> rd c n = (status, d, c') \<Longrightarrow> wf c'"
    and rd_length: "wf c \<Longrightarrow> 0 < n \<Longrightarrow> rd c n = (status, d, c') \<Longrightarrow> length d \<le> n"
    and rd_pending: "wf c \<Longrightarrow> 0 < n \<Longrightarrow> rd c n = (status, d, c') \<Longrightarrow>
      pending c = d @ pending c'"
    and rd_data: "wf c \<Longrightarrow> 0 < n \<Longrightarrow> rd c n = (SNIFFER_IO_DATA, d, c') \<Longrightarrow> d \<noteq> []"

text \<open>
  A byte stream ends with the status \<open>fin\<close> (end of file, or the error of a device that
  went away) only after its last byte, and every other read uses up some \<open>fuel\<close>.
\<close>

definition io_end :: "SnifferIoStatus \<Rightarrow> bool" where
  "io_end status \<longleftrightarrow> status = SNIFFER_IO_EOF \<or> status = SNIFFER_IO_ERROR"

locale byte_stream = byte_source +
  fixes fuel :: "'a \<Rightarrow> nat"
    and fin :: SnifferIoStatus
  assumes fin_end: "io_end fin"
    and rd_end: "wf c \<Longrightarrow> 0 < n \<Longrightarrow> rd c n = (status, d, c') \<Longrightarrow> io_end status \<Longrightarrow>
      status = fin \<and> d = [] \<and> pending c' = []"
    and rd_live: "wf c \<Longrightarrow> 0 < n \<Longrightarrow> rd c n = (status, d, c') \<Longrightarrow> \<not> io_end status \<Longrightarrow>
      fuel c' < fuel c \<and> fuel c' + length d \<le> fuel c"

text \<open>
  A USB endpoint keeps the same laws only for requests that hold one of its packets: \<open>mtu\<close>
  is the smallest such request.
\<close>

locale packet_source =
  fixes rd :: "'c SnifferReadFn"
    and pending :: "'c \<Rightarrow> bytes"
    and wf :: "'c \<Rightarrow> bool"
    and mtu :: nat
  assumes rd_wf: "wf c \<Longrightarrow> mtu \<le> n \<Longrightarrow> 0 < n \<Longrightarrow> rd c n = (status, d, c') \<Longrightarrow> wf c'"
    and rd_length: "wf c \<Longrightarrow> mtu \<le> n \<Longrightarrow> 0 < n \<Longrightarrow> rd c n = (status, d, c') \<Longrightarrow> length d \<le> n"
    and rd_pending: "wf c \<Longrightarrow> mtu \<le> n \<Longrightarrow> 0 < n \<Longrightarrow> rd c n = (status, d, c') \<Longrightarrow>
      pending c = d @ pending c'"
    and rd_data: "wf c \<Longrightarrow> mtu \<le> n \<Longrightarrow> 0 < n \<Longrightarrow> rd c n = (SNIFFER_IO_DATA, d, c') \<Longrightarrow> d \<noteq> []"

locale packet_stream = packet_source +
  fixes fuel :: "'a \<Rightarrow> nat"
    and fin :: SnifferIoStatus
  assumes fin_end: "io_end fin"
    and rd_end: "wf c \<Longrightarrow> mtu \<le> n \<Longrightarrow> 0 < n \<Longrightarrow> rd c n = (status, d, c') \<Longrightarrow> io_end status \<Longrightarrow>
      status = fin \<and> d = [] \<and> pending c' = []"
    and rd_live: "wf c \<Longrightarrow> mtu \<le> n \<Longrightarrow> 0 < n \<Longrightarrow> rd c n = (status, d, c') \<Longrightarrow> \<not> io_end status \<Longrightarrow>
      fuel c' < fuel c \<and> fuel c' + length d \<le> fuel c"

section \<open>The adapter keeps the contract, for requests of any size\<close>

definition buffered_pending ::
    "('c \<Rightarrow> bytes) \<Rightarrow> 'c SnifferBufferedTransport \<Rightarrow> bytes" where
  "buffered_pending pend b =
     drop (bf_offset b) (take (bf_length b) (bf_buffer b)) @ pend (bf_context b)"

text \<open>The invariant of the adapter's state, over one of its upstream context.\<close>

definition buffered_wf ::
    "('c \<Rightarrow> bool) \<Rightarrow> nat \<Rightarrow> 'c SnifferBufferedTransport \<Rightarrow> bool" where
  "buffered_wf up_wf m b \<longleftrightarrow>
     up_wf (bf_context b) \<and> 0 < bf_capacity b \<and> m \<le> bf_capacity b \<and>
     length (bf_buffer b) = bf_capacity b \<and>
     bf_offset b \<le> bf_length b \<and> bf_length b \<le> bf_capacity b \<and>
     (bf_offset b < bf_length b \<longrightarrow> bf_pending_status b = SNIFFER_IO_DATA)"

definition buffered_fuel :: "('c \<Rightarrow> nat) \<Rightarrow> 'c SnifferBufferedTransport \<Rightarrow> nat" where
  "buffered_fuel up_fuel b = up_fuel (bf_context b) + (bf_length b - bf_offset b)"

lemmas buffered_defs = buffered_pending_def buffered_wf_def buffered_fuel_def

text \<open>A delivery moves at least one staged byte to the caller.\<close>

lemma buffered_deliver_facts:
  assumes "buffered_deliver b n = (status, d, b')" "0 < n"
    and "bf_offset b < bf_length b" "bf_length b \<le> length (bf_buffer b)"
  shows "status = bf_pending_status b"
    and "d \<noteq> []" "length d \<le> n"
    and "drop (bf_offset b) (take (bf_length b) (bf_buffer b)) =
      d @ drop (bf_offset b') (take (bf_length b') (bf_buffer b'))"
    and "bf_context b' = bf_context b" "bf_buffer b' = bf_buffer b"
    and "bf_capacity b' = bf_capacity b" "bf_length b' = bf_length b"
    and "bf_offset b' = bf_offset b + length d" "bf_offset b' \<le> bf_length b"
    and "bf_pending_status b' = SNIFFER_IO_DATA"
proof -
  let ?chunk = "min n (bf_length b - bf_offset b)"
  have d: "d = take ?chunk (drop (bf_offset b) (bf_buffer b))"
    and b': "b' = b\<lparr>bf_offset := bf_offset b + ?chunk, bf_pending_status := SNIFFER_IO_DATA\<rparr>"
    and st: "status = bf_pending_status b"
    using assms(1) by (auto simp: buffered_deliver_def Let_def min_def split: if_splits)
  have len: "length d = ?chunk" using assms(4) by (simp add: d)
  show "status = bf_pending_status b" by (rule st)
  show "d \<noteq> []" using len assms(2,3) by auto
  show "length d \<le> n" using len by simp
  have split: "bf_length b - bf_offset b = ?chunk + (bf_length b - bf_offset b - ?chunk)"
    by simp
  have "take (bf_length b - bf_offset b) (drop (bf_offset b) (bf_buffer b)) =
      d @ take (bf_length b - bf_offset b - ?chunk)
        (drop ?chunk (drop (bf_offset b) (bf_buffer b)))"
    unfolding d by (subst split) (rule take_add)
  then show "drop (bf_offset b) (take (bf_length b) (bf_buffer b)) =
      d @ drop (bf_offset b') (take (bf_length b') (bf_buffer b'))"
    by (simp add: b' drop_take add.commute)
  show "bf_offset b' = bf_offset b + length d" using len by (simp add: b')
  show "bf_offset b' \<le> bf_length b" using assms(3) by (simp add: b')
  show "bf_context b' = bf_context b" "bf_buffer b' = bf_buffer b"
    "bf_capacity b' = bf_capacity b" "bf_length b' = bf_length b"
    "bf_pending_status b' = SNIFFER_IO_DATA" by (simp_all add: b')
qed

text \<open>
  The three ways a read of the adapter ends: the staging buffer delivers; an empty buffer is
  refilled and delivers; the refill brought no bytes and its status is passed on.
\<close>

context packet_source
begin

lemma buffered_read_cases:
  assumes wf: "buffered_wf wf mtu b" and n: "0 < n"
    and step: "buffered_read rd b n = (status, d, b')"
  obtains
    (staged) "bf_offset b < bf_length b" "buffered_deliver b n = (status, d, b')"
  | (refill) st0 d0 c' b0 where "bf_offset b = bf_length b"
      "rd (bf_context b) (bf_capacity b) = (st0, d0, c')" "d0 \<noteq> []"
      "length d0 \<le> bf_capacity b"
      "b0 = b\<lparr>bf_offset := 0, bf_context := c', bf_buffer := d0 @ drop (length d0) (bf_buffer b),
        bf_length := length d0, bf_pending_status := st0\<rparr>"
      "buffered_deliver b0 n = (status, d, b')"
  | (idle) c' where "bf_offset b = bf_length b"
      "rd (bf_context b) (bf_capacity b) = (status, [], c')" "d = []"
      "b' = b\<lparr>bf_context := c', bf_offset := 0, bf_length := 0, bf_pending_status := status\<rparr>"
proof (cases "bf_offset b = bf_length b")
  case False
  with wf have "bf_offset b < bf_length b" by (simp add: buffered_defs)
  then show thesis using staged step n False by (simp add: buffered_read_def)
next
  case True
  obtain st0 d0 c' where r: "rd (bf_context b) (bf_capacity b) = (st0, d0, c')"
    by (cases "rd (bf_context b) (bf_capacity b)") auto
  have le: "length d0 \<le> bf_capacity b"
    using rd_length [OF _ _ _ r] wf by (simp add: buffered_defs)
  show thesis
  proof (cases "d0 = []")
    case empty: True
    have "status = st0" "d = []" "b' = b\<lparr>bf_context := c', bf_offset := 0, bf_length := 0,
        bf_pending_status := st0\<rparr>"
      using True r step n empty by (auto simp: buffered_read_def Let_def)
    with True r empty show thesis by (intro idle [of c']) simp_all
  next
    case False
    with True r le step n show thesis
      by (intro refill [OF True r False le refl]) (simp add: buffered_read_def Let_def)
  qed
qed

lemma buffered_read_step:
  assumes wf: "buffered_wf wf mtu b" and n: "0 < n"
    and step: "buffered_read rd b n = (status, d, b')"
  shows "buffered_wf wf mtu b'" and "length d \<le> n"
    and "buffered_pending pending b = d @ buffered_pending pending b'"
    and "status = SNIFFER_IO_DATA \<Longrightarrow> d \<noteq> []"
proof -
  have inv: "wf (bf_context b)" "mtu \<le> bf_capacity b" "0 < bf_capacity b"
    using wf by (simp_all add: buffered_defs)
  from wf n step have "buffered_wf wf mtu b' \<and> length d \<le> n \<and>
      buffered_pending pending b = d @ buffered_pending pending b' \<and>
      (status = SNIFFER_IO_DATA \<longrightarrow> d \<noteq> [])"
  proof (cases rule: buffered_read_cases)
    case staged
    have "bf_length b \<le> length (bf_buffer b)" using wf by (simp add: buffered_defs)
    note del = buffered_deliver_facts [OF staged(2) n staged(1) this]
    from del wf show ?thesis by (simp add: buffered_defs)
  next
    case (refill st0 d0 c' b0)
    note up = rd_wf [OF inv refill(2)] rd_pending [OF inv refill(2)]
    have "bf_offset b0 < bf_length b0" "bf_length b0 \<le> length (bf_buffer b0)"
      using refill(3) by (simp_all add: refill(5))
    note del = buffered_deliver_facts [OF refill(6) n this]
    have "buffered_pending pending b0 = d @ buffered_pending pending b'"
      using del(4,5) by (simp add: buffered_pending_def)
    moreover have "buffered_pending pending b0 = buffered_pending pending b"
      using up(2) refill(1) by (simp add: buffered_pending_def refill(5))
    moreover have "buffered_wf wf mtu b'"
      using del(5-) up(1) refill(4) wf by (simp add: buffered_wf_def refill(5))
    ultimately show ?thesis using del(2,3) by simp
  next
    case (idle c')
    note up = rd_wf [OF inv idle(2)] rd_pending [OF inv idle(2)]
    from idle rd_data [OF inv] have "status \<noteq> SNIFFER_IO_DATA" by blast
    with idle up wf show ?thesis by (simp add: buffered_defs)
  qed
  then show "buffered_wf wf mtu b'" "length d \<le> n"
    "buffered_pending pending b = d @ buffered_pending pending b'"
    "status = SNIFFER_IO_DATA \<Longrightarrow> d \<noteq> []" by auto
qed

end

sublocale packet_source \<subseteq> buffered: byte_source
  "buffered_read rd" "buffered_pending pending" "buffered_wf wf mtu"
proof
  fix b n status d b'
  assume "buffered_wf wf mtu b" "0 < n" "buffered_read rd b n = (status, d, b')"
  note step = buffered_read_step [OF this]
  show "buffered_wf wf mtu b'" "length d \<le> n"
    "buffered_pending pending b = d @ buffered_pending pending b'" by (fact step)+
next
  fix b n d b'
  assume "buffered_wf wf mtu b" "0 < n" "buffered_read rd b n = (SNIFFER_IO_DATA, d, b')"
  then show "d \<noteq> []" by (rule buffered_read_step(4)) (rule refl)
qed

context packet_stream
begin

lemma buffered_read_end:
  assumes wf: "buffered_wf wf mtu b" and n: "0 < n"
    and step: "buffered_read rd b n = (status, d, b')"
  shows "io_end status \<Longrightarrow> status = fin \<and> d = [] \<and> buffered_pending pending b' = []"
    and "\<not> io_end status \<Longrightarrow> buffered_fuel fuel b' < buffered_fuel fuel b \<and>
      buffered_fuel fuel b' + length d \<le> buffered_fuel fuel b"
proof -
  have inv: "wf (bf_context b)" "mtu \<le> bf_capacity b" "0 < bf_capacity b"
    using wf by (simp_all add: buffered_defs)
  from wf n step have "(io_end status \<longrightarrow> status = fin \<and> d = [] \<and> buffered_pending pending b' = []) \<and>
      (\<not> io_end status \<longrightarrow> buffered_fuel fuel b' < buffered_fuel fuel b \<and>
         buffered_fuel fuel b' + length d \<le> buffered_fuel fuel b)"
  proof (cases rule: buffered_read_cases)
    case staged
    have "bf_length b \<le> length (bf_buffer b)" using wf by (simp add: buffered_defs)
    note del = buffered_deliver_facts [OF staged(2) n staged(1) this]
    have "status = SNIFFER_IO_DATA" using wf staged(1) del(1) by (simp add: buffered_defs)
    moreover have "0 < length d" using del(2) by simp
    moreover have moved: "bf_length b' - bf_offset b' + length d = bf_length b - bf_offset b"
      using del(8-10) by simp
    moreover have "bf_length b' - bf_offset b' < bf_length b - bf_offset b"
      using \<open>0 < length d\<close> moved by linarith
    ultimately have "buffered_fuel fuel b' < buffered_fuel fuel b"
      "buffered_fuel fuel b' + length d \<le> buffered_fuel fuel b"
      unfolding buffered_fuel_def del(5) by linarith+
    with \<open>status = SNIFFER_IO_DATA\<close> show ?thesis by (simp add: io_end_def)
  next
    case (refill st0 d0 c' b0)
    have "\<not> io_end st0" using rd_end [OF inv refill(2)] refill(3) by blast
    note up = rd_live [OF inv refill(2) this]
    have "bf_offset b0 < bf_length b0" "bf_length b0 \<le> length (bf_buffer b0)"
      using refill(3) by (simp_all add: refill(5))
    note del = buffered_deliver_facts [OF refill(6) n this]
    from del(1) \<open>\<not> io_end st0\<close> have "\<not> io_end status" by (simp add: refill(5))
    moreover have "0 < length d" using del(2) by simp
    moreover have "bf_length b' - bf_offset b' + length d = length d0"
      using del(8-10) by (simp add: refill(5))
    moreover have ctx': "bf_context b' = c'" using del(5) by (simp add: refill(5))
    ultimately have "buffered_fuel fuel b' < buffered_fuel fuel b"
      "buffered_fuel fuel b' + length d \<le> buffered_fuel fuel b"
      unfolding buffered_fuel_def ctx' using up by linarith+
    with \<open>\<not> io_end status\<close> show ?thesis by simp
  next
    case (idle c')
    with rd_end [OF inv idle(2)] rd_live [OF inv idle(2)] show ?thesis
      by (simp add: buffered_defs)
  qed
  then show "io_end status \<Longrightarrow> status = fin \<and> d = [] \<and> buffered_pending pending b' = []"
    and "\<not> io_end status \<Longrightarrow> buffered_fuel fuel b' < buffered_fuel fuel b \<and>
      buffered_fuel fuel b' + length d \<le> buffered_fuel fuel b" by blast+
qed

end

sublocale packet_stream \<subseteq> buffered: byte_stream
  "buffered_read rd" "buffered_pending pending" "buffered_wf wf mtu" "buffered_fuel fuel" fin
proof
  show "io_end fin" by (rule fin_end)
next
  fix b n status d b'
  assume "buffered_wf wf mtu b" "0 < n" "buffered_read rd b n = (status, d, b')"
  note step = buffered_read_end [OF this]
  show "status = fin \<and> d = [] \<and> buffered_pending pending b' = []" if "io_end status"
    by (rule step(1) [OF that])
  show "buffered_fuel fuel b' < buffered_fuel fuel b \<and>
      buffered_fuel fuel b' + length d \<le> buffered_fuel fuel b" if "\<not> io_end status"
    by (rule step(2) [OF that])
qed

text \<open>The same law for a reader given outside the locale.\<close>

context packet_stream
begin

lemma buffered_stream:
  "byte_stream (buffered_read rd) (buffered_pending pending) (buffered_wf wf mtu) (buffered_fuel fuel) fin"
  by (rule buffered.byte_stream_axioms)

end

end
