(* ===== verification/Sniffer_Capture.thy ===== *)
theory Sniffer_Capture
  imports Byte_Order Sniffer_Transport
begin

text \<open>
  The capture core, \<open>sniffer_capture.c\<close>: the record parser that reads a byte transport,
  resynchronises on the magic number, prints and stores complete records and counts what it
  does. This theory holds the definitions; \<open>Capture_Safety\<close> and \<open>Capture_Refine\<close> prove
  them correct.

  The signal flag \<open>running\<close> is modelled by the number of times it is still read as set:
  \<open>None\<close> when it is a NULL pointer or no signal arrives, \<open>Some k\<close> when a signal handler
  clears it before the read number \<open>k + 1\<close>. The output file is the C library's: it holds
  the bytes written so far, and its script says how many bytes each coming \<open>fwrite\<close>
  accepts and whether each coming \<open>fflush\<close> succeeds; an empty script is a file that accepts
  everything.
\<close>

section \<open>Data\<close>

datatype ExactResult = EXACT_ERROR | EXACT_EOF | EXACT_OK | EXACT_STOPPED

record SnifferMeta =
  magic :: u32
  sender_address :: u16
  sequence :: u16
  message_length :: u16
  rx_time :: u64

record SnifferStats =
  records :: u64
  received_bytes :: u64
  stored_bytes :: u64
  magic_errors :: u64
  invalid_lengths :: u64
  truncated_meta :: u64
  truncated_payload :: u64
  read_timeouts :: u64
  transport_errors :: u64
  file_write_failures :: u64
  resynchronizations :: u64
  discarded_bytes :: u64

definition zero_stats :: SnifferStats where
  "zero_stats = \<lparr>records = 0, received_bytes = 0, stored_bytes = 0, magic_errors = 0,
     invalid_lengths = 0, truncated_meta = 0, truncated_payload = 0, read_timeouts = 0,
     transport_errors = 0, file_write_failures = 0, resynchronizations = 0,
     discarded_bytes = 0\<rparr>"

record SnifferCaptureOptions =
  max_payload :: nat
  max_records :: u64
  flush_each_record :: bool
  print_records :: bool
  print_payload :: bool
  print_stream :: bool \<comment> \<open>the stream is not NULL\<close>

definition SNIFFER_META_SIZE :: nat where "SNIFFER_META_SIZE = 18"
definition SNIFFER_MAGIC :: u32 where "SNIFFER_MAGIC = 0x0000BBBB"

record out_file =
  fl_data :: bytes
  fl_accept :: "nat list"
  fl_flush :: "bool list"

definition fwrite :: "out_file \<Rightarrow> bytes \<Rightarrow> nat \<times> out_file" where
  "fwrite f d =
     (case fl_accept f of
        [] \<Rightarrow> (length d, f\<lparr>fl_data := fl_data f @ d\<rparr>)
      | q # qs \<Rightarrow> (min q (length d), f\<lparr>fl_data := fl_data f @ take q d, fl_accept := qs\<rparr>))"

definition fflush :: "out_file \<Rightarrow> bool \<times> out_file" where
  "fflush f = (case fl_flush f of [] \<Rightarrow> (True, f) | ok # oks \<Rightarrow> (ok, f\<lparr>fl_flush := oks\<rparr>))"

text \<open>Everything \<open>sniffer_capture\<close> changes.\<close>

record 'c capture_state =
  cs_context :: 'c
  cs_running :: "nat option"
  cs_stats :: SnifferStats
  cs_output :: out_file
  cs_printed :: string

abbreviation upd_stats :: "(SnifferStats \<Rightarrow> SnifferStats) \<Rightarrow> 'c capture_state \<Rightarrow> 'c capture_state" where
  "upd_stats f s \<equiv> s\<lparr>cs_stats := f (cs_stats s)\<rparr>"

abbreviation inc_transport_errors :: "SnifferStats \<Rightarrow> SnifferStats" where
  "inc_transport_errors st \<equiv> st\<lparr>transport_errors := transport_errors st + 1\<rparr>"

section \<open>Decoding\<close>

definition sniffer_decode_meta :: "bytes \<Rightarrow> SnifferMeta" where
  "sniffer_decode_meta raw =
     \<lparr>magic = read_le32 raw,
      sender_address = read_le16 (drop 4 raw),
      sequence = read_le16 (drop 6 raw),
      message_length = read_le16 (drop 8 raw),
      rx_time = read_le64 (drop 10 raw)\<rparr>"

section \<open>Reading\<close>

fun is_running :: "nat option \<Rightarrow> bool \<times> nat option" where
  "is_running None = (True, None)"
| "is_running (Some 0) = (False, Some 0)"
| "is_running (Some (Suc k)) = (True, Some k)"

lemma is_running_numeral [simp]: "is_running (Some (numeral k)) = (True, Some (pred_numeral k))"
  by (simp add: numeral_eq_Suc)

definition poll :: "'c capture_state \<Rightarrow> bool \<times> 'c capture_state" where
  "poll s = (case is_running (cs_running s) of (go, r) \<Rightarrow> (go, s\<lparr>cs_running := r\<rparr>))"

lemma poll_None [simp]: "cs_running s = None \<Longrightarrow> poll s = (True, s)"
  by (simp add: poll_def)

text \<open>
  One iteration of the loop of \<open>read_exact\<close>. \<open>buffer\<close> are the bytes stored so far, so its
  length is \<open>total\<close>.
\<close>

definition read_exact_body ::
    "'c SnifferReadFn \<Rightarrow> nat \<Rightarrow> bytes \<times> 'c capture_state \<Rightarrow>
     (ExactResult \<times> bytes \<times> 'c capture_state) + (bytes \<times> 'c capture_state)" where
  "read_exact_body rd n = (\<lambda>(buffer, s).
     if \<not> length buffer < n then Inl (EXACT_OK, buffer, s)
     else case poll s of (go, s) \<Rightarrow>
       if \<not> go then Inl (EXACT_STOPPED, buffer, s)
       else case rd (cs_context s) (n - length buffer) of (status, d, c') \<Rightarrow>
         let s = s\<lparr>cs_context := c'\<rparr> in
         if n - length buffer < length d then Inl (EXACT_ERROR, buffer, upd_stats inc_transport_errors s)
         else
           let buffer = buffer @ d;
               s = (if 0 < length d
                    then upd_stats (\<lambda>st. st\<lparr>received_bytes := received_bytes st + of_nat (length d)\<rparr>) s
                    else s)
           in case status of
                SNIFFER_IO_DATA \<Rightarrow>
                  (if length d = 0 then Inl (EXACT_ERROR, buffer, upd_stats inc_transport_errors s)
                   else Inr (buffer, s))
              | SNIFFER_IO_TIMEOUT \<Rightarrow>
                  Inr (buffer, upd_stats (\<lambda>st. st\<lparr>read_timeouts := read_timeouts st + 1\<rparr>) s)
              | SNIFFER_IO_INTERRUPTED \<Rightarrow> Inr (buffer, s)
              | SNIFFER_IO_EOF \<Rightarrow> Inl (EXACT_EOF, buffer, s)
              | SNIFFER_IO_ERROR \<Rightarrow> Inl (EXACT_ERROR, buffer, upd_stats inc_transport_errors s))"

definition read_exact ::
    "'c SnifferReadFn \<Rightarrow> nat \<Rightarrow> 'c capture_state \<Rightarrow>
     (ExactResult \<times> bytes \<times> 'c capture_state) option" where
  "read_exact rd n s = c_loop (\<lambda>x. Some (read_exact_body rd n x)) ([], s)"

definition magic_bytes :: bytes where
  "magic_bytes = [0xBB, 0xBB, 0x00, 0x00]"

definition magic_matches :: "bytes \<Rightarrow> bool" where
  "magic_matches window \<longleftrightarrow> take 4 window = magic_bytes"

text \<open>
  One iteration of the resynchronisation loop of \<open>read_next_meta\<close>: the window moves by one
  byte. \<open>None\<close> as a result is the loop's guard failing, \<open>Some r\<close> its \<open>return r\<close>.
\<close>

definition resync_body ::
    "'c SnifferReadFn \<Rightarrow> bytes \<times> u64 \<times> 'c capture_state \<Rightarrow>
     ((ExactResult option \<times> bytes \<times> u64 \<times> 'c capture_state) + (bytes \<times> u64 \<times> 'c capture_state)) option" where
  "resync_body rd = (\<lambda>(raw, discarded, s).
     case poll s of (go, s) \<Rightarrow>
       if \<not> (go \<and> \<not> magic_matches raw) then Some (Inl (None, raw, discarded, s))
       else do {
         (result, d, s) \<leftarrow> read_exact rd 1 s;
         if result \<noteq> EXACT_OK then
           let s = (if result = EXACT_EOF \<and> 0 < length d
                    then upd_stats (\<lambda>st. st\<lparr>truncated_meta := truncated_meta st + 1\<rparr>) s else s);
               s = upd_stats (\<lambda>st. st\<lparr>discarded_bytes := discarded_bytes st + (discarded + 4)\<rparr>) s
           in Some (Inl (Some result, raw, discarded, s))
         else Some (Inr (tl raw @ d, discarded + 1, s))
       })"

text \<open>The part of \<open>read_next_meta\<close> after the magic: the remaining 14 bytes of the meta.\<close>

definition read_meta_rest ::
    "'c SnifferReadFn \<Rightarrow> bytes \<Rightarrow> 'c capture_state \<Rightarrow>
     (ExactResult \<times> bytes \<times> 'c capture_state) option" where
  "read_meta_rest rd raw s = do {
     (result, d, s) \<leftarrow> read_exact rd (SNIFFER_META_SIZE - 4) s;
     Some (result, raw @ d,
       if result = EXACT_EOF \<or> result = EXACT_ERROR
       then upd_stats (\<lambda>st. st\<lparr>truncated_meta := truncated_meta st + 1\<rparr>) s else s)
   }"

definition read_next_meta ::
    "'c SnifferReadFn \<Rightarrow> 'c capture_state \<Rightarrow> (ExactResult \<times> bytes \<times> 'c capture_state) option" where
  "read_next_meta rd s = do {
     (result, raw, s) \<leftarrow> read_exact rd 4 s;
     if result \<noteq> EXACT_OK then
       Some (result, raw,
         if (result = EXACT_EOF \<or> result = EXACT_ERROR) \<and> 0 < length raw
         then upd_stats (\<lambda>st. st\<lparr>truncated_meta := truncated_meta st + 1\<rparr>) s else s)
     else if \<not> magic_matches raw then do {
       (stop, raw, discarded, s) \<leftarrow> c_loop (resync_body rd)
         (raw, 0, upd_stats (\<lambda>st. st\<lparr>magic_errors := magic_errors st + 1\<rparr>) s);
       case stop of
         Some result \<Rightarrow> Some (result, raw, s)
       | None \<Rightarrow>
           let s = upd_stats (\<lambda>st. st\<lparr>discarded_bytes := discarded_bytes st + discarded\<rparr>) s in
           case poll s of (go, s) \<Rightarrow>
             if \<not> go then Some (EXACT_STOPPED, raw, s)
             else read_meta_rest rd raw
               (upd_stats (\<lambda>st. st\<lparr>resynchronizations := resynchronizations st + 1\<rparr>) s)
     }
     else read_meta_rest rd raw s
   }"

section \<open>Writing and printing\<close>

function write_file_all :: "bytes \<Rightarrow> 'c capture_state \<Rightarrow> int \<times> 'c capture_state" where
  "write_file_all d s =
     (if d = [] then (0, s)
      else let written = fst (fwrite (cs_output s) d);
               s = s\<lparr>cs_output := snd (fwrite (cs_output s) d)\<rparr>
           in if written = 0 then
                (-1, upd_stats (\<lambda>st. st\<lparr>file_write_failures := file_write_failures st + 1\<rparr>) s)
              else write_file_all (drop written d)
                (upd_stats (\<lambda>st. st\<lparr>stored_bytes := stored_bytes st + of_nat written\<rparr>) s))"
  by pat_completeness auto
termination
  by (relation "measure (\<lambda>(d, s). length d)") auto

declare write_file_all.simps [simp del]

definition print_meta :: "SnifferMeta \<Rightarrow> u64 \<Rightarrow> string" where
  "print_meta meta packet_count =
     ''Packet '' @ fmt_u (unat packet_count) @ nl @
     ''Sniffer_Meta_t:'' @ nl @
     ''  Magic: 0x'' @ fmt_0X 8 (unat (magic meta)) @ nl @
     ''  Sender Address: '' @ fmt_u (unat (sender_address meta)) @ nl @
     ''  Sequence Number: '' @ fmt_u (unat (sequence meta)) @ nl @
     ''  Message Length: '' @ fmt_u (unat (message_length meta)) @ nl @
     ''  RX Time: 0x'' @ fmt_0X 16 (unat (rx_time meta)) @ nl"

definition print_payload_hex :: "bytes \<Rightarrow> string" where
  "print_payload_hex payload =
     ''Payload: '' @ concat (map (\<lambda>b. fmt_0X 2 (unat b)) payload) @ nl"

definition out_print :: "bool \<Rightarrow> string \<Rightarrow> 'c capture_state \<Rightarrow> 'c capture_state" where
  "out_print on text s = (if on then s\<lparr>cs_printed := cs_printed s @ text\<rparr> else s)"

lemma out_print_simps [simp]:
  "cs_output (out_print b t s) = cs_output s" "cs_stats (out_print b t s) = cs_stats s"
  "cs_context (out_print b t s) = cs_context s" "cs_running (out_print b t s) = cs_running s"
  by (simp_all add: out_print_def)

text \<open>Lines 221 to 232: meta and payload to the file, then the flush; \<open>records\<close> counts last.\<close>

definition store_record ::
    "SnifferCaptureOptions \<Rightarrow> bytes \<Rightarrow> bytes \<Rightarrow> 'c capture_state \<Rightarrow> int \<times> 'c capture_state" where
  "store_record opts raw payload s =
     (case write_file_all raw s of (r1, s) \<Rightarrow>
        if r1 \<noteq> 0 then (-1, s)
        else case write_file_all payload s of (r2, s) \<Rightarrow>
          if r2 \<noteq> 0 then (-1, s)
          else
            let (ok, s) = (if flush_each_record opts
                           then (case fflush (cs_output s) of (ok, f) \<Rightarrow> (ok, s\<lparr>cs_output := f\<rparr>))
                           else (True, s))
            in if \<not> ok then
                 (-1, upd_stats (\<lambda>st. st\<lparr>file_write_failures := file_write_failures st + 1\<rparr>) s)
               else (0, upd_stats (\<lambda>st. st\<lparr>records := records st + 1\<rparr>) s))"

section \<open>The capture loop\<close>

definition capture_body ::
    "'c SnifferReadFn \<Rightarrow> SnifferCaptureOptions \<Rightarrow> u64 \<times> 'c capture_state \<Rightarrow>
     ((int \<times> 'c capture_state) + (u64 \<times> 'c capture_state)) option" where
  "capture_body rd opts = (\<lambda>(packet_count, s).
     case poll s of (go, s) \<Rightarrow>
     if \<not> (go \<and> (max_records opts = 0 \<or> records (cs_stats s) < max_records opts))
     then Some (Inl (0, s))
     else do {
       (result, raw, s) \<leftarrow> read_next_meta rd s;
       case result of
         EXACT_EOF \<Rightarrow> Some (Inl (0, s))
       | EXACT_STOPPED \<Rightarrow> Some (Inl (0, s))
       | EXACT_ERROR \<Rightarrow> Some (Inl (-1, s))
       | EXACT_OK \<Rightarrow>
           let meta = sniffer_decode_meta raw;
               packet_count = packet_count + 1;
               s = out_print (print_records opts) (print_meta meta packet_count) s
           in if max_payload opts < unat (message_length meta) then
                Some (Inr (packet_count,
                  upd_stats (\<lambda>st. st\<lparr>invalid_lengths := invalid_lengths st + 1\<rparr>) s))
              else do {
                (result, payload, s) \<leftarrow> read_exact rd (unat (message_length meta)) s;
                if result \<noteq> EXACT_OK then
                  Some (Inl (if result = EXACT_ERROR then -1 else 0,
                    if result = EXACT_EOF \<or> result = EXACT_ERROR
                    then upd_stats (\<lambda>st. st\<lparr>truncated_payload := truncated_payload st + 1\<rparr>) s
                    else s))
                else
                  let s = out_print (print_payload opts) (print_payload_hex payload) s in
                  case store_record opts raw payload s of (status, s) \<Rightarrow>
                    if status \<noteq> 0 then Some (Inl (-1, s)) else Some (Inr (packet_count, s))
              }
     })"

definition capture_options_valid :: "SnifferCaptureOptions \<Rightarrow> bool" where
  "capture_options_valid opts \<longleftrightarrow>
     \<not> (max_payload opts = 0 \<or> max_payload opts > 65535 \<or>
        (print_records opts \<and> \<not> print_stream opts) \<or>
        (print_payload opts \<and> \<not> print_records opts))"

text \<open>
  The arguments \<open>output\<close>, \<open>transport\<close>, \<open>options\<close> and \<open>stats\<close> are objects here, so their
  NULL checks have no counterpart; \<open>malloc_ok\<close> says whether the payload buffer was allocated.
\<close>

definition sniffer_capture ::
    "bool \<Rightarrow> 'c SnifferTransport \<Rightarrow> SnifferCaptureOptions \<Rightarrow> 'c capture_state \<Rightarrow>
     (int \<times> 'c capture_state) option" where
  "sniffer_capture malloc_ok transport opts s =
     (case t_read transport of
        None \<Rightarrow> Some (-1, s)
      | Some rd \<Rightarrow>
          if \<not> capture_options_valid opts then Some (-1, s)
          else if \<not> malloc_ok then Some (-1, s)
          else c_loop (capture_body rd opts) (0, s))"

section \<open>Sending\<close>

text \<open>
  The loop of \<open>sniffer_transport_write_all\<close> over the bytes still to be written, the number
  of timeouts, the context, the signal flag and the caller's counter (\<open>None\<close>: NULL).
\<close>

type_synonym 'c write_state = "bytes \<times> u64 \<times> 'c \<times> nat option \<times> u64 option"

definition write_all_body ::
    "'c SnifferWriteFn \<Rightarrow> u64 \<Rightarrow> 'c write_state \<Rightarrow> (int \<times> 'c write_state) + 'c write_state" where
  "write_all_body wr max_timeouts = (\<lambda>(rest, timeout_count, c, run, timeouts).
     if rest = [] then Inl (0, rest, timeout_count, c, run, timeouts)
     else case is_running run of (go, run) \<Rightarrow>
       if \<not> go then Inl (-1, rest, timeout_count, c, run, timeouts)
       else case wr c rest of (status, written, c) \<Rightarrow>
         if length rest < written then Inl (-1, rest, timeout_count, c, run, timeouts)
         else let rest = drop written rest in
           case status of
             SNIFFER_IO_DATA \<Rightarrow>
               if written = 0 then Inl (-1, rest, timeout_count, c, run, timeouts)
               else Inr (rest, timeout_count, c, run, timeouts)
           | SNIFFER_IO_TIMEOUT \<Rightarrow>
               let timeout_count = timeout_count + 1;
                   timeouts = map_option (\<lambda>t. t + 1) timeouts
               in if max_timeouts < timeout_count
                  then Inl (-1, rest, timeout_count, c, run, timeouts)
                  else Inr (rest, timeout_count, c, run, timeouts)
           | SNIFFER_IO_INTERRUPTED \<Rightarrow> Inr (rest, timeout_count, c, run, timeouts)
           | _ \<Rightarrow> Inl (-1, rest, timeout_count, c, run, timeouts))"

definition sniffer_transport_write_all ::
    "'c SnifferTransport \<Rightarrow> bytes \<Rightarrow> u64 \<Rightarrow> 'c \<Rightarrow> nat option \<Rightarrow> u64 option \<Rightarrow>
     (int \<times> 'c write_state) option" where
  "sniffer_transport_write_all transport data max_timeouts c run timeouts =
     (case t_write transport of
        None \<Rightarrow> Some (-1, data, 0, c, run, timeouts)
      | Some wr \<Rightarrow> c_loop (\<lambda>x. Some (write_all_body wr max_timeouts x)) (data, 0, c, run, timeouts))"

definition sniffer_print_stats :: "SnifferStats \<Rightarrow> string" where
  "sniffer_print_stats st =
     ''records='' @ fmt_u (unat (records st)) @
     '' received_bytes='' @ fmt_u (unat (received_bytes st)) @
     '' stored_bytes='' @ fmt_u (unat (stored_bytes st)) @
     '' magic_errors='' @ fmt_u (unat (magic_errors st)) @
     '' invalid_lengths='' @ fmt_u (unat (invalid_lengths st)) @
     '' truncated_meta='' @ fmt_u (unat (truncated_meta st)) @
     '' truncated_payload='' @ fmt_u (unat (truncated_payload st)) @
     '' read_timeouts='' @ fmt_u (unat (read_timeouts st)) @
     '' transport_errors='' @ fmt_u (unat (transport_errors st)) @
     '' file_write_failures='' @ fmt_u (unat (file_write_failures st)) @
     '' resynchronizations='' @ fmt_u (unat (resynchronizations st)) @
     '' discarded_bytes='' @ fmt_u (unat (discarded_bytes st)) @ nl"

end
