(* ===== verification/Capture_Spec.thy ===== *)
theory Capture_Spec
  imports Sniffer_Capture
begin

text \<open>
  What a capture of a byte stream means, with no transport, no chunks and no state: the stream
  is cut into segments (records, skipped bytes, rejected metas, a truncated end), and the file,
  the counters and the terminal output are functions of the segments. \<open>Capture_Refine\<close>
  proves that the code computes them.
\<close>

section \<open>Records\<close>

text \<open>A record as it is stored: a meta with the magic, and exactly the payload it announces.\<close>

definition record_payload_length :: "bytes \<Rightarrow> nat" where
  "record_payload_length r = unat (message_length (sniffer_decode_meta r))"

definition complete_record :: "nat \<Rightarrow> bytes \<Rightarrow> bool" where
  "complete_record maxp r \<longleftrightarrow>
     SNIFFER_META_SIZE \<le> length r \<and> magic_matches r \<and> record_payload_length r \<le> maxp \<and>
     length r = SNIFFER_META_SIZE + record_payload_length r"

lemma decode_meta_append:
  "length raw = 18 \<Longrightarrow> sniffer_decode_meta (raw @ payload) = sniffer_decode_meta raw"
  by (simp add: sniffer_decode_meta_def read_le16_def read_le32_def read_le64_def nth_append
      upt_small)

lemma complete_record_intro:
  assumes "length raw = 18" "magic_matches raw"
    and "unat (message_length (sniffer_decode_meta raw)) \<le> maxp"
    and "length payload = unat (message_length (sniffer_decode_meta raw))"
  shows "complete_record maxp (raw @ payload)"
  using assms
  by (simp add: complete_record_def record_payload_length_def decode_meta_append magic_matches_def
      SNIFFER_META_SIZE_def)

section \<open>Segments of a stream\<close>

datatype segment =
    Skipped bytes          \<comment> \<open>bytes before a magic, given up to resynchronise\<close>
  | Tail bytes             \<comment> \<open>the same, but the stream ends before any magic\<close>
  | Rejected bytes         \<comment> \<open>a meta that announces more than the maximal payload\<close>
  | Partial_Meta bytes
  | Partial_Payload bytes
  | Record bytes

primrec seg_bytes :: "segment \<Rightarrow> bytes" where
  "seg_bytes (Skipped b) = b"
| "seg_bytes (Tail b) = b"
| "seg_bytes (Rejected b) = b"
| "seg_bytes (Partial_Meta b) = b"
| "seg_bytes (Partial_Payload b) = b"
| "seg_bytes (Record b) = b"

primrec seg_stored :: "segment \<Rightarrow> bytes" where
  "seg_stored (Skipped b) = []"
| "seg_stored (Tail b) = []"
| "seg_stored (Rejected b) = []"
| "seg_stored (Partial_Meta b) = []"
| "seg_stored (Partial_Payload b) = []"
| "seg_stored (Record b) = b"

primrec seg_stats :: "segment \<Rightarrow> SnifferStats \<Rightarrow> SnifferStats" where
  "seg_stats (Skipped b) st = st\<lparr>received_bytes := received_bytes st + of_nat (length b),
     magic_errors := magic_errors st + 1, discarded_bytes := discarded_bytes st + of_nat (length b),
     resynchronizations := resynchronizations st + 1\<rparr>"
| "seg_stats (Tail b) st = st\<lparr>received_bytes := received_bytes st + of_nat (length b),
     magic_errors := magic_errors st + 1, discarded_bytes := discarded_bytes st + of_nat (length b)\<rparr>"
| "seg_stats (Rejected b) st = st\<lparr>received_bytes := received_bytes st + of_nat (length b),
     invalid_lengths := invalid_lengths st + 1\<rparr>"
| "seg_stats (Partial_Meta b) st = st\<lparr>received_bytes := received_bytes st + of_nat (length b),
     truncated_meta := truncated_meta st + 1\<rparr>"
| "seg_stats (Partial_Payload b) st = st\<lparr>received_bytes := received_bytes st + of_nat (length b),
     truncated_payload := truncated_payload st + 1\<rparr>"
| "seg_stats (Record b) st = st\<lparr>received_bytes := received_bytes st + of_nat (length b),
     stored_bytes := stored_bytes st + of_nat (length b), records := records st + 1\<rparr>"

text \<open>The longest suffix that starts with the magic number, empty when there is none.\<close>

fun sync :: "bytes \<Rightarrow> bytes" where
  "sync [] = []"
| "sync (b # bs) = (if magic_matches (b # bs) then b # bs else sync bs)"

definition skipped :: "bytes \<Rightarrow> bytes" where
  "skipped bs = take (length bs - length (sync bs)) bs"

lemma sync_suffix: "\<exists>g. bs = g @ sync bs"
proof (induction bs)
  case (Cons b bs)
  then obtain g where "bs = g @ sync bs" by blast
  then have "b # bs = (b # g) @ sync bs" by simp
  then show ?case by (metis append_Nil sync.simps(2))
qed simp

lemma skipped_sync [simp]: "skipped bs @ sync bs = bs"
  by (metis append.assoc append_take_drop_id diff_diff_cancel le_add2 length_append append_eq_append_conv
      length_drop skipped_def sync_suffix)

lemma length_sync: "length (sync bs) \<le> length bs"
  by (metis le_add2 length_append skipped_sync)

lemma magic_matches_length: "magic_matches bs \<Longrightarrow> 4 \<le> length bs"
  unfolding magic_matches_def magic_bytes_def
  by (drule arg_cong [where f = length]) simp

lemma sync_matches: "sync bs \<noteq> [] \<Longrightarrow> magic_matches (sync bs)"
  by (induction bs) auto

lemma sync_same: "magic_matches bs \<Longrightarrow> sync bs = bs"
  by (cases bs) simp_all

lemma skipped_matches [simp]: "magic_matches bs \<Longrightarrow> skipped bs = []"
  by (simp add: skipped_def sync_same)

lemma sync_short: "length bs < 4 \<Longrightarrow> sync bs = []"
  using length_sync [of bs] magic_matches_length sync_matches by fastforce

text \<open>
  The segments of a stream, for payloads of at most \<open>m\<close> bytes and at most \<open>lim\<close> further
  records (\<open>None\<close>: no limit).
\<close>

function parse :: "nat \<Rightarrow> nat option \<Rightarrow> bytes \<Rightarrow> segment list" where
  "parse m lim bs =
     (if lim = Some 0 \<or> bs = [] then []
      else if length bs < 4 then [Partial_Meta bs]
      else if sync bs = [] then [Tail bs]
      else (if skipped bs = [] then [] else [Skipped (skipped bs)]) @
        (let r = sync bs; n = 18 + record_payload_length r in
         if length r < 18 then [Partial_Meta r]
         else if m < record_payload_length r then Rejected (take 18 r) # parse m lim (drop 18 r)
         else if length r < n then [Partial_Payload r]
         else Record (take n r) # parse m (map_option (\<lambda>k. k - 1) lim) (drop n r)))"
  by pat_completeness auto
termination
proof (relation "measure (\<lambda>(m, lim, bs). length bs)", goal_cases)
  case (2 m lim bs r n)
  then have "length (drop 18 r) < length r" by simp
  also have "\<dots> \<le> length bs" by (simp add: 2(4) length_sync)
  finally show ?case by simp
next
  case (3 m lim bs r n)
  then have "length (drop n r) < length r" by simp
  also have "\<dots> \<le> length bs" by (simp add: 3(4) length_sync)
  finally show ?case by simp
qed simp

declare parse.simps [simp del]

text \<open>What the capture adds to the file, to the counters and to the terminal.\<close>

definition parse_stored :: "segment list \<Rightarrow> bytes" where
  "parse_stored segs = concat (map seg_stored segs)"

definition parse_stats :: "segment list \<Rightarrow> SnifferStats \<Rightarrow> SnifferStats" where
  "parse_stats segs st = fold seg_stats segs st"

fun parse_printed :: "SnifferCaptureOptions \<Rightarrow> u64 \<Rightarrow> segment list \<Rightarrow> string" where
  "parse_printed opts pc [] = []"
| "parse_printed opts pc (Rejected b # segs) =
     (if print_records opts then print_meta (sniffer_decode_meta b) (pc + 1) else []) @
     parse_printed opts (pc + 1) segs"
| "parse_printed opts pc (Partial_Payload b # segs) =
     (if print_records opts then print_meta (sniffer_decode_meta b) (pc + 1) else []) @
     parse_printed opts (pc + 1) segs"
| "parse_printed opts pc (Record b # segs) =
     (if print_records opts then print_meta (sniffer_decode_meta b) (pc + 1) else []) @
     (if print_payload opts then print_payload_hex (drop 18 b) else []) @
     parse_printed opts (pc + 1) segs"
| "parse_printed opts pc (_ # segs) = parse_printed opts pc segs"

fun parse_records :: "segment list \<Rightarrow> bytes list" where
  "parse_records [] = []"
| "parse_records (Record b # segs) = b # parse_records segs"
| "parse_records (_ # segs) = parse_records segs"

lemma parse_stored_records: "parse_stored segs = concat (parse_records segs)"
  by (induction segs rule: parse_records.induct) (simp_all add: parse_stored_def)

lemma parse_stored_simps [simp]:
  "parse_stored [] = []" "parse_stored (x # xs) = seg_stored x @ parse_stored xs"
  "parse_stored (xs @ ys) = parse_stored xs @ parse_stored ys"
  by (simp_all add: parse_stored_def)

lemma parse_stats_simps [simp]:
  "parse_stats [] st = st" "parse_stats (x # xs) st = parse_stats xs (seg_stats x st)"
  "parse_stats (xs @ ys) st = parse_stats ys (parse_stats xs st)"
  by (simp_all add: parse_stats_def)

lemma parse_records_append [simp]: "parse_records (xs @ ys) = parse_records xs @ parse_records ys"
  by (induction xs rule: parse_records.induct) simp_all

section \<open>Facts of the segments\<close>

text \<open>The five ways to parse, with the suffix at which the parse resumes.\<close>

lemma parse_cases:
  obtains (stop) "lim = Some 0 \<or> bs = []" "parse m lim bs = []"
  | (short) "lim \<noteq> Some 0" "bs \<noteq> []" "length bs < 4" "parse m lim bs = [Partial_Meta bs]"
  | (tail) "lim \<noteq> Some 0" "4 \<le> length bs" "sync bs = []" "parse m lim bs = [Tail bs]"
  | (synced) pre x rest where "lim \<noteq> Some 0" "4 \<le> length bs"
      "pre = (if skipped bs = [] then [] else [Skipped (skipped bs)])"
      "magic_matches (sync bs)" "parse m lim bs = pre @ x # rest"
      "x = Partial_Meta (sync bs) \<and> rest = [] \<and> length (sync bs) < 18 \<or>
       x = Rejected (take 18 (sync bs)) \<and> rest = parse m lim (drop 18 (sync bs)) \<and>
         18 \<le> length (sync bs) \<and> m < record_payload_length (sync bs) \<or>
       x = Partial_Payload (sync bs) \<and> rest = [] \<and> 18 \<le> length (sync bs) \<and>
         record_payload_length (sync bs) \<le> m \<and>
         length (sync bs) < 18 + record_payload_length (sync bs) \<or>
       x = Record (take (18 + record_payload_length (sync bs)) (sync bs)) \<and>
         rest = parse m (map_option (\<lambda>k. k - 1) lim)
           (drop (18 + record_payload_length (sync bs)) (sync bs)) \<and>
         record_payload_length (sync bs) \<le> m \<and>
         18 + record_payload_length (sync bs) \<le> length (sync bs)"
proof -
  let ?pre = "if skipped bs = [] then [] else [Skipped (skipped bs)]"
  let ?r = "sync bs" and ?n = "18 + record_payload_length (sync bs)"
  consider "lim = Some 0 \<or> bs = []" | "lim \<noteq> Some 0" "bs \<noteq> []" "length bs < 4"
    | "lim \<noteq> Some 0" "4 \<le> length bs" "?r = []" | "lim \<noteq> Some 0" "4 \<le> length bs" "?r \<noteq> []"
    by fastforce
  then show thesis
  proof cases
    case 1
    then show thesis by (intro stop) (auto simp: parse.simps)
  next
    case 2
    then show thesis by (intro short) (simp_all add: parse.simps)
  next
    case 3
    then show thesis by (intro tail) (auto simp: parse.simps)
  next
    case 4
    then have p: "parse m lim bs = ?pre @
       (if length ?r < 18 then [Partial_Meta ?r]
        else if m < record_payload_length ?r then Rejected (take 18 ?r) # parse m lim (drop 18 ?r)
        else if length ?r < ?n then [Partial_Payload ?r]
        else Record (take ?n ?r) # parse m (map_option (\<lambda>k. k - 1) lim) (drop ?n ?r))"
      by (subst parse.simps) (auto simp: Let_def simp del: parse.simps)
    consider (a) "length ?r < 18" | (b) "18 \<le> length ?r" "m < record_payload_length ?r"
      | (c) "18 \<le> length ?r" "record_payload_length ?r \<le> m" "length ?r < ?n"
      | (d) "record_payload_length ?r \<le> m" "?n \<le> length ?r" by linarith
    then show thesis
    proof cases
      case a
      with p 4 show thesis by (intro synced [OF 4(1,2) refl, of "Partial_Meta ?r" "[]"]) (simp_all add: sync_matches)
    next
      case b
      with p 4 show thesis
        by (intro synced [OF 4(1,2) refl, of "Rejected (take 18 ?r)" "parse m lim (drop 18 ?r)"])
           (simp_all add: sync_matches)
    next
      case c
      with p 4 show thesis by (intro synced [OF 4(1,2) refl, of "Partial_Payload ?r" "[]"]) (simp_all add: sync_matches)
    next
      case d
      with p 4 show thesis
        by (intro synced [OF 4(1,2) refl, of "Record (take ?n ?r)"
              "parse m (map_option (\<lambda>k. k - 1) lim) (drop ?n ?r)"]) (simp_all add: sync_matches)
    qed
  qed
qed

text \<open>Nothing is lost or invented: without a record limit the segments are the stream.\<close>

lemma parse_bytes_prefix: "\<exists>rest. bs = concat (map seg_bytes (parse m lim bs)) @ rest \<and>
    (rest \<noteq> [] \<longrightarrow> lim \<noteq> None)"
proof (induction "length bs" arbitrary: bs lim rule: less_induct)
  case less
  show ?case
  proof (cases rule: parse_cases [of lim bs m])
    case (synced pre x rest)
    note split = synced
    have eq: "concat (map seg_bytes (parse m lim bs)) =
        skipped bs @ seg_bytes x @ concat (map seg_bytes rest)" by (simp add: split(3,5))
    have ne: "4 \<le> length (sync bs)" using split(4) by (rule magic_matches_length)
    show ?thesis
      using split(6)
    proof (elim disjE conjE, goal_cases)
      case 1
      then show ?case by (simp add: eq)
    next
      case 2
      have "length (drop 18 (sync bs)) < length bs" using length_sync [of bs] ne by simp
      from less [OF this, of lim] 2 obtain e where
        "drop 18 (sync bs) = concat (map seg_bytes rest) @ e" "e \<noteq> [] \<longrightarrow> lim \<noteq> None" by auto
      moreover have "skipped bs @ take 18 (sync bs) @ drop 18 (sync bs) = bs" by simp
      ultimately show ?case using 2 by (intro exI [of _ e]) (simp add: eq)
    next
      case 3
      then show ?case by (simp add: eq)
    next
      case 4
      let ?n = "18 + record_payload_length (sync bs)"
      have "length (drop ?n (sync bs)) < length bs" using length_sync [of bs] ne by simp
      from less [OF this, of "map_option (\<lambda>k. k - 1) lim"] 4 obtain e where
        "drop ?n (sync bs) = concat (map seg_bytes rest) @ e" "e \<noteq> [] \<longrightarrow> lim \<noteq> None" by auto
      moreover have "skipped bs @ take ?n (sync bs) @ drop ?n (sync bs) = bs" by simp
      ultimately show ?case using 4 by (intro exI [of _ e]) (simp add: eq)
    qed
  qed auto
qed

lemma parse_bytes: "concat (map seg_bytes (parse m None bs)) = bs"
  using parse_bytes_prefix [of bs m None] by auto

lemma parse_limit: "lim = Some k \<Longrightarrow> length (parse_records (parse m lim bs)) \<le> k"
proof (induction "length bs" arbitrary: bs lim k rule: less_induct)
  case less
  show ?case
  proof (cases rule: parse_cases [of lim bs m])
    case (synced pre x rest)
    have ne: "4 \<le> length (sync bs)" using synced(4) by (rule magic_matches_length)
    have pre: "parse_records pre = []" by (simp add: synced(3))
    have k: "0 < k" using less.prems synced(1) by auto
    show ?thesis
      using synced(6)
    proof (elim disjE conjE, goal_cases)
      case 2
      have "length (drop 18 (sync bs)) < length bs" using length_sync [of bs] ne by simp
      from less.hyps [OF this less.prems] 2 pre show ?case by (simp add: synced(5))
    next
      case 4
      have "length (drop (18 + record_payload_length (sync bs)) (sync bs)) < length bs"
        using length_sync [of bs] ne by simp
      from less.hyps [OF this, of "map_option (\<lambda>k. k - 1) lim" "k - 1"] less.prems 4
      have "length (parse_records rest) \<le> k - 1" by simp
      moreover have "length (parse_records (parse m lim bs)) = Suc (length (parse_records rest))"
        unfolding synced(5) 4 by (simp add: pre)
      ultimately show ?case using k by linarith
    qed (use pre in \<open>simp_all add: synced(5)\<close>)
  qed (simp_all)
qed

lemma decode_meta_take: "18 \<le> n \<Longrightarrow> 18 \<le> length r \<Longrightarrow> sniffer_decode_meta (take n r) = sniffer_decode_meta r"
  by (simp add: sniffer_decode_meta_def read_le16_def read_le32_def read_le64_def upt_small)

lemma parse_records_complete: "list_all (complete_record m) (parse_records (parse m lim bs))"
proof (induction "length bs" arbitrary: bs lim rule: less_induct)
  case less
  show ?case
  proof (cases rule: parse_cases [of lim bs m])
    case (synced pre x rest)
    have ne: "4 \<le> length (sync bs)" using synced(4) by (rule magic_matches_length)
    have pre: "parse_records pre = []" by (simp add: synced(3))
    show ?thesis
      using synced(6)
    proof (elim disjE conjE, goal_cases)
      case 2
      have "length (drop 18 (sync bs)) < length bs" using length_sync [of bs] ne by simp
      from less.hyps [OF this, of lim] 2 pre show ?case by (simp add: synced(5))
    next
      case 4
      let ?n = "18 + record_payload_length (sync bs)"
      have "length (drop ?n (sync bs)) < length bs" using length_sync [of bs] ne by simp
      note rec = less.hyps [OF this, of "map_option (\<lambda>k. k - 1) lim"]
      have "complete_record m (take ?n (sync bs))"
        using 4 synced(4)
        by (simp add: complete_record_def record_payload_length_def decode_meta_take SNIFFER_META_SIZE_def
            magic_matches_def)
      with rec 4 pre show ?case by (simp add: synced(5))
    qed (use pre in \<open>simp_all add: synced(5)\<close>)
  qed (simp_all)
qed

text \<open>A stream of complete records is cut exactly between them.\<close>

lemma parse_record_append:
  assumes r: "complete_record m r" and lim: "lim \<noteq> Some 0"
  shows "parse m lim (r @ rest) = Record r # parse m (map_option (\<lambda>k. k - 1) lim) rest"
proof -
  have len: "length r = 18 + record_payload_length r" and m: "record_payload_length r \<le> m"
    and mg: "magic_matches r"
    using r by (simp_all add: complete_record_def SNIFFER_META_SIZE_def)
  then have mg': "magic_matches (r @ rest)" by (simp add: magic_matches_def)
  have pl: "record_payload_length (r @ rest) = record_payload_length r"
    using decode_meta_take [of 18 r] decode_meta_take [of 18 "r @ rest"] len
    by (simp add: record_payload_length_def)
  have "r \<noteq> []" using len by auto
  then show ?thesis
    using lim len m mg' pl by (subst parse.simps) (simp add: sync_same Let_def)
qed

lemma parse_records_concat:
  assumes "list_all (complete_record m) rs"
  shows "parse m None (concat rs @ rest) = map Record rs @ parse m None rest"
  using assms by (induction rs) (simp_all add: parse_record_append)

text \<open>Garbage that shows no magic, not even together with what follows, is skipped exactly.\<close>

definition no_magic_before :: "bytes \<Rightarrow> bytes \<Rightarrow> bool" where
  "no_magic_before g rest \<longleftrightarrow> (\<forall>i < length g. \<not> magic_matches (drop i g @ rest))"

lemma sync_garbage: "no_magic_before g rest \<Longrightarrow> sync (g @ rest) = sync rest"
proof (induction g)
  case (Cons b g)
  then have "\<not> magic_matches ((b # g) @ rest)" by (auto simp: no_magic_before_def)
  moreover have "no_magic_before g rest"
    using Cons.prems unfolding no_magic_before_def by (metis Suc_mono drop_Suc_Cons length_Cons)
  ultimately show ?case using Cons.IH by simp
qed simp

lemma parse_garbage_record:
  assumes g: "no_magic_before g (r @ rest)" "g \<noteq> []" and r: "complete_record m r" and lim: "lim \<noteq> Some 0"
  shows "parse m lim (g @ r @ rest) =
    Skipped g # Record r # parse m (map_option (\<lambda>k. k - 1) lim) rest"
proof -
  have len: "length r = 18 + record_payload_length r" and m: "record_payload_length r \<le> m"
    and mg: "magic_matches r"
    using r by (simp_all add: complete_record_def SNIFFER_META_SIZE_def)
  then have "magic_matches (r @ rest)" by (simp add: magic_matches_def)
  then have sy: "sync (g @ r @ rest) = r @ rest" by (simp add: sync_garbage [OF g(1)] sync_same)
  then have sk: "skipped (g @ r @ rest) = g" by (simp add: skipped_def)
  have pl: "record_payload_length (r @ rest) = record_payload_length r"
    using decode_meta_take [of 18 r] decode_meta_take [of 18 "r @ rest"] len
    by (simp add: record_payload_length_def)
  have "r \<noteq> []" using len by auto
  then show ?thesis
    using lim len m pl g(2) by (subst parse.simps) (simp add: Let_def sy sk)
qed

end
