(* ===== verification/Mock_Transport.thy ===== *)
theory Mock_Transport
  imports Byte_Order Sniffer_Transport
begin

text \<open>
  The two transports of the repository's own test program, \<open>test_sniffer_storage.c\<close>:
  \<open>mock_read\<close> and \<open>mock_write\<close> over a byte array, and \<open>packet_read\<close> over a list of USB
  packets. They are the concrete sources of the witnesses, and both keep the contract of
  \<open>Sniffer_Transport\<close>: the mock serves any request, the packets only requests that hold a
  whole packet.
\<close>

record MockTransport =
  mk_input :: bytes
  mk_input_offset :: nat
  mk_max_read :: nat
  mk_timeouts_before_data :: nat
  mk_read_error_at :: nat
  mk_read_error_enabled :: bool
  mk_output :: bytes
  mk_max_write :: nat
  mk_write_timeouts_before_data :: nat

definition mock_init :: "bytes \<Rightarrow> MockTransport" where
  "mock_init input = \<lparr>mk_input = input, mk_input_offset = 0, mk_max_read = 0,
     mk_timeouts_before_data = 0, mk_read_error_at = 0, mk_read_error_enabled = False,
     mk_output = [], mk_max_write = 0, mk_write_timeouts_before_data = 0\<rparr>"

definition mock_read :: "MockTransport SnifferReadFn" where
  "mock_read mock capacity =
     (if 0 < mk_timeouts_before_data mock then
        (SNIFFER_IO_TIMEOUT, [],
         mock\<lparr>mk_timeouts_before_data := mk_timeouts_before_data mock - 1\<rparr>)
      else if mk_read_error_enabled mock \<and> mk_read_error_at mock \<le> mk_input_offset mock then
        (SNIFFER_IO_ERROR, [], mock)
      else if mk_input_offset mock = length (mk_input mock) then (SNIFFER_IO_EOF, [], mock)
      else
        let available = length (mk_input mock) - mk_input_offset mock;
            chunk = (if capacity < available then capacity else available);
            chunk = (if 0 < mk_max_read mock \<and> mk_max_read mock < chunk then mk_max_read mock else chunk)
        in (SNIFFER_IO_DATA, take chunk (drop (mk_input_offset mock) (mk_input mock)),
            mock\<lparr>mk_input_offset := mk_input_offset mock + chunk\<rparr>))"

definition mock_write :: "MockTransport SnifferWriteFn" where
  "mock_write mock data =
     (if 0 < mk_write_timeouts_before_data mock then
        (SNIFFER_IO_TIMEOUT, 0,
         mock\<lparr>mk_write_timeouts_before_data := mk_write_timeouts_before_data mock - 1\<rparr>)
      else
        let chunk = (if 0 < mk_max_write mock \<and> mk_max_write mock < length data
                     then mk_max_write mock else length data)
        in if 256 < length (mk_output mock) + chunk then (SNIFFER_IO_ERROR, 0, mock)
           else (SNIFFER_IO_DATA, chunk, mock\<lparr>mk_output := mk_output mock @ take chunk data\<rparr>))"

record PacketTransport =
  pk_packets :: "(bytes \<times> SnifferIoStatus) list"
  pk_index :: nat

definition packet_read :: "PacketTransport SnifferReadFn" where
  "packet_read packets capacity =
     (if pk_index packets = length (pk_packets packets) then (SNIFFER_IO_EOF, [], packets)
      else case pk_packets packets ! pk_index packets of (d, status) \<Rightarrow>
        if capacity < length d then (SNIFFER_IO_ERROR, [], packets)
        else (if status = SNIFFER_IO_EOF then SNIFFER_IO_DATA else status, d,
              packets\<lparr>pk_index := pk_index packets + 1\<rparr>))"

text \<open>The test program's own encoder of a frame, appended to the bytes before \<open>offset\<close>.\<close>

definition write_le16 :: "u16 \<Rightarrow> bytes" where
  "write_le16 value = [ucast value, ucast (drop_bit 8 value)]"

definition write_le32 :: "u32 \<Rightarrow> bytes" where
  "write_le32 value = map (\<lambda>index. ucast (drop_bit (index * 8) value)) [0..<4]"

definition write_le64 :: "u64 \<Rightarrow> bytes" where
  "write_le64 value = map (\<lambda>index. ucast (drop_bit (index * 8) value)) [0..<8]"

definition append_frame :: "bytes \<Rightarrow> u16 \<Rightarrow> u16 \<Rightarrow> bytes \<Rightarrow> u16 \<Rightarrow> u64 \<Rightarrow> bytes" where
  "append_frame data source sequence payload payload_length rx_time =
     data @ write_le32 0x0000BBBB @ write_le16 source @ write_le16 sequence @
     write_le16 payload_length @ write_le64 rx_time @ take (unat payload_length) payload"

lemma write_le_eq: "write_le16 a = putU16Le a" "write_le32 b = putU32Le b" "write_le64 c = putU64Le c"
  by (simp_all add: write_le16_def write_le32_def write_le64_def put_eq_le_bytes le_bytes_def upt_small)

section \<open>The mock is a byte stream\<close>

definition mock_pending :: "MockTransport \<Rightarrow> bytes" where
  "mock_pending mock = drop (mk_input_offset mock) (mk_input mock)"

definition mock_wf :: "MockTransport \<Rightarrow> bool" where
  "mock_wf mock \<longleftrightarrow> mk_input_offset mock \<le> length (mk_input mock) \<and> \<not> mk_read_error_enabled mock"

definition mock_fuel :: "MockTransport \<Rightarrow> nat" where
  "mock_fuel mock =
     mk_timeouts_before_data mock + (length (mk_input mock) - mk_input_offset mock)"

interpretation mock: byte_stream mock_read mock_pending mock_wf mock_fuel SNIFFER_IO_EOF
  by unfold_locales
     (auto simp: mock_read_def mock_pending_def mock_wf_def mock_fuel_def io_end_def Let_def
       split: if_splits)

section \<open>The packet list is a stream of packets\<close>

definition packet_pending :: "PacketTransport \<Rightarrow> bytes" where
  "packet_pending p = concat (map fst (drop (pk_index p) (pk_packets p)))"

text \<open>Packets fit \<open>m\<close> bytes, none reports an error, and a packet that reports data has some.\<close>

definition packet_wf :: "nat \<Rightarrow> PacketTransport \<Rightarrow> bool" where
  "packet_wf m p \<longleftrightarrow> pk_index p \<le> length (pk_packets p) \<and>
     list_all (\<lambda>(d, status). length d \<le> m \<and> status \<noteq> SNIFFER_IO_ERROR \<and>
       (status = SNIFFER_IO_DATA \<or> status = SNIFFER_IO_EOF \<longrightarrow> d \<noteq> [])) (pk_packets p)"

definition packet_fuel :: "PacketTransport \<Rightarrow> nat" where
  "packet_fuel p = length (packet_pending p) + (length (pk_packets p) - pk_index p)"

lemma packet_pending_step:
  assumes "pk_index p < length (pk_packets p)"
  shows "packet_pending p =
    fst (pk_packets p ! pk_index p) @ packet_pending (p\<lparr>pk_index := pk_index p + 1\<rparr>)"
proof -
  have "drop (pk_index p) (pk_packets p) =
      pk_packets p ! pk_index p # drop (Suc (pk_index p)) (pk_packets p)"
    using assms by (rule Cons_nth_drop_Suc [symmetric])
  then show ?thesis by (simp add: packet_pending_def)
qed

lemma packet_read_cases:
  assumes "packet_wf m p" "m \<le> n" "packet_read p n = (status, d, p')"
  obtains "pk_index p = length (pk_packets p)" "status = SNIFFER_IO_EOF" "d = []" "p' = p"
  | st where "pk_index p < length (pk_packets p)" "pk_packets p ! pk_index p = (d, st)"
      "p' = p\<lparr>pk_index := pk_index p + 1\<rparr>" "length d \<le> m" "\<not> io_end status"
      "status = SNIFFER_IO_DATA \<longrightarrow> d \<noteq> []"
proof (cases "pk_index p = length (pk_packets p)")
  case True
  show thesis by (rule that(1)) (use True assms(3) in \<open>auto simp: packet_read_def\<close>)
next
  case False
  with assms(1) have i: "pk_index p < length (pk_packets p)" by (simp add: packet_wf_def)
  obtain e st where e: "pk_packets p ! pk_index p = (e, st)" by (cases "pk_packets p ! pk_index p")
  then have "(e, st) \<in> set (pk_packets p)" using i nth_mem by metis
  with assms(1) have "length e \<le> m" "st \<noteq> SNIFFER_IO_ERROR"
    "st = SNIFFER_IO_DATA \<or> st = SNIFFER_IO_EOF \<longrightarrow> e \<noteq> []"
    by (auto simp: packet_wf_def list_all_iff)
  then show thesis using assms(2,3) i e
    by (intro that(2) [of st]) (auto simp: packet_read_def io_end_def split: if_splits)
qed

interpretation packets: packet_stream packet_read packet_pending "packet_wf m" m packet_fuel SNIFFER_IO_EOF
  for m
proof
  fix p n status d p'
  assume "packet_wf m p" "m \<le> n" "0 < n" "packet_read p n = (status, d, p')"
  note step = packet_read_cases [OF this(1,2,4)]
  show "packet_wf m p'"
    by (rule step) (use \<open>packet_wf m p\<close> in \<open>auto simp: packet_wf_def\<close>)
  show "length d \<le> n"
    by (rule step) (use \<open>m \<le> n\<close> in auto)
  show "packet_pending p = d @ packet_pending p'"
    by (rule step) (use packet_pending_step [of p] in \<open>auto simp: packet_pending_def\<close>)
  show "status = SNIFFER_IO_EOF \<and> d = [] \<and> packet_pending p' = []" if "io_end status"
    by (rule step) (use that in \<open>auto simp: packet_pending_def\<close>)
  show "packet_fuel p' < packet_fuel p \<and> packet_fuel p' + length d \<le> packet_fuel p" if "\<not> io_end status"
    by (rule step) (use that packet_pending_step [of p] in \<open>auto simp: packet_fuel_def io_end_def\<close>)
next
  fix p n d p'
  assume "packet_wf m p" "m \<le> n" "packet_read p n = (SNIFFER_IO_DATA, d, p')"
  then show "d \<noteq> []" by (rule packet_read_cases) auto
qed (simp add: io_end_def)

text \<open>
  Behind the staging buffer the packets are a byte stream for requests of any size, so the
  parser may ask for four bytes at a time.
\<close>

lemmas buffered_packets_stream = packets.buffered.byte_stream_axioms

end
