(* ===== verification/Capture_Refine.thy ===== *)
theory Capture_Refine
  imports Capture_Spec Mock_Transport
begin

text \<open>
  The capture refines its specification: over any byte stream, however it is chunked and
  however many timeouts it reports, \<open>sniffer_capture\<close> returns and does to the file, the
  counters and the terminal what \<open>Capture_Spec\<close> says of the bytes of the stream. The proof
  is done once, in the locale of the transport's contract, without a signal and with a file
  that accepts every write.
\<close>

definition end_result :: "SnifferIoStatus \<Rightarrow> ExactResult" where
  "end_result fin = (if fin = SNIFFER_IO_ERROR then EXACT_ERROR else EXACT_EOF)"

definition end_errors :: "SnifferIoStatus \<Rightarrow> u64" where
  "end_errors fin = (if fin = SNIFFER_IO_ERROR then 1 else 0)"

lemma end_result_simps [simp]: "end_result fin \<noteq> EXACT_OK" "end_result fin \<noteq> EXACT_STOPPED"
  "end_result fin = EXACT_EOF \<or> end_result fin = EXACT_ERROR"
  by (simp_all add: end_result_def)

text \<open>The state after \<open>n\<close> more bytes: the transport moved on to \<open>c\<close>, after \<open>t\<close> timeouts in all.\<close>

definition moved ::
    "'c capture_state \<Rightarrow> 'c \<Rightarrow> u64 \<Rightarrow> nat \<Rightarrow> u64 \<Rightarrow> 'c capture_state" where
  "moved s c t n e = s\<lparr>cs_context := c, cs_stats := (cs_stats s)\<lparr>
     received_bytes := received_bytes (cs_stats s) + of_nat n, read_timeouts := t,
     transport_errors := transport_errors (cs_stats s) + e\<rparr>\<rparr>"

lemma moved_simps [simp]:
  "cs_context (moved s c t n e) = c" "cs_running (moved s c t n e) = cs_running s"
  "cs_output (moved s c t n e) = cs_output s" "cs_printed (moved s c t n e) = cs_printed s"
  by (simp_all add: moved_def)

lemma moved_refl: "s = moved s (cs_context s) (read_timeouts (cs_stats s)) 0 0"
  by (simp add: moved_def)

lemma moved_moved: "moved (moved s c t n e) c' t' n' e' = moved s c' t' (n + n') (e + e')"
  by (simp add: moved_def add.assoc)

context byte_stream
begin

lemma read_exact_loop:
  assumes "wf (cs_context s)" "cs_running s = None" "length buf \<le> n"
  shows "\<exists>c t. c_loop (\<lambda>x. Some (read_exact_body rd n x)) (buf, s) =
      Some (if n \<le> length buf + length (pending (cs_context s)) then EXACT_OK else end_result fin,
        buf @ take (n - length buf) (pending (cs_context s)),
        moved s c t (min (n - length buf) (length (pending (cs_context s))))
          (if n \<le> length buf + length (pending (cs_context s)) then 0 else end_errors fin)) \<and>
      wf c \<and> pending c = drop (n - length buf) (pending (cs_context s))"
  using assms
proof (induction "fuel (cs_context s)" arbitrary: s buf rule: less_induct)
  case less
  let ?P = "pending (cs_context s)"
  show ?case
  proof (cases "length buf < n")
    case False
    with less.prems(3) have "length buf = n" by simp
    then show ?thesis
      using moved_refl [of s] less.prems
      by (subst c_loop.simps) (auto simp: read_exact_body_def
          intro!: exI [of _ "cs_context s"] exI [of _ "read_timeouts (cs_stats s)"])
  next
    case True
    let ?k = "n - length buf"
    have k: "0 < ?k" using True by simp
    obtain status d c' where r: "rd (cs_context s) ?k = (status, d, c')"
      by (cases "rd (cs_context s) ?k") auto
    note up = rd_wf [OF less.prems(1) k r] rd_length [OF less.prems(1) k r]
      rd_pending [OF less.prems(1) k r]
    show ?thesis
    proof (cases "io_end status")
      case ends: True
      from rd_end [OF less.prems(1) k r ends] have e: "status = fin" "d = []" "pending c' = []" by auto
      then have "?P = []" using up(3) by simp
      with e ends True r less.prems(2) up show ?thesis
        by (subst c_loop.simps)
           (auto simp: read_exact_body_def Let_def io_end_def end_result_def end_errors_def moved_def
             intro!: exI [of _ c'] exI [of _ "read_timeouts (cs_stats s)"])
    next
      case live: False
      from rd_live [OF less.prems(1) k r live] have f: "fuel c' < fuel (cs_context s)" by simp
      let ?t = "if status = SNIFFER_IO_TIMEOUT then read_timeouts (cs_stats s) + 1 else read_timeouts (cs_stats s)"
      let ?s = "moved s c' ?t (length d) 0"
      have "status = SNIFFER_IO_DATA \<Longrightarrow> d \<noteq> []" using rd_data [OF less.prems(1) k] r by blast
      then have body: "read_exact_body rd n (buf, s) = Inr (buf @ d, ?s)"
        using True r less.prems(2) up(2) live
        by (cases status) (auto simp: read_exact_body_def Let_def moved_def io_end_def)
      have len: "length (buf @ d) \<le> n" using up(2) True by simp
      from less.hyps [of ?s "buf @ d"] f up(1) less.prems(2) len obtain c t where
        IH: "c_loop (\<lambda>x. Some (read_exact_body rd n x)) (buf @ d, ?s) =
          Some (if n \<le> length (buf @ d) + length (pending c') then EXACT_OK else end_result fin,
            (buf @ d) @ take (n - length (buf @ d)) (pending c'),
            moved ?s c t (min (n - length (buf @ d)) (length (pending c')))
              (if n \<le> length (buf @ d) + length (pending c') then 0 else end_errors fin))"
        "wf c" "pending c = drop (n - length (buf @ d)) (pending c')" by auto
      have "length d + min (n - length (buf @ d)) (length (pending c')) = min ?k (length ?P)"
        using up(2,3) by simp
      then show ?thesis
        using IH up(2,3) body
        by (intro exI [of _ c] exI [of _ t], subst c_loop.simps) (simp add: moved_moved add.assoc)
    qed
  qed
qed

lemma read_exact_stream:
  assumes "wf (cs_context s)" "cs_running s = None" "pending (cs_context s) = P"
  obtains (ok) c t where "n \<le> length P" "read_exact rd n s = Some (EXACT_OK, take n P, moved s c t n 0)"
      "wf c" "pending c = drop n P"
  | (ends) c t where "length P < n"
      "read_exact rd n s = Some (end_result fin, P, moved s c t (length P) (end_errors fin))"
      "wf c" "pending c = []"
proof -
  from read_exact_loop [OF assms(1,2), of "[]" n] assms(3) obtain c t where
    "read_exact rd n s = Some (if n \<le> length P then EXACT_OK else end_result fin, take n P,
       moved s c t (min n (length P)) (if n \<le> length P then 0 else end_errors fin))"
    "wf c" "pending c = drop n P" by (auto simp: read_exact_def)
  then show thesis using ok [of c t] ends [of c t] by (cases "n \<le> length P") auto
qed

text \<open>Resynchronisation moves the window to the next magic of the stream.\<close>

lemma resync_stream:
  assumes "wf (cs_context s)" "cs_running s = None" "length raw = 4"
    and "pending (cs_context s) = P"
  shows "\<exists>c t. wf c \<and> c_loop (resync_body rd) (raw, disc, s) =
     (if sync (raw @ P) = []
      then Some (Some (end_result fin), drop (length P) (raw @ P), disc + of_nat (length P),
        upd_stats (\<lambda>st. st\<lparr>discarded_bytes := discarded_bytes st + (disc + of_nat (length P) + 4)\<rparr>)
          (moved s c t (length P) (end_errors fin)))
      else Some (None, take 4 (sync (raw @ P)), disc + of_nat (length (raw @ P) - length (sync (raw @ P))),
        moved s c t (length (raw @ P) - length (sync (raw @ P))) 0)) \<and>
     pending c = drop 4 (sync (raw @ P))"
  using assms
proof (induction P arbitrary: raw disc s)
  case Nil
  show ?case
  proof (cases "magic_matches raw")
    case True
    then show ?thesis
      using Nil moved_refl [of s]
      by (subst c_loop.simps) (auto simp: resync_body_def sync_same
          intro!: exI [of _ "cs_context s"] exI [of _ "read_timeouts (cs_stats s)"])
  next
    case False
    then have "sync raw = []"
      using Nil(3) sync_short [of "tl raw"] by (cases raw) simp_all
    moreover obtain c t where "read_exact rd 1 s = Some (end_result fin, [], moved s c t 0 (end_errors fin))"
      "wf c" "pending c = []"
      by (rule read_exact_stream [OF Nil(1,2,4), of 1]) auto
    ultimately show ?thesis
      using False Nil
      by (intro exI [of _ c] exI [of _ t], subst c_loop.simps)
         (simp add: resync_body_def)
  qed
next
  case (Cons p P)
  show ?case
  proof (cases "magic_matches raw")
    case True
    then have "magic_matches (raw @ p # P)" using Cons.prems(3) by (simp add: magic_matches_def)
    then show ?thesis
      using Cons.prems True moved_refl [of s]
      by (subst c_loop.simps) (auto simp: resync_body_def sync_same
          intro!: exI [of _ "cs_context s"] exI [of _ "read_timeouts (cs_stats s)"])
  next
    case False
    obtain c1 t1 where r: "read_exact rd 1 s = Some (EXACT_OK, [p], moved s c1 t1 1 0)"
      "wf c1" "pending c1 = P"
      by (rule read_exact_stream [OF Cons.prems(1,2,4), of 1]) auto
    obtain b w where raw: "raw = b # w" using Cons.prems(3) by (cases raw) auto
    have sy: "sync (raw @ p # P) = sync ((tl raw @ [p]) @ P)"
      using False Cons.prems(3) by (simp add: raw magic_matches_def)
    have len: "length (tl raw @ [p]) = 4" using Cons.prems(3) by simp
    have body: "resync_body rd (raw, disc, s) = Some (Inr (tl raw @ [p], disc + 1, moved s c1 t1 1 0))"
      using False r Cons.prems(2) by (simp add: resync_body_def)
    have le: "length (sync (raw @ p # P)) \<le> length ((tl raw @ [p]) @ P)"
      unfolding sy by (rule length_sync)
    have len': "length ((tl raw @ [p]) @ P) = 4 + length P" using len by simp
    have n: "length (raw @ p # P) - length (sync (raw @ p # P)) =
        Suc (4 + length P - length (sync (raw @ p # P)))"
      using le len' Cons.prems(3) by simp
    from Cons.IH [of "moved s c1 t1 1 0" "tl raw @ [p]" "disc + 1"] r Cons.prems(2) len obtain c t where
      IH: "wf c" "c_loop (resync_body rd) (tl raw @ [p], disc + 1, moved s c1 t1 1 0) =
       (if sync (raw @ p # P) = []
        then Some (Some (end_result fin), drop (length P) ((tl raw @ [p]) @ P), (disc + 1) + of_nat (length P),
          upd_stats (\<lambda>st. st\<lparr>discarded_bytes := discarded_bytes st + ((disc + 1) + of_nat (length P) + 4)\<rparr>)
            (moved (moved s c1 t1 1 0) c t (length P) (end_errors fin)))
        else Some (None, take 4 (sync (raw @ p # P)),
          (disc + 1) + of_nat (length ((tl raw @ [p]) @ P) - length (sync (raw @ p # P))),
          moved (moved s c1 t1 1 0) c t (length ((tl raw @ [p]) @ P) - length (sync (raw @ p # P))) 0))"
      "pending c = drop 4 (sync (raw @ p # P))"
      unfolding sy by auto
    show ?thesis
      unfolding n using IH body len'
      by (intro exI [of _ c] exI [of _ t], subst c_loop.simps)
         (simp add: moved_moved raw add.assoc add.commute [of 4])
  qed
qed

end

section \<open>Counters and files along the segments\<close>

lemma seg_stats_reads [simp]:
  "read_timeouts (seg_stats x st) = read_timeouts st"
  "transport_errors (seg_stats x st) = transport_errors st"
  by (cases x; simp)+

lemma seg_stats_upd:
  "seg_stats x (st\<lparr>read_timeouts := t, transport_errors := e\<rparr>) =
     (seg_stats x st)\<lparr>read_timeouts := t, transport_errors := e\<rparr>"
  by (cases x) simp_all

lemma parse_stats_reads [simp]:
  "read_timeouts (parse_stats xs st) = read_timeouts st"
  "transport_errors (parse_stats xs st) = transport_errors st"
  by (induction xs arbitrary: st) simp_all

lemma parse_stats_upd:
  "parse_stats xs (st\<lparr>read_timeouts := t, transport_errors := e\<rparr>) =
     (parse_stats xs st)\<lparr>read_timeouts := t, transport_errors := e\<rparr>"
  by (induction xs arbitrary: st) (simp_all add: seg_stats_upd)

text \<open>What the segments \<open>xs\<close> leave behind: file, counters and terminal.\<close>

definition leave ::
    "SnifferCaptureOptions \<Rightarrow> u64 \<Rightarrow> segment list \<Rightarrow> 'c capture_state \<Rightarrow> 'c capture_state" where
  "leave opts pc xs s = s\<lparr>cs_stats := parse_stats xs (cs_stats s),
     cs_output := (cs_output s)\<lparr>fl_data := fl_data (cs_output s) @ parse_stored xs\<rparr>,
     cs_printed := cs_printed s @ parse_printed opts pc xs\<rparr>"

lemma leave_simps [simp]:
  "cs_context (leave opts pc xs s) = cs_context s" "cs_running (leave opts pc xs s) = cs_running s"
  "cs_stats (leave opts pc xs s) = parse_stats xs (cs_stats s)"
  "fl_data (cs_output (leave opts pc xs s)) = fl_data (cs_output s) @ parse_stored xs"
  "fl_accept (cs_output (leave opts pc xs s)) = fl_accept (cs_output s)"
  "fl_flush (cs_output (leave opts pc xs s)) = fl_flush (cs_output s)"
  "cs_printed (leave opts pc xs s) = cs_printed s @ parse_printed opts pc xs"
  by (simp_all add: leave_def)

text \<open>\<open>printed_count\<close> is what the segments add to \<open>packet_count\<close>.\<close>

fun printed_count :: "segment list \<Rightarrow> u64" where
  "printed_count [] = 0"
| "printed_count (Rejected b # xs) = 1 + printed_count xs"
| "printed_count (Partial_Payload b # xs) = 1 + printed_count xs"
| "printed_count (Record b # xs) = 1 + printed_count xs"
| "printed_count (_ # xs) = printed_count xs"

lemma parse_printed_append:
  "parse_printed opts pc (xs @ ys) =
     parse_printed opts pc xs @ parse_printed opts (pc + printed_count xs) ys"
  by (induction opts pc xs rule: parse_printed.induct) (simp_all add: add.assoc)

lemma leave_leave: "leave opts (pc + printed_count xs) ys (leave opts pc xs s) = leave opts pc (xs @ ys) s"
  by (simp add: leave_def parse_printed_append)

lemma leave_moved:
  "leave opts pc xs (moved s c t 0 e) = moved (leave opts pc xs s) c t 0 e"
  by (simp add: leave_def moved_def parse_stats_upd)

text \<open>A file that accepts everything.\<close>

definition accepts_all :: "out_file \<Rightarrow> bool" where
  "accepts_all f \<longleftrightarrow> fl_accept f = [] \<and> fl_flush f = []"

lemma accepts_all_leave [simp]:
  "accepts_all (cs_output (leave opts pc xs s)) = accepts_all (cs_output s)"
  by (simp add: accepts_all_def)

lemma write_file_all_accepts:
  assumes "fl_accept (cs_output s) = []"
  shows "write_file_all d s = (0, s\<lparr>cs_output := (cs_output s)\<lparr>fl_data := fl_data (cs_output s) @ d\<rparr>,
    cs_stats := (cs_stats s)\<lparr>stored_bytes := stored_bytes (cs_stats s) + of_nat (length d)\<rparr>\<rparr>)"
  using assms
  by (cases "d = []") (simp_all add: write_file_all.simps [of d] write_file_all.simps [of "[]"] fwrite_def Let_def)

lemma store_record_accepts:
  assumes "accepts_all (cs_output s)"
  shows "store_record opts raw payload s =
    (0, s\<lparr>cs_output := (cs_output s)\<lparr>fl_data := fl_data (cs_output s) @ raw @ payload\<rparr>,
      cs_stats := (cs_stats s)\<lparr>stored_bytes := stored_bytes (cs_stats s) + of_nat (length (raw @ payload)),
        records := records (cs_stats s) + 1\<rparr>\<rparr>)"
  using assms
  by (simp add: store_record_def accepts_all_def write_file_all_accepts fflush_def add.assoc)

section \<open>The next meta of a stream\<close>

context byte_stream
begin

lemma read_meta_rest_stream:
  assumes "wf (cs_context s)" "cs_running s = None" "pending (cs_context s) = P" "length raw = 4"
  obtains (ok) c t where "18 \<le> length (raw @ P)"
      "read_meta_rest rd raw s = Some (EXACT_OK, take 18 (raw @ P), moved s c t 14 0)"
      "wf c" "pending c = drop 18 (raw @ P)"
  | (ends) c t where "length (raw @ P) < 18"
      "read_meta_rest rd raw s = Some (end_result fin, raw @ P,
         upd_stats (\<lambda>st. st\<lparr>truncated_meta := truncated_meta st + 1\<rparr>)
           (moved s c t (length P) (end_errors fin)))"
      "wf c" "pending c = []"
proof (rule read_exact_stream [OF assms(1-3), of 14], goal_cases)
  case (1 c t)
  show thesis
    by (rule ok [of c t]) (use 1 assms(4) in \<open>simp_all add: read_meta_rest_def SNIFFER_META_SIZE_def\<close>)
next
  case (2 c t)
  show thesis
    by (rule ends [of c t])
       (use 2 assms(4) in \<open>simp_all add: read_meta_rest_def SNIFFER_META_SIZE_def\<close>)
qed

lemma read_next_meta_stream:
  assumes "wf (cs_context s)" "cs_running s = None" "pending (cs_context s) = P"
  obtains (nothing_left) c t where "P = []"
      "read_next_meta rd s = Some (end_result fin, [], moved s c t 0 (end_errors fin))" "wf c" "pending c = []"
  | (lost) c t raw xs where "P \<noteq> []" "length P < 4 \<and> xs = [Partial_Meta P] \<or>
        4 \<le> length P \<and> sync P = [] \<and> xs = [Tail P] \<or>
        4 \<le> length P \<and> sync P \<noteq> [] \<and> length (sync P) < 18 \<and>
          xs = (if skipped P = [] then [] else [Skipped (skipped P)]) @ [Partial_Meta (sync P)]"
      "read_next_meta rd s = Some (end_result fin, raw, moved (leave opts pc xs s) c t 0 (end_errors fin))"
      "wf c" "pending c = []"
  | (found) c t where "18 \<le> length (sync P)"
      "read_next_meta rd s = Some (EXACT_OK, take 18 (sync P),
         moved (leave opts pc (if skipped P = [] then [] else [Skipped (skipped P)]) s) c t 18 0)"
      "wf c" "pending c = drop 18 (sync P)"
proof (rule read_exact_stream [OF assms, of 4], goal_cases)
  case (2 c t)
  then show thesis
    by (cases "P = []")
       (auto simp: read_next_meta_def leave_def moved_def
         intro: nothing_left [of c t] lost [of "[Partial_Meta P]" P c t])
next
  case (1 c t)
  let ?raw = "take 4 P" and ?s = "moved s c t 4 0"
  have len: "length ?raw = 4" and P: "?raw @ drop 4 P = P" using 1(4) by simp_all
  have s: "wf (cs_context ?s)" "cs_running ?s = None" "pending (cs_context ?s) = drop 4 P"
    using 1 assms(2) by simp_all
  show thesis
  proof (cases "magic_matches ?raw")
    case True
    then have m: "magic_matches P" by (simp add: magic_matches_def)
    then have sy: "sync P = P" "skipped P = []" by (simp_all add: sync_same)
    have eq: "read_next_meta rd s = read_meta_rest rd ?raw ?s"
      using 1 True by (simp add: read_next_meta_def)
    show thesis
    proof (rule read_meta_rest_stream [OF s len], goal_cases)
      case (1 c' t')
      then show thesis using sy eq P
        by (intro found [of c' t']) (simp_all add: moved_moved leave_def)
    next
      case (2 c' t')
      then show thesis using sy eq P m magic_matches_length [OF m]
        by (intro lost [of "[Partial_Meta P]" "?raw @ drop 4 P" c' t'])
           (auto simp: moved_def leave_def)
    qed
  next
    case False
    let ?s1 = "upd_stats (\<lambda>st. st\<lparr>magic_errors := magic_errors st + 1\<rparr>) ?s"
    have nm: "\<not> magic_matches P" using False by (simp add: magic_matches_def)
    have s1: "wf (cs_context ?s1)" "cs_running ?s1 = None" "pending (cs_context ?s1) = drop 4 P"
      using s by simp_all
    from resync_stream [OF s1(1,2) len s1(3), of 0, unfolded P] obtain c' t' where w: "wf c'"
      and l: "c_loop (resync_body rd) (?raw, 0, ?s1) =
      (if sync P = []
       then Some (Some (end_result fin), drop (length (drop 4 P)) P, 0 + of_nat (length (drop 4 P)),
         upd_stats (\<lambda>st. st\<lparr>discarded_bytes := discarded_bytes st + (0 + of_nat (length (drop 4 P)) + 4)\<rparr>)
           (moved ?s1 c' t' (length (drop 4 P)) (end_errors fin)))
       else Some (None, take 4 (sync P), 0 + of_nat (length P - length (sync P)),
         moved ?s1 c' t' (length P - length (sync P)) 0))" and p': "pending c' = drop 4 (sync P)"
      by blast
    show thesis
    proof (cases "sync P = []")
      case True
      let ?n = "of_nat (length P - 4) :: u64"
      have n: "of_nat (length P) = 4 + ?n"
        using 1(4) by (metis le_add_diff_inverse of_nat_add of_nat_numeral)
      have lost_state: "upd_stats (\<lambda>st. st\<lparr>discarded_bytes := discarded_bytes st + (?n + 4)\<rparr>)
          (moved ?s1 c' t' (length P - 4) (end_errors fin)) =
          moved (leave opts pc [Tail P] s) c' t' 0 (end_errors fin)"
        by (simp add: leave_def moved_def n add_ac)
      have "read_next_meta rd s = Some (end_result fin, drop (length P - 4) P,
          upd_stats (\<lambda>st. st\<lparr>discarded_bytes := discarded_bytes st + (?n + 4)\<rparr>)
            (moved ?s1 c' t' (length P - 4) (end_errors fin)))"
        using 1(5) False l True by (simp add: read_next_meta_def)
      from this [unfolded lost_state] show thesis
        using 1(4) w p' True by (intro lost [of "[Tail P]" _ c' t']) auto
    next
      case sy: False
      let ?g = "skipped P"
      have g: "length P - length (sync P) = length ?g" by (simp add: skipped_def)
      have gne: "?g \<noteq> []" using nm sync_matches [OF sy] by (metis append_Nil skipped_sync)
      define s2 where "s2 = upd_stats (\<lambda>st. st\<lparr>resynchronizations := resynchronizations st + 1\<rparr>)
        (upd_stats (\<lambda>st. st\<lparr>discarded_bytes := discarded_bytes st + of_nat (length ?g)\<rparr>)
          (moved ?s1 c' t' (length ?g) 0))"
      have eq: "read_next_meta rd s = read_meta_rest rd (take 4 (sync P)) s2"
        using 1 False l sy assms(2) by (simp add: read_next_meta_def g s2_def)
      have ms: "magic_matches (sync P)" by (rule sync_matches [OF sy])
      have len2: "length (take 4 (sync P)) = 4" using magic_matches_length [OF ms] by simp
      have s2: "wf (cs_context s2)" "cs_running s2 = None" "pending (cs_context s2) = drop 4 (sync P)"
        using w p' assms(2) by (simp_all add: s2_def)
      have moved2: "moved s2 c'' t'' n e = moved (leave opts pc [Skipped ?g] s) c'' t'' (4 + n) e" for c'' t'' n e
        by (simp add: s2_def moved_def leave_def add_ac)
      have lost2: "upd_stats (\<lambda>st. st\<lparr>truncated_meta := truncated_meta st + 1\<rparr>) (moved s2 c'' t'' n e) =
          moved (leave opts pc [Skipped ?g, Partial_Meta b] s) c'' t'' 0 e"
        if "length b = 4 + n" for b c'' t'' n e
        by (simp add: s2_def moved_def leave_def that add_ac)
      show thesis
      proof (rule read_meta_rest_stream [OF s2 len2], goal_cases)
        case (1 c'' t'')
        then show thesis using eq gne
          by (intro found [of c'' t'']) (simp_all add: moved2)
      next
        case (2 c'' t'')
        have n: "length (sync P) = 4 + length (drop 4 (sync P))" using len2 by simp
        note lost_state = lost2 [OF n, of c'' t'' "end_errors fin"]
        have "read_next_meta rd s = Some (end_result fin, take 4 (sync P) @ drop 4 (sync P),
            moved (leave opts pc [Skipped ?g, Partial_Meta (sync P)] s) c'' t'' 0 (end_errors fin))"
          unfolding eq 2(2) lost_state ..
        then show thesis using gne sy 1(4) 2
          by (intro lost [of "[Skipped ?g, Partial_Meta (sync P)]" _ c'' t'']) auto
      qed
    qed
  qed
qed

end

section \<open>The capture of a stream\<close>

definition limit_of :: "SnifferCaptureOptions \<Rightarrow> 'c capture_state \<Rightarrow> nat option" where
  "limit_of opts s = (if max_records opts = 0 then None
     else Some (unat (max_records opts) - unat (records (cs_stats s))))"

definition end_status :: "SnifferIoStatus \<Rightarrow> int" where
  "end_status fin = (if fin = SNIFFER_IO_ERROR then -1 else 0)"

lemma limit_guard:
  "max_records opts = 0 \<or> records (cs_stats s) < max_records opts \<longleftrightarrow> limit_of opts s \<noteq> Some 0"
  by (auto simp: limit_of_def word_less_nat_alt)

lemma records_seg_stats [simp]:
  "records (seg_stats x st) = (case x of Record b \<Rightarrow> records st + 1 | _ \<Rightarrow> records st)"
  by (cases x) simp_all

lemma limit_of_moved [simp]: "limit_of opts (moved s c t n e) = limit_of opts s"
  by (simp add: limit_of_def moved_def)

lemma limit_of_leave_same:
  "parse_records xs = [] \<Longrightarrow> limit_of opts (leave opts pc xs s) = limit_of opts s"
proof -
  have "parse_records xs = [] \<Longrightarrow> records (parse_stats xs st) = records st" for st
    by (induction xs arbitrary: st rule: parse_records.induct) simp_all
  then show "parse_records xs = [] \<Longrightarrow> limit_of opts (leave opts pc xs s) = limit_of opts s"
    by (simp add: limit_of_def)
qed

lemma limit_of_record:
  assumes "limit_of opts s \<noteq> Some 0"
  shows "limit_of opts (leave opts pc [Record b] s) = map_option (\<lambda>k. k - 1) (limit_of opts s)"
proof (cases "max_records opts = 0")
  case False
  with assms have "records (cs_stats s) < max_records opts" using limit_guard by blast
  then have "unat (records (cs_stats s) + 1) = Suc (unat (records (cs_stats s)))"
    using unsigned_less [of "max_records opts", where 'a=nat]
    by (simp add: unat_word_ariths word_less_nat_alt)
  with False show ?thesis by (simp add: limit_of_def)
qed (simp add: limit_of_def)

text \<open>The state changes of one iteration, as segments.\<close>

definition print_found ::
    "SnifferCaptureOptions \<Rightarrow> u64 \<Rightarrow> bytes \<Rightarrow> 'c capture_state \<Rightarrow> 'c capture_state" where
  "print_found opts pc raw s =
     out_print (print_records opts) (print_meta (sniffer_decode_meta raw) (pc + 1)) s"

lemma leave_rejected:
  "length b = 18 \<Longrightarrow>
   upd_stats (\<lambda>st. st\<lparr>invalid_lengths := invalid_lengths st + 1\<rparr>) (print_found opts pc b (moved s c t 18 0)) =
   moved (leave opts pc [Rejected b] s) c t 0 0"
  by (simp add: print_found_def out_print_def leave_def moved_def)

lemma leave_partial_payload:
  assumes "18 \<le> length r"
  shows "upd_stats (\<lambda>st. st\<lparr>truncated_payload := truncated_payload st + 1\<rparr>)
      (moved (print_found opts pc (take 18 r) (moved s c t 18 0)) c' t' (length r - 18) e) =
    moved (leave opts pc [Partial_Payload r] s) c' t' 0 e"
proof -
  have "of_nat (length r) = (18 :: u64) + of_nat (length r - 18)"
    using assms by (metis le_add_diff_inverse of_nat_add of_nat_numeral)
  then show ?thesis
    using assms by (simp add: print_found_def out_print_def leave_def moved_def decode_meta_take add.assoc)
qed

definition stored_state ::
    "SnifferCaptureOptions \<Rightarrow> bytes \<Rightarrow> bytes \<Rightarrow> 'c capture_state \<Rightarrow> 'c capture_state" where
  "stored_state opts raw payload s = (let s = out_print (print_payload opts) (print_payload_hex payload) s in
     s\<lparr>cs_output := (cs_output s)\<lparr>fl_data := fl_data (cs_output s) @ raw @ payload\<rparr>,
       cs_stats := (cs_stats s)\<lparr>stored_bytes := stored_bytes (cs_stats s) + of_nat (length (raw @ payload)),
         records := records (cs_stats s) + 1\<rparr>\<rparr>)"

lemma leave_record:
  assumes "length raw = 18"
  shows "stored_state opts raw payload
      (moved (print_found opts pc raw (moved s c t 18 0)) c' t' (length payload) 0) =
    moved (leave opts pc [Record (raw @ payload)] s) c' t' 0 0"
  using assms
  by (simp add: stored_state_def print_found_def out_print_def leave_def moved_def decode_meta_append add.assoc Let_def)

context byte_stream
begin

lemma found_state:
  assumes "wf c" "cs_running s = None"
  shows "wf (cs_context (print_found opts pc raw (moved s c t 18 0)))"
    "cs_running (print_found opts pc raw (moved s c t 18 0)) = None"
    "cs_context (print_found opts pc raw (moved s c t 18 0)) = c"
  using assms by (simp_all add: print_found_def out_print_def)

lemma capture_body_found:
  assumes "wf (cs_context s)" "cs_running s = None" "accepts_all (cs_output s)" "limit_of opts s \<noteq> Some 0"
    and m: "read_next_meta rd s = Some (EXACT_OK, take 18 r, moved s1 c t 18 0)"
    and r: "18 \<le> length r" "wf c" "pending c = drop 18 r"
    and s1: "cs_running s1 = None" "accepts_all (cs_output s1)"
  obtains
    (rejected) "max_payload opts < record_payload_length r"
      "capture_body rd opts (pc, s) = Some (Inr (pc + 1, moved (leave opts pc [Rejected (take 18 r)] s1) c t 0 0))"
  | (partial) c' t' where "record_payload_length r \<le> max_payload opts"
      "length r < 18 + record_payload_length r"
      "capture_body rd opts (pc, s) = Some (Inl (end_status fin,
         moved (leave opts pc [Partial_Payload r] s1) c' t' 0 (end_errors fin)))"
      "wf c'" "pending c' = []"
  | (recorded) c' t' where "record_payload_length r \<le> max_payload opts"
      "18 + record_payload_length r \<le> length r"
      "capture_body rd opts (pc, s) = Some (Inr (pc + 1,
         moved (leave opts pc [Record (take (18 + record_payload_length r) r)] s1) c' t' 0 0))"
      "wf c'" "pending c' = drop (18 + record_payload_length r) r"
proof -
  let ?L = "record_payload_length r" and ?p = "print_found opts pc (take 18 r) (moved s1 c t 18 0)"
  have L: "unat (message_length (sniffer_decode_meta (take 18 r))) = ?L"
    using r(1) by (simp add: decode_meta_take record_payload_length_def)
  note body = capture_body_def [of rd opts] assms(2,4) m L limit_guard Let_def print_found_def [symmetric]
  note fs = found_state [OF r(2) s1(1), of opts pc "take 18 r" t]
  show thesis
  proof (cases "max_payload opts < ?L")
    case True
    have "capture_body rd opts (pc, s) = Some (Inr (pc + 1,
        upd_stats (\<lambda>st. st\<lparr>invalid_lengths := invalid_lengths st + 1\<rparr>) ?p))"
      by (simp add: body True)
    then show thesis using True r(1) by (intro rejected) (simp_all only: leave_rejected length_take min_absorb2)
  next
    case le: False
    have fp: "pending (cs_context ?p) = drop 18 r" using fs(3) r(3) by simp
    show thesis
    proof (rule read_exact_stream [OF fs(1,2) fp, of ?L])
      fix c' t'
      assume e: "?L \<le> length (drop 18 r)" "wf c'" "pending c' = drop ?L (drop 18 r)"
        and x: "read_exact rd ?L ?p = Some (EXACT_OK, take ?L (drop 18 r), moved ?p c' t' ?L 0)"
      let ?d = "take ?L (drop 18 r)"
      have acc: "accepts_all (cs_output (out_print (print_payload opts) (print_payload_hex ?d) (moved ?p c' t' ?L 0)))"
        using s1(2) by (simp add: print_found_def)
      have "capture_body rd opts (pc, s) = Some (Inr (pc + 1, stored_state opts (take 18 r) ?d (moved ?p c' t' ?L 0)))"
        using le by (simp add: body x store_record_accepts [OF acc] stored_state_def)
      also have "stored_state opts (take 18 r) ?d (moved ?p c' t' ?L 0) =
          moved (leave opts pc [Record (take 18 r @ ?d)] s1) c' t' 0 0"
        using leave_record [of "take 18 r" opts ?d pc s1 c t c' t'] e(1) r(1) by simp
      also have "take 18 r @ ?d = take (18 + ?L) r" by (rule take_add [symmetric])
      finally show thesis using le e r(1) by (intro recorded [of c' t']) (simp_all add: add.commute)
    next
      fix c' t'
      assume e: "length (drop 18 r) < ?L" "wf c'" "pending c' = []"
        and x: "read_exact rd ?L ?p = Some (end_result fin, drop 18 r,
          moved ?p c' t' (length (drop 18 r)) (end_errors fin))"
      have "capture_body rd opts (pc, s) = Some (Inl (end_status fin,
          upd_stats (\<lambda>st. st\<lparr>truncated_payload := truncated_payload st + 1\<rparr>)
            (moved ?p c' t' (length r - 18) (end_errors fin))))"
        using le x by (simp add: body end_status_def) (simp add: end_result_def)
      then show thesis using le e r(1) by (intro partial [of c' t']) (simp_all only: leave_partial_payload not_less, simp)
    qed
  qed
qed

lemma capture_loop_stream:
  assumes "wf (cs_context s)" "cs_running s = None" "accepts_all (cs_output s)"
  shows "\<exists>c t. wf c \<and> c_loop (capture_body rd opts) (pc, s) =
    (let xs = parse (max_payload opts) (limit_of opts s) (pending (cs_context s));
         full = (limit_of opts s = Some (length (parse_records xs)))
     in Some (if full then 0 else end_status fin,
          moved (leave opts pc xs s) c t 0 (if full then 0 else end_errors fin)))"
  using assms
proof (induction "length (pending (cs_context s))" arbitrary: pc s rule: less_induct)
  case less
  let ?m = "max_payload opts" and ?lim = "limit_of opts s" and ?P = "pending (cs_context s)"
  let ?pre = "if skipped ?P = [] then [] else [Skipped (skipped ?P)]"
  show ?case
  proof (cases "?lim = Some 0")
    case True
    then have "capture_body rd opts (pc, s) = Some (Inl (0, s))"
      using less.prems by (simp add: capture_body_def limit_guard)
    then show ?thesis using True less.prems moved_refl [of s]
      by (subst c_loop.simps) (auto simp: parse.simps leave_def Let_def
          intro!: exI [of _ "cs_context s"] exI [of _ "read_timeouts (cs_stats s)"])
  next
    case lim: False
    note body = capture_body_def [of rd opts] less.prems(2) lim limit_guard Let_def
    show ?thesis
    proof (rule read_next_meta_stream [OF less.prems(1,2) refl, where opts = opts and pc = pc], goal_cases)
      case (1 c t)
      then have "capture_body rd opts (pc, s) = Some (Inl (end_status fin, moved s c t 0 (end_errors fin)))"
        by (simp add: body end_status_def end_result_def)
      with 1 lim show ?case
        by (intro exI [of _ c] exI [of _ t], subst c_loop.simps) (simp add: parse.simps leave_def)
    next
      case (2 c t raw xs)
      then have "capture_body rd opts (pc, s) =
          Some (Inl (end_status fin, moved (leave opts pc xs s) c t 0 (end_errors fin)))"
        by (simp add: body end_status_def) (simp add: end_result_def)
      moreover have "parse ?m ?lim ?P = xs" using 2 lim by (auto simp: parse.simps)
      moreover have "parse_records xs = []" using 2 by auto
      ultimately show ?case using 2 lim
        by (intro exI [of _ c] exI [of _ t], subst c_loop.simps) (simp add: Let_def)
    next
      case (3 c t)
      define pre where "pre = ?pre"
      let ?s1 = "leave opts pc pre s" and ?r = "sync ?P"
      note found = 3 [folded pre_def]
      have len4: "4 \<le> length ?P" and ne: "?P \<noteq> []" using 3(1) length_sync [of ?P] by auto
      have pre: "parse_records pre = []" "printed_count pre = 0" by (simp_all add: pre_def)
      have s1: "cs_running ?s1 = None" "accepts_all (cs_output ?s1)" using less.prems by simp_all
      have lim1: "limit_of opts ?s1 = ?lim" by (rule limit_of_leave_same [OF pre(1)])
      have shorter: "length (drop n ?r) < length ?P" if "0 < n" for n
        using length_sync [of ?P] 3(1) that by (cases "length ?r") auto
      have join: "leave opts (pc + 1) ys (leave opts pc [x] ?s1) = leave opts pc (pre @ x # ys) s"
        if "printed_count [x] = 1" for x ys
        using leave_leave [of opts pc "[x]" ys ?s1] leave_leave [of opts pc pre "x # ys" s] that pre
        by simp
      have parse_eq: "parse ?m ?lim ?P = pre @
        (if ?m < record_payload_length ?r then Rejected (take 18 ?r) # parse ?m ?lim (drop 18 ?r)
         else if length ?r < 18 + record_payload_length ?r then [Partial_Payload ?r]
         else Record (take (18 + record_payload_length ?r) ?r) #
           parse ?m (map_option (\<lambda>k. k - 1) ?lim) (drop (18 + record_payload_length ?r) ?r))"
        using lim len4 ne 3(1) unfolding pre_def by (subst parse.simps) (auto simp: Let_def)
      show ?case
      proof (rule capture_body_found [OF less.prems lim found(2,1,3,4) s1, where pc = pc], goal_cases)
        case 1
        let ?x = "Rejected (take 18 ?r)"
        let ?s2 = "moved (leave opts pc [?x] ?s1) c t 0 0"
        have l2: "limit_of opts ?s2 = ?lim" by (simp add: limit_of_leave_same lim1)
        have ctx: "pending (cs_context ?s2) = drop 18 ?r" using 3(4) by simp
        have hyp: "\<exists>c t. wf c \<and> c_loop (capture_body rd opts) (pc + 1, ?s2) =
            (let xs = parse ?m (limit_of opts ?s2) (pending (cs_context ?s2));
                 full = (limit_of opts ?s2 = Some (length (parse_records xs)))
             in Some (if full then 0 else end_status fin,
                  moved (leave opts (pc + 1) xs ?s2) c t 0 (if full then 0 else end_errors fin)))"
          by (rule less.hyps) (use shorter [of 18] ctx 3(3) s1 in simp_all)
        obtain c' t' where "wf c'" and IH: "c_loop (capture_body rd opts) (pc + 1, ?s2) =
            (let xs = parse ?m ?lim (drop 18 ?r); full = (?lim = Some (length (parse_records xs)))
             in Some (if full then 0 else end_status fin,
                  moved (leave opts (pc + 1) xs ?s2) c' t' 0 (if full then 0 else end_errors fin)))"
          using hyp [unfolded l2 ctx] by blast
        then show ?case
          using 1 pre
          by (intro exI [of _ c'] exI [of _ t'], subst c_loop.simps)
             (simp add: parse_eq Let_def leave_moved moved_moved join)
      next
        case (2 c' t')
        have leave_eq: "leave opts pc [Partial_Payload ?r] ?s1 = leave opts pc (pre @ [Partial_Payload ?r]) s"
          using leave_leave [of opts pc pre "[Partial_Payload ?r]" s] pre by simp
        have "c_loop (capture_body rd opts) (pc, s) = Some (end_status fin,
            moved (leave opts pc (pre @ [Partial_Payload ?r]) s) c' t' 0 (end_errors fin))"
          by (subst c_loop.simps) (simp only: 2(3) leave_eq option.case sum.case)
        moreover have "parse ?m ?lim ?P = pre @ [Partial_Payload ?r]" using 2(1,2) by (simp only: parse_eq) simp
        moreover have "parse_records (pre @ [Partial_Payload ?r]) = []" by (simp add: pre)
        ultimately show ?case using 2(4) lim
          by (intro exI [of _ c'] exI [of _ t'] conjI) (simp_all only: Let_def list.size if_False)
      next
        case (3 c' t')
        let ?n = "18 + record_payload_length ?r"
        let ?x = "Record (take ?n ?r)"
        let ?s2 = "moved (leave opts pc [?x] ?s1) c' t' 0 0"
        let ?l2 = "map_option (\<lambda>k. k - 1) ?lim"
        have l2: "limit_of opts ?s2 = ?l2" using limit_of_record [of opts ?s1] lim lim1 by simp
        have ctx: "pending (cs_context ?s2) = drop ?n ?r" using 3(5) by simp
        have hyp: "\<exists>c t. wf c \<and> c_loop (capture_body rd opts) (pc + 1, ?s2) =
            (let xs = parse ?m (limit_of opts ?s2) (pending (cs_context ?s2));
                 full = (limit_of opts ?s2 = Some (length (parse_records xs)))
             in Some (if full then 0 else end_status fin,
                  moved (leave opts (pc + 1) xs ?s2) c t 0 (if full then 0 else end_errors fin)))"
          by (rule less.hyps) (use shorter [of ?n] ctx 3(4) s1 in simp_all)
        obtain c'' t'' where "wf c''" and IH: "c_loop (capture_body rd opts) (pc + 1, ?s2) =
            (let xs = parse ?m ?l2 (drop ?n ?r); full = (?l2 = Some (length (parse_records xs)))
             in Some (if full then 0 else end_status fin,
                  moved (leave opts (pc + 1) xs ?s2) c'' t'' 0 (if full then 0 else end_errors fin)))"
          using hyp [unfolded l2 ctx] by blast
        moreover have "?l2 = Some k \<longleftrightarrow> ?lim = Some (Suc k)" for k
          using lim by (cases ?lim) auto
        ultimately show ?case
          using 3 pre
          by (intro exI [of _ c''] exI [of _ t''], subst c_loop.simps)
             (simp add: parse_eq Let_def leave_moved moved_moved join)
      qed
    qed
  qed
qed

text \<open>The whole call. What the caller sees depends on the bytes of the stream only.\<close>

lemma sniffer_capture_stream:
  assumes "t_read transport = Some rd" "capture_options_valid opts"
    and "wf (cs_context s)" "cs_running s = None" "accepts_all (cs_output s)"
    and "xs = parse (max_payload opts) (limit_of opts s) (pending (cs_context s))"
  obtains (full) c t where "limit_of opts s = Some (length (parse_records xs))" "wf c"
      "sniffer_capture True transport opts s = Some (0, moved (leave opts 0 xs s) c t 0 0)"
  | (ended) c t where "limit_of opts s \<noteq> Some (length (parse_records xs))" "wf c"
      "sniffer_capture True transport opts s =
        Some (end_status fin, moved (leave opts 0 xs s) c t 0 (end_errors fin))"
proof -
  obtain c t where "wf c" and l: "c_loop (capture_body rd opts) (0, s) =
      Some (if limit_of opts s = Some (length (parse_records xs)) then 0 else end_status fin,
        moved (leave opts 0 xs s) c t 0
          (if limit_of opts s = Some (length (parse_records xs)) then 0 else end_errors fin))"
    using capture_loop_stream [OF assms(3-5), of opts 0] unfolding Let_def assms(6) by blast
  then show thesis
    using full [of c t] ended [of c t] assms(1,2)
    by (cases "limit_of opts s = Some (length (parse_records xs))") (simp_all add: sniffer_capture_def)
qed

end

end
