(* ===== verification/Capture_Safety.thy ===== *)
theory Capture_Safety
  imports Capture_Spec Mock_Transport
begin

text \<open>
  What \<open>sniffer_capture\<close> guarantees over any transport whatever, including one that fails,
  lies about counts or is interrupted at any moment: only complete records reach the file,
  the byte counters balance, and a signal makes the capture return.
\<close>

section \<open>The signal flag\<close>

lemma poll_cases:
  assumes "poll s = (go, s')"
  obtains r where "s' = s\<lparr>cs_running := r\<rparr>" "is_running (cs_running s) = (go, r)"
  using assms by (auto simp: poll_def split: prod.splits)

text \<open>The flag is still to be read as set at most \<open>k\<close> times.\<close>

definition run_le :: "nat \<Rightarrow> 'c capture_state \<Rightarrow> bool" where
  "run_le k s \<longleftrightarrow> (\<exists>j \<le> k. cs_running s = Some j)"

definition run_left :: "'c capture_state \<Rightarrow> nat" where
  "run_left s = (case cs_running s of None \<Rightarrow> 0 | Some k \<Rightarrow> k)"

lemma run_le_update [simp]:
  "run_le k (s\<lparr>cs_stats := st\<rparr>) = run_le k s" "run_le k (s\<lparr>cs_context := c\<rparr>) = run_le k s"
  "run_le k (s\<lparr>cs_output := f\<rparr>) = run_le k s" "run_le k (s\<lparr>cs_printed := t\<rparr>) = run_le k s"
  "run_left (s\<lparr>cs_stats := st\<rparr>) = run_left s" "run_left (s\<lparr>cs_context := c\<rparr>) = run_left s"
  "run_left (s\<lparr>cs_output := f\<rparr>) = run_left s" "run_left (s\<lparr>cs_printed := t\<rparr>) = run_left s"
  by (simp_all add: run_le_def run_left_def)

lemma run_le_mono: "run_le j s \<Longrightarrow> j \<le> k \<Longrightarrow> run_le k s"
  by (auto simp: run_le_def)

lemma run_le_left: "run_le k s \<Longrightarrow> run_left s \<le> k \<and> run_le (run_left s) s"
  by (auto simp: run_le_def run_left_def)

lemma poll_run_le:
  "poll s = (go, s') \<Longrightarrow> run_le k s \<Longrightarrow> run_le k s' \<and> (go \<longrightarrow> run_left s' < run_left s)"
  by (elim poll_cases) (auto simp: run_le_def run_left_def elim!: is_running.elims)

section \<open>What reading leaves alone\<close>

text \<open>
  Reading touches the context, the flag and the counters of the input side; everything about
  the file and the terminal stays.
\<close>

definition read_frame :: "'c capture_state \<Rightarrow> 'c capture_state \<Rightarrow> bool" where
  "read_frame s s' \<longleftrightarrow>
     cs_output s' = cs_output s \<and> cs_printed s' = cs_printed s \<and>
     records (cs_stats s') = records (cs_stats s) \<and>
     stored_bytes (cs_stats s') = stored_bytes (cs_stats s) \<and>
     invalid_lengths (cs_stats s') = invalid_lengths (cs_stats s) \<and>
     truncated_payload (cs_stats s') = truncated_payload (cs_stats s) \<and>
     file_write_failures (cs_stats s') = file_write_failures (cs_stats s)"

text \<open>Bytes received that are neither stored nor discarded nor part of a rejected meta.\<close>

definition unaccounted :: "SnifferStats \<Rightarrow> u64" where
  "unaccounted st =
     received_bytes st - (stored_bytes st + discarded_bytes st + 18 * invalid_lengths st)"

lemma read_frame_refl [simp]: "read_frame s s"
  by (simp add: read_frame_def)

lemma read_frame_trans: "read_frame s t \<Longrightarrow> read_frame t u \<Longrightarrow> read_frame s u"
  by (simp add: read_frame_def)

lemma poll_frame:
  "poll s = (go, s') \<Longrightarrow> read_frame s s' \<and> cs_stats s' = cs_stats s"
  by (elim poll_cases) (simp add: read_frame_def)

text \<open>One iteration of \<open>read_exact\<close>: how it moves, and how it ends.\<close>

lemma read_exact_body_facts:
  assumes "read_exact_body rd n (buf, s) = x" "length buf \<le> n"
  shows "x = Inr (buf', s') \<Longrightarrow> length buf' \<le> n \<and> read_frame s s' \<and>
      received_bytes (cs_stats s') + of_nat (length buf) =
        received_bytes (cs_stats s) + of_nat (length buf') \<and>
      discarded_bytes (cs_stats s') = discarded_bytes (cs_stats s)"
    and "x = Inl (res, buf', s') \<Longrightarrow> length buf' \<le> n \<and> read_frame s s' \<and>
      received_bytes (cs_stats s') + of_nat (length buf) =
        received_bytes (cs_stats s) + of_nat (length buf') \<and>
      discarded_bytes (cs_stats s') = discarded_bytes (cs_stats s) \<and>
      (res = EXACT_OK \<longrightarrow> length buf' = n)"
  using assms
  by (auto simp: read_exact_body_def Let_def read_frame_def elim!: poll_cases
      split: prod.splits if_splits SnifferIoStatus.splits)

lemma read_exact_facts:
  assumes "read_exact rd n s = Some (res, buf, s')"
  shows "length buf \<le> n" "res = EXACT_OK \<Longrightarrow> length buf = n" "read_frame s s'"
    and "received_bytes (cs_stats s') = received_bytes (cs_stats s) + of_nat (length buf)"
    and "discarded_bytes (cs_stats s') = discarded_bytes (cs_stats s)"
proof -
  let ?I = "\<lambda>(b, t). length b \<le> n \<and> read_frame s t \<and>
    received_bytes (cs_stats t) = received_bytes (cs_stats s) + of_nat (length b) \<and>
    discarded_bytes (cs_stats t) = discarded_bytes (cs_stats s)"
  let ?Q = "\<lambda>(res, b, t). ?I (b, t) \<and> (res = EXACT_OK \<longrightarrow> length b = n)"
  have "?Q (res, buf, s')"
  proof (rule c_loop_partial [OF assms [unfolded read_exact_def], where I = ?I])
    fix x x' assume "?I x" "Some (read_exact_body rd n x) = Some (Inr x')"
    then show "?I x'"
      by (cases x; cases x') (auto dest!: read_exact_body_facts(1) intro: read_frame_trans)
  next
    fix x r assume "?I x" "Some (read_exact_body rd n x) = Some (Inl r)"
    then show "?Q r"
      by (cases x; cases r) (auto dest!: read_exact_body_facts(2) intro: read_frame_trans)
  qed simp
  then show "length buf \<le> n" "res = EXACT_OK \<Longrightarrow> length buf = n" "read_frame s s'"
    "received_bytes (cs_stats s') = received_bytes (cs_stats s) + of_nat (length buf)"
    "discarded_bytes (cs_stats s') = discarded_bytes (cs_stats s)" by auto
qed

text \<open>The same facts in terms of the byte balance.\<close>

lemma read_exact_unaccounted:
  "read_exact rd n s = Some (res, buf, s') \<Longrightarrow>
     unaccounted (cs_stats s') = unaccounted (cs_stats s) + of_nat (length buf)"
  by (frule read_exact_facts(3), frule read_exact_facts(4), drule read_exact_facts(5))
     (simp add: unaccounted_def read_frame_def)

lemma unaccounted_upd [simp]:
  "unaccounted (st\<lparr>discarded_bytes := discarded_bytes st + k\<rparr>) = unaccounted st - k"
  "unaccounted (st\<lparr>received_bytes := received_bytes st + k\<rparr>) = unaccounted st + k"
  "unaccounted (st\<lparr>stored_bytes := stored_bytes st + k\<rparr>) = unaccounted st - k"
  "unaccounted (st\<lparr>invalid_lengths := invalid_lengths st + 1\<rparr>) = unaccounted st - 18"
  "unaccounted (st\<lparr>truncated_meta := k\<rparr>) = unaccounted st"
  "unaccounted (st\<lparr>truncated_payload := k\<rparr>) = unaccounted st"
  "unaccounted (st\<lparr>magic_errors := k\<rparr>) = unaccounted st"
  "unaccounted (st\<lparr>resynchronizations := k\<rparr>) = unaccounted st"
  "unaccounted (st\<lparr>records := k\<rparr>) = unaccounted st"
  "unaccounted (st\<lparr>file_write_failures := k\<rparr>) = unaccounted st"
  "unaccounted (st\<lparr>truncated_meta := k, discarded_bytes := discarded_bytes st + j\<rparr>) = unaccounted st - j"
  by (simp_all add: unaccounted_def algebra_simps)

lemma read_frame_upd [simp]:
  "read_frame s (t\<lparr>cs_stats := (cs_stats t)\<lparr>truncated_meta := k\<rparr>\<rparr>) = read_frame s t"
  "read_frame s (t\<lparr>cs_stats := (cs_stats t)\<lparr>magic_errors := k\<rparr>\<rparr>) = read_frame s t"
  "read_frame s (t\<lparr>cs_stats := (cs_stats t)\<lparr>resynchronizations := k\<rparr>\<rparr>) = read_frame s t"
  "read_frame s (t\<lparr>cs_stats := (cs_stats t)\<lparr>discarded_bytes := k\<rparr>\<rparr>) = read_frame s t"
  "read_frame s (t\<lparr>cs_stats := (cs_stats t)\<lparr>truncated_meta := k, discarded_bytes := j\<rparr>\<rparr>) = read_frame s t"
  by (simp_all add: read_frame_def)

text \<open>Resynchronisation: the window keeps its four bytes, every byte dropped is counted.\<close>

lemma resync_facts:
  assumes "c_loop (resync_body rd) (raw, 0, s) = Some (stop, raw', discarded, s')"
    and "length raw = 4"
  shows "read_frame s s'" "length raw' = 4"
    and "stop = None \<Longrightarrow> unaccounted (cs_stats s') = unaccounted (cs_stats s) + discarded"
    and "stop = None \<Longrightarrow> magic_matches raw' \<or> (\<exists>r. cs_running s' = Some 0)"
    and "stop = Some res \<Longrightarrow> res \<noteq> EXACT_OK \<and>
      (\<exists>k \<le> 1. unaccounted (cs_stats s') + 4 = unaccounted (cs_stats s) + of_nat k)"
proof -
  let ?I = "\<lambda>(w, n, t). length w = 4 \<and> read_frame s t \<and>
    unaccounted (cs_stats t) = unaccounted (cs_stats s) + n"
  let ?Q = "\<lambda>(stop, w, n, t). length w = 4 \<and> read_frame s t \<and>
    (stop = None \<longrightarrow> unaccounted (cs_stats t) = unaccounted (cs_stats s) + n \<and>
       (magic_matches w \<or> cs_running t = Some 0)) \<and>
    (\<forall>res. stop = Some res \<longrightarrow> res \<noteq> EXACT_OK \<and>
       (\<exists>k \<le> 1. unaccounted (cs_stats t) + 4 = unaccounted (cs_stats s) + of_nat k))"
  have "?Q (stop, raw', discarded, s')"
  proof (rule c_loop_partial [OF assms(1), where I = ?I])
    show "?I (raw, 0, s)" using assms(2) by simp
  next
    fix x x' assume I: "?I x" and b: "resync_body rd x = Some (Inr x')"
    obtain w n t where x: "x = (w, n, t)" by (cases x) auto
    from b obtain go t1 d t2 where p: "poll t = (go, t1)"
      and r: "read_exact rd 1 t1 = Some (EXACT_OK, d, t2)" and x': "x' = (tl w @ d, n + 1, t2)"
      by (auto simp: x resync_body_def Let_def bind_eq_Some_conv split: prod.splits if_splits)
    from read_exact_facts(1-3) [OF r] read_exact_unaccounted [OF r] poll_frame [OF p] I
    show "?I x'" by (auto simp: x x' intro: read_frame_trans)
  next
    fix x r assume I: "?I x" and b: "resync_body rd x = Some (Inl r)"
    obtain w n t where x: "x = (w, n, t)" by (cases x) auto
    obtain go t1 where p: "poll t = (go, t1)" by (cases "poll t") auto
    show "?Q r"
    proof (cases "go \<and> \<not> magic_matches w")
      case False
      with b have "r = (None, w, n, t1)" by (simp add: x resync_body_def p)
      moreover have "go \<or> cs_running t1 = Some 0"
        using p by (elim poll_cases) (auto elim!: is_running.elims)
      ultimately show ?thesis using False I poll_frame [OF p] by (auto simp: x intro: read_frame_trans)
    next
      case True
      with b obtain res d t2 where r1: "read_exact rd 1 t1 = Some (res, d, t2)" and "res \<noteq> EXACT_OK"
        and r: "r = (Some res, w, n, upd_stats (\<lambda>st. st\<lparr>discarded_bytes := discarded_bytes st + (n + 4)\<rparr>)
          (if res = EXACT_EOF \<and> 0 < length d
           then upd_stats (\<lambda>st. st\<lparr>truncated_meta := truncated_meta st + 1\<rparr>) t2 else t2))"
        by (auto simp: x resync_body_def p Let_def bind_eq_Some_conv split: if_splits)
      have frame: "read_frame s t2"
        using I poll_frame [OF p] read_exact_facts(3) [OF r1] by (auto simp: x intro: read_frame_trans)
      have "unaccounted (cs_stats t2) = unaccounted (cs_stats s) + n + of_nat (length d)"
        using I read_exact_unaccounted [OF r1] poll_frame [OF p] by (simp add: x)
      then have "unaccounted (cs_stats t2) - (n + 4) + 4 =
          unaccounted (cs_stats s) + of_nat (length d)" by (simp add: algebra_simps)
      with frame read_exact_facts(1) [OF r1] I \<open>res \<noteq> EXACT_OK\<close> show ?thesis
        by (auto simp: x r intro!: exI [of _ "length d"])
    qed
  qed
  then show "read_frame s s'" "length raw' = 4"
    "stop = None \<Longrightarrow> unaccounted (cs_stats s') = unaccounted (cs_stats s) + discarded"
    "stop = None \<Longrightarrow> magic_matches raw' \<or> (\<exists>r. cs_running s' = Some 0)"
    "stop = Some res \<Longrightarrow> res \<noteq> EXACT_OK \<and>
      (\<exists>k \<le> 1. unaccounted (cs_stats s') + 4 = unaccounted (cs_stats s) + of_nat k)" by auto
qed

lemma read_meta_rest_facts:
  assumes "read_meta_rest rd raw s = Some (res, raw', s')" "length raw = 4"
  shows "read_frame s s'" "length raw' \<le> 18" "res = EXACT_OK \<Longrightarrow> length raw' = 18"
    and "take 4 raw' = raw"
    and "unaccounted (cs_stats s') + 4 = unaccounted (cs_stats s) + of_nat (length raw')"
proof -
  from assms(1) obtain d t where r: "read_exact rd 14 s = Some (res, d, t)" and raw': "raw' = raw @ d"
    and s': "s' = (if res = EXACT_EOF \<or> res = EXACT_ERROR
      then upd_stats (\<lambda>st. st\<lparr>truncated_meta := truncated_meta st + 1\<rparr>) t else t)"
    by (auto simp: read_meta_rest_def SNIFFER_META_SIZE_def bind_eq_Some_conv)
  note facts = read_exact_facts [OF r] read_exact_unaccounted [OF r]
  show "read_frame s s'" "length raw' \<le> 18" "res = EXACT_OK \<Longrightarrow> length raw' = 18" "take 4 raw' = raw"
    "unaccounted (cs_stats s') + 4 = unaccounted (cs_stats s) + of_nat (length raw')"
    using facts assms(2) by (auto simp: raw' s')
qed

text \<open>The next meta: a complete one starts with the magic; a failed one loses fewer than 18 bytes.\<close>

lemma read_next_meta_facts:
  assumes "read_next_meta rd s = Some (res, raw, s')"
  shows "read_frame s s'"
    and "res = EXACT_OK \<Longrightarrow> length raw = 18 \<and> magic_matches raw \<and>
      unaccounted (cs_stats s') = unaccounted (cs_stats s) + 18"
    and "\<exists>k \<le> 18. unaccounted (cs_stats s') = unaccounted (cs_stats s) + of_nat k"
proof -
  let ?u = "\<lambda>t. unaccounted (cs_stats t)"
  let ?goal = "read_frame s s' \<and>
    (res = EXACT_OK \<longrightarrow> length raw = 18 \<and> magic_matches raw \<and> ?u s' = ?u s + 18) \<and>
    (\<exists>k \<le> 18. ?u s' = ?u s + of_nat k)"
  obtain res1 raw1 s1 where r1: "read_exact rd 4 s = Some (res1, raw1, s1)"
    using assms by (auto simp: read_next_meta_def bind_eq_Some_conv)
  note f1 = read_exact_facts [OF r1] read_exact_unaccounted [OF r1]
  have rest: ?goal
    if "read_meta_rest rd w t = Some (res, raw, s')" "length w = 4" "magic_matches w"
      "read_frame s t" "?u t = ?u s + 4" for w t
  proof -
    note f = read_meta_rest_facts [OF that(1,2)]
    have "?u s' = ?u s + of_nat (length raw)" using f(5) that(5) by (simp add: algebra_simps)
    moreover have "magic_matches raw" using f(4) that(2,3) by (simp add: magic_matches_def)
    ultimately show ?thesis using f(1-3) that(4) by (auto intro: read_frame_trans)
  qed
  consider (short) "res1 \<noteq> EXACT_OK" | (match) "res1 = EXACT_OK" "magic_matches raw1"
    | (resync) "res1 = EXACT_OK" "\<not> magic_matches raw1" by blast
  then have ?goal
  proof cases
    case short
    with assms r1 f1(1,3,6) show ?thesis
      by (auto simp: read_next_meta_def intro!: exI [of _ "length raw1"])
  next
    case match
    with assms r1 have "read_meta_rest rd raw1 s1 = Some (res, raw, s')"
      by (simp add: read_next_meta_def)
    with match f1 show ?thesis by (intro rest [of raw1 s1]) simp_all
  next
    case resync
    let ?s1 = "upd_stats (\<lambda>st. st\<lparr>magic_errors := magic_errors st + 1\<rparr>) s1"
    from assms r1 resync obtain stop w n t where l: "c_loop (resync_body rd) (raw1, 0, ?s1) = Some (stop, w, n, t)"
      by (auto simp: read_next_meta_def bind_eq_Some_conv)
    have len: "length raw1 = 4" using f1(2) resync(1) by simp
    note fl = resync_facts [OF l len]
    have s1: "?u ?s1 = ?u s + 4" "read_frame s ?s1" using f1(3,6) len by simp_all
    show ?thesis
    proof (cases stop)
      case (Some r)
      with assms r1 resync l have "(res, raw, s') = (r, w, t)" by (simp add: read_next_meta_def)
      moreover obtain k where "k \<le> 1" "?u t + 4 = ?u ?s1 + of_nat k" and "r \<noteq> EXACT_OK"
        using fl(5) [OF Some] by blast
      moreover from this(2) s1(1) have "?u t = ?u s + of_nat k" by (simp add: algebra_simps)
      moreover have "read_frame s t" using fl(1) s1(2) by (rule read_frame_trans [rotated])
      ultimately show ?thesis by (auto intro!: exI [of _ k])
    next
      case None
      let ?t = "upd_stats (\<lambda>st. st\<lparr>discarded_bytes := discarded_bytes st + n\<rparr>) t"
      obtain go t2 where p: "poll ?t = (go, t2)" by (cases "poll ?t") auto
      have "read_frame s t" using fl(1) s1(2) by (rule read_frame_trans [rotated])
      then have t2: "?u t2 = ?u s + 4" "read_frame s t2"
        using fl(3) [OF None] s1 poll_frame [OF p] by (simp_all add: read_frame_def)
      show ?thesis
      proof (cases go)
        case False
        with assms r1 resync l None p have "(res, raw, s') = (EXACT_STOPPED, w, t2)"
          by (simp add: read_next_meta_def)
        with t2 show ?thesis by (auto intro!: exI [of _ 4])
      next
        case True
        have "magic_matches w" using fl(4) [OF None] p True by (auto simp: poll_def)
        moreover have "read_meta_rest rd w
            (upd_stats (\<lambda>st. st\<lparr>resynchronizations := resynchronizations st + 1\<rparr>) t2) = Some (res, raw, s')"
          using assms r1 resync l None p True by (simp add: read_next_meta_def)
        ultimately show ?thesis using t2 fl(2)
          by (intro rest [of w "upd_stats (\<lambda>st. st\<lparr>resynchronizations := resynchronizations st + 1\<rparr>) t2"])
             simp_all
      qed
    qed
  qed
  then show "read_frame s s'" "res = EXACT_OK \<Longrightarrow> length raw = 18 \<and> magic_matches raw \<and>
      unaccounted (cs_stats s') = unaccounted (cs_stats s) + 18"
    "\<exists>k \<le> 18. unaccounted (cs_stats s') = unaccounted (cs_stats s) + of_nat k" by auto
qed

section \<open>What writing does\<close>

text \<open>
  \<open>write_file_all\<close> appends a prefix of its data to the file: all of it and 0, or less of it,
  one more write failure and \<open>-1\<close>.
\<close>

lemma fwrite_facts:
  "fwrite f d = (w, f') \<Longrightarrow> w \<le> length d \<and> fl_data f' = fl_data f @ take w d"
  by (auto simp: fwrite_def min_def split: list.splits)

lemma write_file_all_facts:
  assumes "write_file_all d s = (r, s')"
  shows "\<exists>w \<le> length d. fl_data (cs_output s') = fl_data (cs_output s) @ take w d \<and>
      cs_context s' = cs_context s \<and> cs_running s' = cs_running s \<and> cs_printed s' = cs_printed s \<and>
      (r = 0 \<and> w = length d \<and>
         cs_stats s' = (cs_stats s)\<lparr>stored_bytes := stored_bytes (cs_stats s) + of_nat w\<rparr>
       \<or> r = -1 \<and> w < length d \<and>
         cs_stats s' = (cs_stats s)\<lparr>stored_bytes := stored_bytes (cs_stats s) + of_nat w,
           file_write_failures := file_write_failures (cs_stats s) + 1\<rparr>)"
  using assms
proof (induction d s rule: write_file_all.induct)
  case (1 d s)
  show ?case
  proof (cases "d = []")
    case True
    with "1.prems" show ?thesis by (simp add: write_file_all.simps)
  next
    case False
    obtain k f where f: "fwrite (cs_output s) d = (k, f)" by (cases "fwrite (cs_output s) d") auto
    note fw = fwrite_facts [OF f]
    show ?thesis
    proof (cases "k = 0")
      case True
      with "1.prems" False f fw show ?thesis
        by (auto simp: write_file_all.simps [of d s] Let_def intro!: exI [of _ 0])
    next
      case k: False
      let ?t = "upd_stats (\<lambda>st. st\<lparr>stored_bytes := stored_bytes st + of_nat k\<rparr>) (s\<lparr>cs_output := f\<rparr>)"
      have rec: "write_file_all (drop k d) ?t = (r, s')"
        using "1.prems" False f k by (simp add: write_file_all.simps [of d s] Let_def)
      obtain w where w: "w \<le> length (drop k d)"
        and data: "fl_data (cs_output s') = fl_data (cs_output ?t) @ take w (drop k d)"
        and rest: "cs_context s' = cs_context ?t" "cs_running s' = cs_running ?t"
          "cs_printed s' = cs_printed ?t"
          "r = 0 \<and> w = length (drop k d) \<and>
            cs_stats s' = (cs_stats ?t)\<lparr>stored_bytes := stored_bytes (cs_stats ?t) + of_nat w\<rparr>
          \<or> r = -1 \<and> w < length (drop k d) \<and>
            cs_stats s' = (cs_stats ?t)\<lparr>stored_bytes := stored_bytes (cs_stats ?t) + of_nat w,
              file_write_failures := file_write_failures (cs_stats ?t) + 1\<rparr>"
        using "1.IH" [OF False refl refl] f k rec by auto
      have "k + w \<le> length d" using w fw by (simp add: le_diff_conv2)
      moreover have "fl_data (cs_output s') = fl_data (cs_output s) @ take (k + w) d"
        using fw data by (simp add: take_add)
      ultimately show ?thesis using rest(1-3)
        by (intro exI [of _ "k + w"], use rest(4) in \<open>elim disjE\<close>) (simp_all add: add.assoc less_diff_conv)
    qed
  qed
qed

lemma store_record_facts:
  assumes "store_record opts raw payload s = (r, s')"
  shows "\<exists>w \<le> length (raw @ payload).
      fl_data (cs_output s') = fl_data (cs_output s) @ take w (raw @ payload) \<and>
      cs_context s' = cs_context s \<and> cs_running s' = cs_running s \<and> cs_printed s' = cs_printed s \<and>
      stored_bytes (cs_stats s') = stored_bytes (cs_stats s) + of_nat w \<and>
      unaccounted (cs_stats s') = unaccounted (cs_stats s) - of_nat w \<and>
      (r = 0 \<and> w = length (raw @ payload) \<and> records (cs_stats s') = records (cs_stats s) + 1 \<and>
         file_write_failures (cs_stats s') = file_write_failures (cs_stats s)
       \<or> r = -1 \<and> records (cs_stats s') = records (cs_stats s) \<and>
         file_write_failures (cs_stats s') = file_write_failures (cs_stats s) + 1)"
proof -
  obtain r1 s1 where w1: "write_file_all raw s = (r1, s1)" by (cases "write_file_all raw s") auto
  obtain r2 s2 where w2: "write_file_all payload s1 = (r2, s2)"
    by (cases "write_file_all payload s1") auto
  from write_file_all_facts [OF w1] write_file_all_facts [OF w2] obtain i j
    where i: "i \<le> length raw" "fl_data (cs_output s1) = fl_data (cs_output s) @ take i raw"
      "cs_context s1 = cs_context s" "cs_running s1 = cs_running s" "cs_printed s1 = cs_printed s"
      "r1 = 0 \<and> i = length raw \<and>
         cs_stats s1 = (cs_stats s)\<lparr>stored_bytes := stored_bytes (cs_stats s) + of_nat i\<rparr>
       \<or> r1 = -1 \<and> i < length raw \<and>
         cs_stats s1 = (cs_stats s)\<lparr>stored_bytes := stored_bytes (cs_stats s) + of_nat i,
           file_write_failures := file_write_failures (cs_stats s) + 1\<rparr>"
    and j: "j \<le> length payload" "fl_data (cs_output s2) = fl_data (cs_output s1) @ take j payload"
      "cs_context s2 = cs_context s1" "cs_running s2 = cs_running s1" "cs_printed s2 = cs_printed s1"
      "r2 = 0 \<and> j = length payload \<and>
         cs_stats s2 = (cs_stats s1)\<lparr>stored_bytes := stored_bytes (cs_stats s1) + of_nat j\<rparr>
       \<or> r2 = -1 \<and> j < length payload \<and>
         cs_stats s2 = (cs_stats s1)\<lparr>stored_bytes := stored_bytes (cs_stats s1) + of_nat j,
           file_write_failures := file_write_failures (cs_stats s1) + 1\<rparr>" by blast
  show ?thesis
  proof (cases "r1 = 0")
    case False
    with assms w1 i show ?thesis
      by (intro exI [of _ i]) (auto simp: store_record_def unaccounted_def)
  next
    case ok1: True
    have all: "take (length raw + j) (raw @ payload) = raw @ take j payload" by simp
    show ?thesis
    proof (cases "r2 = 0")
      case False
      with assms w1 w2 i j ok1 show ?thesis
        by (intro exI [of _ "length raw + j"])
           (auto simp: store_record_def unaccounted_def algebra_simps)
    next
      case True
      obtain ok f where f: "(if flush_each_record opts then fflush (cs_output s2) else (True, cs_output s2)) = (ok, f)"
        by (cases "if flush_each_record opts then fflush (cs_output s2) else (True, cs_output s2)") auto
      then have "fl_data f = fl_data (cs_output s2)"
        by (auto simp: fflush_def split: if_splits list.splits)
      with assms w1 w2 i j ok1 True f show ?thesis
        by (intro exI [of _ "length raw + j"])
           (auto simp: store_record_def unaccounted_def algebra_simps split: if_splits prod.splits)
    qed
  qed
qed

section \<open>One iteration of the capture\<close>

lemma capture_body_cases:
  assumes "capture_body rd opts (pc, s) = Some x"
  obtains (stopped) go s1 where "poll s = (go, s1)" "x = Inl (0, s1)"
  | (no_meta) s1 res raw t where "poll s = (True, s1)" "read_next_meta rd s1 = Some (res, raw, t)"
      "res \<noteq> EXACT_OK" "x = Inl (if res = EXACT_ERROR then -1 else 0, t)"
  | (invalid) s1 raw t where "poll s = (True, s1)" "read_next_meta rd s1 = Some (EXACT_OK, raw, t)"
      "max_payload opts < unat (message_length (sniffer_decode_meta raw))"
      "x = Inr (pc + 1, upd_stats (\<lambda>st. st\<lparr>invalid_lengths := invalid_lengths st + 1\<rparr>)
        (out_print (print_records opts) (print_meta (sniffer_decode_meta raw) (pc + 1)) t))"
  | (no_payload) s1 raw t res payload u where "poll s = (True, s1)"
      "read_next_meta rd s1 = Some (EXACT_OK, raw, t)"
      "unat (message_length (sniffer_decode_meta raw)) \<le> max_payload opts"
      "read_exact rd (unat (message_length (sniffer_decode_meta raw)))
        (out_print (print_records opts) (print_meta (sniffer_decode_meta raw) (pc + 1)) t) =
        Some (res, payload, u)" "res \<noteq> EXACT_OK"
      "x = Inl (if res = EXACT_ERROR then -1 else 0,
        if res = EXACT_EOF \<or> res = EXACT_ERROR
        then upd_stats (\<lambda>st. st\<lparr>truncated_payload := truncated_payload st + 1\<rparr>) u else u)"
  | (stored) s1 raw t payload u status v where "poll s = (True, s1)"
      "max_records opts = 0 \<or> records (cs_stats s1) < max_records opts"
      "read_next_meta rd s1 = Some (EXACT_OK, raw, t)"
      "unat (message_length (sniffer_decode_meta raw)) \<le> max_payload opts"
      "read_exact rd (unat (message_length (sniffer_decode_meta raw)))
        (out_print (print_records opts) (print_meta (sniffer_decode_meta raw) (pc + 1)) t) =
        Some (EXACT_OK, payload, u)"
      "store_record opts raw payload (out_print (print_payload opts) (print_payload_hex payload) u) =
        (status, v)"
      "x = (if status \<noteq> 0 then Inl (-1, v) else Inr (pc + 1, v))"
proof -
  obtain go s1 where p: "poll s = (go, s1)" by (cases "poll s") auto
  show thesis
  proof (cases "go \<and> (max_records opts = 0 \<or> records (cs_stats s1) < max_records opts)")
    case False
    with assms p show thesis by (intro stopped) (auto simp: capture_body_def)
  next
    case True
    with p have p1: "poll s = (True, s1)" by simp
    from assms p1 True obtain res raw t where m: "read_next_meta rd s1 = Some (res, raw, t)"
      by (auto simp: capture_body_def bind_eq_Some_conv)
    show thesis
    proof (cases "res = EXACT_OK")
      case False
      with assms p1 True m show thesis
        by (intro no_meta [OF p1 m False]) (cases res; auto simp: capture_body_def)
    next
      case ok: True
      let ?len = "unat (message_length (sniffer_decode_meta raw))"
      let ?t = "out_print (print_records opts) (print_meta (sniffer_decode_meta raw) (pc + 1)) t"
      show thesis
      proof (cases "max_payload opts < ?len")
        case big: True
        with assms p1 True m ok show thesis
          by (intro invalid [OF p1 m [unfolded ok] big]) (auto simp: capture_body_def Let_def)
      next
        case False
        then have small: "?len \<le> max_payload opts" by simp
        from assms p1 True m ok False obtain res2 payload u
          where r2: "read_exact rd ?len ?t = Some (res2, payload, u)"
          by (auto simp: capture_body_def Let_def bind_eq_Some_conv)
        show thesis
        proof (cases "res2 = EXACT_OK")
          case bad: False
          with assms p1 True m ok False r2 show thesis
            by (intro no_payload [OF p1 m [unfolded ok] small r2 bad])
               (auto simp: capture_body_def Let_def)
        next
          case ok2: True
          obtain status v where w: "store_record opts raw payload
              (out_print (print_payload opts) (print_payload_hex payload) u) = (status, v)"
            by (cases "store_record opts raw payload
              (out_print (print_payload opts) (print_payload_hex payload) u)") auto
          from assms p1 True m ok False r2 ok2 w show thesis
            by (intro stored [OF p1 _ m [unfolded ok] small r2 [unfolded ok2] w])
               (auto simp: capture_body_def Let_def)
        qed
      qed
    qed
  qed
qed

section \<open>The invariant of the capture loop\<close>

text \<open>
  Between two iterations the file holds what it held at the start and the complete records
  stored since, the counters say so, and every received byte is accounted for.
\<close>

definition file_holds ::
    "nat \<Rightarrow> 'c capture_state \<Rightarrow> 'c capture_state \<Rightarrow> bytes list \<Rightarrow> bytes \<Rightarrow> bool" where
  "file_holds maxp s t fs tail \<longleftrightarrow>
     list_all (complete_record maxp) fs \<and>
     fl_data (cs_output t) = fl_data (cs_output s) @ concat fs @ tail \<and>
     records (cs_stats t) = records (cs_stats s) + of_nat (length fs) \<and>
     stored_bytes (cs_stats t) = stored_bytes (cs_stats s) + of_nat (length (concat fs @ tail))"

definition records_bounded ::
    "SnifferCaptureOptions \<Rightarrow> 'c capture_state \<Rightarrow> 'c capture_state \<Rightarrow> bool" where
  "records_bounded opts s t \<longleftrightarrow>
     (max_records opts \<noteq> 0 \<and> records (cs_stats s) \<le> max_records opts \<longrightarrow>
        records (cs_stats t) \<le> max_records opts)"

definition capture_inv ::
    "SnifferCaptureOptions \<Rightarrow> 'c capture_state \<Rightarrow> 'c capture_state \<Rightarrow> bool" where
  "capture_inv opts s t \<longleftrightarrow>
     (\<exists>fs. file_holds (max_payload opts) s t fs []) \<and>
     file_write_failures (cs_stats t) = file_write_failures (cs_stats s) \<and>
     unaccounted (cs_stats t) = unaccounted (cs_stats s) \<and> records_bounded opts s t"

text \<open>What holds when the loop is left: the same, but for at most one record cut short.\<close>

definition capture_post ::
    "SnifferCaptureOptions \<Rightarrow> 'c capture_state \<Rightarrow> int \<times> 'c capture_state \<Rightarrow> bool" where
  "capture_post opts s = (\<lambda>(code, t).
     (\<exists>fs tail. file_holds (max_payload opts) s t fs tail \<and>
        (tail = [] \<or> code = -1 \<and>
           file_write_failures (cs_stats t) = file_write_failures (cs_stats s) + 1 \<and>
           (\<exists>r w. complete_record (max_payload opts) r \<and> tail = take w r))) \<and>
     (code = 0 \<or> code = -1) \<and>
     (\<exists>k \<le> 18 + max_payload opts. unaccounted (cs_stats t) = unaccounted (cs_stats s) + of_nat k) \<and>
     records_bounded opts s t)"

lemma file_holds_start: "file_holds maxp s s [] []"
  by (simp add: file_holds_def)

lemma file_holds_frame:
  "file_holds maxp s t fs tail \<Longrightarrow> cs_output u = cs_output t \<Longrightarrow>
     records (cs_stats u) = records (cs_stats t) \<Longrightarrow>
     stored_bytes (cs_stats u) = stored_bytes (cs_stats t) \<Longrightarrow> file_holds maxp s u fs tail"
  by (simp add: file_holds_def)

lemma capture_inv_refl: "capture_inv opts s s"
  by (auto simp: capture_inv_def records_bounded_def intro: file_holds_start)

lemma capture_inv_frame:
  assumes "capture_inv opts s t" "cs_output u = cs_output t" "records (cs_stats u) = records (cs_stats t)"
    and "stored_bytes (cs_stats u) = stored_bytes (cs_stats t)"
    and "file_write_failures (cs_stats u) = file_write_failures (cs_stats t)"
    and "unaccounted (cs_stats u) = unaccounted (cs_stats t)"
  shows "capture_inv opts s u"
  using assms by (auto simp: capture_inv_def records_bounded_def intro: file_holds_frame)

lemma capture_post_frame:
  assumes "capture_inv opts s t" "cs_output u = cs_output t" "records (cs_stats u) = records (cs_stats t)"
    and "stored_bytes (cs_stats u) = stored_bytes (cs_stats t)" "code = 0 \<or> code = -1"
    and "unaccounted (cs_stats u) = unaccounted (cs_stats t) + of_nat k" "k \<le> 18 + max_payload opts"
  shows "capture_post opts s (code, u)"
proof -
  from assms(1) obtain fs where "file_holds (max_payload opts) s t fs []"
    by (auto simp: capture_inv_def)
  then have "file_holds (max_payload opts) s u fs []" using assms(2-4) by (rule file_holds_frame)
  moreover have "records_bounded opts s u" "unaccounted (cs_stats u) = unaccounted (cs_stats s) + of_nat k"
    using assms(1,3,6) by (simp_all add: capture_inv_def records_bounded_def)
  ultimately show ?thesis using assms(5,7) unfolding capture_post_def by blast
qed

text \<open>The storing step: the loop goes on with one record more, or ends with a partial one.\<close>

lemma capture_store:
  assumes inv: "capture_inv opts s t" and c: "complete_record (max_payload opts) (raw @ payload)"
    and room: "max_records opts = 0 \<or> records (cs_stats t) < max_records opts"
    and u: "cs_output u = cs_output t" "records (cs_stats u) = records (cs_stats t)"
      "stored_bytes (cs_stats u) = stored_bytes (cs_stats t)"
      "file_write_failures (cs_stats u) = file_write_failures (cs_stats t)"
      "unaccounted (cs_stats u) = unaccounted (cs_stats t) + of_nat (length (raw @ payload))"
    and st: "store_record opts raw payload u = (status, v)"
  shows "status = 0 \<Longrightarrow> capture_inv opts s v" and "status \<noteq> 0 \<Longrightarrow> capture_post opts s (-1, v)"
proof -
  from store_record_facts [OF st] obtain w where w: "w \<le> length (raw @ payload)"
    "fl_data (cs_output v) = fl_data (cs_output u) @ take w (raw @ payload)"
    "stored_bytes (cs_stats v) = stored_bytes (cs_stats u) + of_nat w"
    "unaccounted (cs_stats v) = unaccounted (cs_stats u) - of_nat w"
    "status = 0 \<and> w = length (raw @ payload) \<and> records (cs_stats v) = records (cs_stats u) + 1 \<and>
       file_write_failures (cs_stats v) = file_write_failures (cs_stats u)
     \<or> status = -1 \<and> records (cs_stats v) = records (cs_stats u) \<and>
       file_write_failures (cs_stats v) = file_write_failures (cs_stats u) + 1" by blast
  from inv obtain fs where fs: "file_holds (max_payload opts) s t fs []"
    by (auto simp: capture_inv_def)
  have len: "length (raw @ payload) \<le> 18 + max_payload opts"
    using c by (simp add: complete_record_def SNIFFER_META_SIZE_def)
  show "capture_inv opts s v" if "status = 0"
  proof -
    have full: "w = length (raw @ payload)" and rv: "records (cs_stats v) = records (cs_stats t) + 1"
      and fv: "file_write_failures (cs_stats v) = file_write_failures (cs_stats t)"
      using w(5) that u by auto
    have "records (cs_stats t) + 1 \<le> max_records opts" if "max_records opts \<noteq> 0"
      using room that by (auto intro: inc_le)
    then have "records_bounded opts s v" using rv by (simp add: records_bounded_def)
    moreover have "file_holds (max_payload opts) s v (fs @ [raw @ payload]) []"
      using fs c w(2,3) full u(1,3) rv by (simp add: file_holds_def)
    ultimately show ?thesis using inv w(4) full u(5) fv unfolding capture_inv_def by auto
  qed
  show "capture_post opts s (-1, v)" if "status \<noteq> 0"
  proof -
    have rv: "records (cs_stats v) = records (cs_stats t)"
      and fv: "file_write_failures (cs_stats v) = file_write_failures (cs_stats s) + 1"
      using w(5) that u inv by (auto simp: capture_inv_def)
    have k: "unaccounted (cs_stats v) = unaccounted (cs_stats s) + of_nat (length (raw @ payload) - w)"
      using w(1,4) u(5) inv by (simp add: capture_inv_def of_nat_diff)
    have "file_holds (max_payload opts) s v fs (take w (raw @ payload))"
      using fs w(1-3) u(1,3) rv by (simp add: file_holds_def min_absorb2 del: take_append)
    moreover have "length (raw @ payload) - w \<le> 18 + max_payload opts" using len by simp
    moreover have "records_bounded opts s v" using inv rv by (simp add: capture_inv_def records_bounded_def)
    ultimately show ?thesis using fv k c unfolding capture_post_def by blast
  qed
qed

lemma capture_body_inv:
  assumes inv: "capture_inv opts s t" and b: "capture_body rd opts (pc, t) = Some x"
  shows "x = Inr (pc', u) \<Longrightarrow> capture_inv opts s u" and "x = Inl r \<Longrightarrow> capture_post opts s r"
proof -
  have P: "capture_inv opts s t1" if "poll t = (go, t1)" for go t1
    using poll_frame [OF that] inv by (auto simp: read_frame_def intro: capture_inv_frame)
  have "(\<forall>pc' u. x = Inr (pc', u) \<longrightarrow> capture_inv opts s u) \<and> (\<forall>r. x = Inl r \<longrightarrow> capture_post opts s r)"
    using b
  proof (cases rule: capture_body_cases)
    case (stopped go t1)
    then show ?thesis by (auto intro: capture_post_frame [OF P, where k = 0])
  next
    case (no_meta t1 res raw u)
    from read_next_meta_facts(1,3) [OF no_meta(2)] no_meta P [OF no_meta(1)] show ?thesis
      by (auto simp: read_frame_def intro!: capture_post_frame)
  next
    case (invalid t1 raw u)
    note m = read_next_meta_facts(1,2) [OF invalid(2)]
    then have "unaccounted ((cs_stats u)\<lparr>invalid_lengths := invalid_lengths (cs_stats u) + 1\<rparr>) =
        unaccounted (cs_stats t1)" by simp
    with m invalid(4) show ?thesis
      by (auto simp: read_frame_def intro!: capture_inv_frame [OF P [OF invalid(1)]])
  next
    case (no_payload t1 raw u res payload v)
    note m = read_next_meta_facts(1,2) [OF no_payload(2)]
    note p = read_exact_facts(1,3) [OF no_payload(4)] read_exact_unaccounted [OF no_payload(4)]
    have "unaccounted (cs_stats v) = unaccounted (cs_stats t1) + of_nat (18 + length payload)"
      using m p(3) by simp
    with m(1) p(1,2) no_payload(3,6) show ?thesis
      by (auto simp: read_frame_def
          intro!: capture_post_frame [OF P [OF no_payload(1)], where k = "18 + length payload"])
  next
    case (stored t1 raw u payload v status w)
    let ?v = "out_print (print_payload opts) (print_payload_hex payload) v"
    note m = read_next_meta_facts(1,2) [OF stored(3)]
    note p = read_exact_facts(1-3) [OF stored(5)] read_exact_unaccounted [OF stored(5)]
    have c: "complete_record (max_payload opts) (raw @ payload)"
      using m(2) p(2) stored(4) by (intro complete_record_intro) simp_all
    have v: "cs_output ?v = cs_output t1" "records (cs_stats ?v) = records (cs_stats t1)"
      "stored_bytes (cs_stats ?v) = stored_bytes (cs_stats t1)"
      "file_write_failures (cs_stats ?v) = file_write_failures (cs_stats t1)"
      "unaccounted (cs_stats ?v) = unaccounted (cs_stats t1) + of_nat (length (raw @ payload))"
      using m p by (simp_all add: read_frame_def)
    from capture_store [OF P [OF stored(1)] c stored(2) v stored(6)] stored(7) show ?thesis by auto
  qed
  then show "x = Inr (pc', u) \<Longrightarrow> capture_inv opts s u" "x = Inl r \<Longrightarrow> capture_post opts s r"
    by blast+
qed

text \<open>An early return changes nothing.\<close>

lemma sniffer_capture_cases:
  assumes "sniffer_capture m tr opts s = Some r"
  obtains (rejected) "r = (-1, s)"
  | (runs) rd where "t_read tr = Some rd" "capture_options_valid opts" "m"
      "c_loop (capture_body rd opts) (0, s) = Some r"
  using assms by (auto simp: sniffer_capture_def split: option.splits if_splits)

lemma sniffer_capture_post:
  assumes "sniffer_capture m tr opts s = Some r"
  shows "capture_post opts s r"
  using assms
proof (cases rule: sniffer_capture_cases)
  case rejected
  then show ?thesis by (auto intro: capture_post_frame [OF capture_inv_refl, where k = 0])
next
  case (runs rd)
  show ?thesis
    by (rule c_loop_partial [OF runs(4), where I = "\<lambda>(pc, t). capture_inv opts s t"])
       (auto simp: capture_inv_refl intro: capture_body_inv)
qed

section \<open>A signal makes the capture return\<close>

text \<open>
  Every loop polls the flag at least once per iteration, so a flag that is cleared after \<open>k\<close>
  more reads bounds all of them, whatever the transport does.
\<close>

lemma read_exact_returns:
  assumes "run_le k s"
  shows "\<exists>res d s'. read_exact rd n s = Some (res, d, s') \<and> run_le k s'"
proof -
  have "\<exists>r. c_loop (\<lambda>x. Some (read_exact_body rd n x)) ([], s) = Some r \<and> (case r of (_, _, t) \<Rightarrow> run_le k t)"
  proof (rule c_loop_total [where I = "\<lambda>(_, t). run_le k t" and m = "\<lambda>(_, t). run_left t"])
    fix x x' assume "case x of (_, t) \<Rightarrow> run_le k t" "Some (read_exact_body rd n x) = Some (Inr x')"
    then show "(case x' of (_, t) \<Rightarrow> run_le k t) \<and>
        (case x' of (_, t) \<Rightarrow> run_left t) < (case x of (_, t) \<Rightarrow> run_left t)"
      by (cases x) (auto simp: read_exact_body_def Let_def dest: poll_run_le
          split: prod.splits if_splits SnifferIoStatus.splits)
  next
    fix x r assume "case x of (_, t) \<Rightarrow> run_le k t" "Some (read_exact_body rd n x) = Some (Inl r)"
    then show "case r of (_, _, t) \<Rightarrow> run_le k t"
      by (cases x) (auto simp: read_exact_body_def Let_def dest: poll_run_le
          split: prod.splits if_splits SnifferIoStatus.splits)
  qed (use assms in auto)
  then show ?thesis by (auto simp: read_exact_def)
qed

lemma resync_returns:
  assumes "run_le k s"
  shows "\<exists>stop w n s'. c_loop (resync_body rd) (raw, d, s) = Some (stop, w, n, s') \<and> run_le k s'"
proof -
  have body: "\<exists>y. resync_body rd x = Some y \<and>
      (case y of Inl (_, _, _, u) \<Rightarrow> run_le k u | Inr (_, _, u) \<Rightarrow> run_le k u \<and> run_left u < run_left t)"
    if x: "x = (w, n, t)" and t: "run_le k t" for x w n t
  proof -
    obtain go u where p: "poll t = (go, u)" by (cases "poll t") auto
    note u = poll_run_le [OF p t]
    obtain res e v where r: "read_exact rd 1 u = Some (res, e, v)" "run_le (run_left u) v"
      using read_exact_returns run_le_left u by blast
    moreover have "run_le k v" using r(2) u run_le_left run_le_mono by blast
    moreover have "run_left v \<le> run_left u" using r(2) run_le_left by blast
    ultimately show ?thesis using p u by (auto simp: x resync_body_def Let_def)
  qed
  have "\<exists>r. c_loop (resync_body rd) (raw, d, s) = Some r \<and> (case r of (_, _, _, t) \<Rightarrow> run_le k t)"
  proof (rule c_loop_returns [where I = "\<lambda>(_, _, t). run_le k t" and m = "\<lambda>(_, _, t). run_left t"])
    fix x :: "bytes \<times> u64 \<times> 'a capture_state" assume "case x of (_, _, t) \<Rightarrow> run_le k t"
    then show "\<exists>y. resync_body rd x = Some y \<and> (case y of Inl r \<Rightarrow> (case r of (_, _, _, t) \<Rightarrow> run_le k t)
        | Inr x' \<Rightarrow> (case x' of (_, _, t) \<Rightarrow> run_le k t) \<and>
            (case x' of (_, _, t) \<Rightarrow> run_left t) < (case x of (_, _, t) \<Rightarrow> run_left t))"
      using body by (cases x) (fastforce split: sum.splits)
  qed (use assms in simp)
  then show ?thesis by auto
qed

lemma read_meta_rest_returns:
  assumes "run_le k s"
  shows "\<exists>res raw' s'. read_meta_rest rd raw s = Some (res, raw', s') \<and> run_le k s'"
  using read_exact_returns [OF assms, of rd "SNIFFER_META_SIZE - 4"]
  by (auto simp: read_meta_rest_def)

lemma read_next_meta_returns:
  assumes "run_le k s"
  shows "\<exists>res raw s'. read_next_meta rd s = Some (res, raw, s') \<and> run_le k s'"
proof -
  obtain res raw t where r: "read_exact rd 4 s = Some (res, raw, t)" "run_le k t"
    using read_exact_returns [OF assms] by blast
  obtain stop w n u where l: "c_loop (resync_body rd)
      (raw, 0, upd_stats (\<lambda>st. st\<lparr>magic_errors := magic_errors st + 1\<rparr>) t) = Some (stop, w, n, u)"
      "run_le k u"
    using resync_returns r(2) by (metis run_le_update(1))
  let ?u = "upd_stats (\<lambda>st. st\<lparr>discarded_bytes := discarded_bytes st + n\<rparr>) u"
  obtain go v where p: "poll ?u = (go, v)" by (cases "poll ?u") auto
  have v: "run_le k v" using poll_run_le [OF p] l(2) by simp
  show ?thesis
    using r l p v read_meta_rest_returns [OF r(2), of rd raw]
      read_meta_rest_returns [of k "upd_stats (\<lambda>st. st\<lparr>resynchronizations := resynchronizations st + 1\<rparr>) v" rd w]
    by (auto simp: read_next_meta_def split: option.splits)
qed

lemma store_record_run: "store_record opts raw payload s = (r, s') \<Longrightarrow> cs_running s' = cs_running s"
  using store_record_facts by blast

lemma capture_body_returns:
  assumes "run_le k s"
  shows "\<exists>x. capture_body rd opts (pc, s) = Some x \<and>
    (case x of Inl (_, u) \<Rightarrow> run_le k u | Inr (_, u) \<Rightarrow> run_le k u \<and> run_left u < run_left s)"
proof -
  obtain go s1 where p: "poll s = (go, s1)" by (cases "poll s") auto
  note s1 = poll_run_le [OF p assms]
  obtain res raw t where m: "read_next_meta rd s1 = Some (res, raw, t)" "run_le (run_left s1) t"
    using read_next_meta_returns run_le_left s1 by blast
  let ?t = "out_print (print_records opts) (print_meta (sniffer_decode_meta raw) (pc + 1)) t"
  have t: "run_le (run_left s1) ?t" using m(2) by (simp add: out_print_def)
  obtain res2 payload u where r: "read_exact rd (unat (message_length (sniffer_decode_meta raw))) ?t =
      Some (res2, payload, u)" "run_le (run_left s1) u"
    using read_exact_returns [OF t] by blast
  let ?u = "out_print (print_payload opts) (print_payload_hex payload) u"
  obtain status v where w: "store_record opts raw payload ?u = (status, v)"
    by (cases "store_record opts raw payload ?u") auto
  have le: "run_le k y \<and> run_left y \<le> run_left s1" if "run_le (run_left s1) y" for y :: "'a capture_state"
    using that s1 run_le_left run_le_mono by blast
  have v: "run_le (run_left s1) v"
    using store_record_run [OF w] r(2) by (simp add: run_le_def out_print_def)
  have defined: "\<exists>x. capture_body rd opts (pc, s) = Some x"
    using p m r w by (cases res) (auto simp: capture_body_def Let_def)
  then obtain x where x: "capture_body rd opts (pc, s) = Some x" by blast
  then show ?thesis
  proof (cases rule: capture_body_cases)
    case (stopped go' s')
    with x s1 p show ?thesis by auto
  next
    case (no_meta s' res' raw' t')
    with x m p le [OF m(2)] show ?thesis by auto
  next
    case (invalid s' raw' t')
    with x m p le [OF t] s1 show ?thesis by auto
  next
    case (no_payload s' raw' t' res' payload' u')
    with x m p r le [OF r(2)] show ?thesis by auto
  next
    case (stored s' raw' t' payload' u' status' v')
    with x m p r w le [OF v] s1 show ?thesis by auto
  qed
qed

lemma capture_loop_returns:
  assumes "run_le k s"
  shows "\<exists>r. c_loop (capture_body rd opts) (pc, s) = Some r"
proof -
  have "\<exists>r. c_loop (capture_body rd opts) (pc, s) = Some r \<and> True"
  proof (rule c_loop_returns [where I = "\<lambda>(_, t). run_le k t" and m = "\<lambda>(_, t). run_left t"])
    fix x :: "u64 \<times> 'a capture_state" assume I: "case x of (_, t) \<Rightarrow> run_le k t"
    obtain pc' t where x: "x = (pc', t)" by (cases x)
    with I capture_body_returns [of k t rd opts pc'] show "\<exists>y. capture_body rd opts x = Some y \<and> (case y of Inl r \<Rightarrow> True
        | Inr x' \<Rightarrow> (case x' of (_, t) \<Rightarrow> run_le k t) \<and>
            (case x' of (_, t) \<Rightarrow> run_left t) < (case x of (_, t) \<Rightarrow> run_left t))"
      by (auto split: sum.splits)
  qed (use assms in simp)
  then show ?thesis by simp
qed

end
