(* ===== verification/Capture_Send.thy ===== *)
theory Capture_Send
  imports Sniffer_Capture Mock_Transport
begin

text \<open>
  The sending side, \<open>sniffer_transport_write_all\<close>: the contract of a writer as the locale
  \<open>byte_sink\<close>, what the loop guarantees over any such writer, and the interpretations on the
  test transport and on the staging-buffer adapter, which passes writes through.
\<close>

section \<open>The contract of a writer\<close>

locale byte_sink =
  fixes wr :: "'c SnifferWriteFn"
    and accepted :: "'c \<Rightarrow> bytes"
  assumes wr_length: "wr c d = (status, w, c') \<Longrightarrow> w \<le> length d"
    and wr_accepted: "wr c d = (status, w, c') \<Longrightarrow> accepted c' = accepted c @ take w d"

text \<open>
  The invariant of the loop of \<open>sniffer_transport_write_all\<close>: what was accepted and what is
  still to be written make up the data, and both timeout counters move together.
\<close>

definition sent :: "('c \<Rightarrow> bytes) \<Rightarrow> bytes \<Rightarrow> 'c \<Rightarrow> 'c \<Rightarrow> bytes \<Rightarrow> bool" where
  "sent accepted data c0 c rest \<longleftrightarrow>
     (\<exists>k \<le> length data. rest = drop k data \<and> accepted c = accepted c0 @ take k data)"

definition send_inv ::
    "('c \<Rightarrow> bytes) \<Rightarrow> bytes \<Rightarrow> 'c \<Rightarrow> u64 option \<Rightarrow> 'c write_state \<Rightarrow> bool" where
  "send_inv accepted data c0 t0 = (\<lambda>(rest, timeout_count, c, run, timeouts).
     sent accepted data c0 c rest \<and> timeouts = map_option (\<lambda>t. t + timeout_count) t0)"

lemma send_inv_start: "send_inv accepted data c t0 (data, 0, c, run, t0)"
  by (auto simp: send_inv_def sent_def option.map_ident)

context byte_sink
begin

lemma sent_step:
  assumes "sent accepted data c0 c rest" "wr c rest = (st, w, c')"
  shows "w \<le> length rest" "sent accepted data c0 c' (drop w rest)"
proof -
  from assms(1) obtain k where k: "k \<le> length data" "rest = drop k data"
    "accepted c = accepted c0 @ take k data" by (auto simp: sent_def)
  show "w \<le> length rest" by (rule wr_length [OF assms(2)])
  then show "sent accepted data c0 c' (drop w rest)"
    using k wr_accepted [OF assms(2)] unfolding sent_def
    by (intro exI [of _ "k + w"]) (simp add: take_add add.commute)
qed

lemma write_all_body_inv:
  assumes "send_inv accepted data c0 t0 x" and "write_all_body wr max_timeouts x = y"
  shows "y = Inr x' \<Longrightarrow> send_inv accepted data c0 t0 x'"
    and "y = Inl (status, x') \<Longrightarrow> send_inv accepted data c0 t0 x' \<and>
      (status = 0 \<and> fst x' = [] \<or> status = -1)"
proof -
  obtain rest n c run ts where x: "x = (rest, n, c, run, ts)" by (cases x) auto
  from assms(1) have s: "sent accepted data c0 c rest" and ts: "ts = map_option (\<lambda>t. t + n) t0"
    by (auto simp: send_inv_def x)
  obtain st w c' where w: "wr c rest = (st, w, c')" by (cases "wr c rest") auto
  note step = sent_step [OF s w]
  have ts': "map_option (\<lambda>t. t + 1) ts = map_option (\<lambda>t. t + (n + 1)) t0"
    by (cases t0) (simp_all add: ts add.assoc)
  show "y = Inr x' \<Longrightarrow> send_inv accepted data c0 t0 x'"
    using assms(2) w step s ts ts'
    by (auto simp: x write_all_body_def send_inv_def Let_def split: if_splits prod.splits SnifferIoStatus.splits)
  show "y = Inl (status, x') \<Longrightarrow> send_inv accepted data c0 t0 x' \<and> (status = 0 \<and> fst x' = [] \<or> status = -1)"
    using assms(2) w step s ts ts'
    by (auto simp: x write_all_body_def send_inv_def Let_def split: if_splits prod.splits SnifferIoStatus.splits)
qed

lemma write_all_inv:
  assumes "t_write transport = Some wr"
    and "sniffer_transport_write_all transport data max_timeouts c run t0 = Some (status, x)"
  shows "send_inv accepted data c t0 x \<and> (status = 0 \<and> fst x = [] \<or> status = -1)"
proof -
  let ?Q = "\<lambda>(status, x). send_inv accepted data c t0 x \<and> (status = 0 \<and> fst x = [] \<or> status = -1)"
  have "c_loop (\<lambda>x. Some (write_all_body wr max_timeouts x)) (data, 0, c, run, t0) = Some (status, x)"
    using assms by (simp add: sniffer_transport_write_all_def)
  then have "?Q (status, x)"
  proof (rule c_loop_partial [where I = "send_inv accepted data c t0"])
    fix y y' assume "send_inv accepted data c t0 y" "Some (write_all_body wr max_timeouts y) = Some (Inr y')"
    then show "send_inv accepted data c t0 y'" using write_all_body_inv(1) by blast
  next
    fix y r assume "send_inv accepted data c t0 y" "Some (write_all_body wr max_timeouts y) = Some (Inl r)"
    then show "?Q r" using write_all_body_inv(2) by (cases r) blast
  qed (rule send_inv_start)
  then show ?thesis by simp
qed

end

section \<open>The signal\<close>

lemma write_all_returns:
  assumes "run = Some k"
  shows "\<exists>r. c_loop (\<lambda>x. Some (write_all_body wr max_timeouts x)) (data, n, c, run, ts) = Some r"
proof -
  have "\<exists>r. c_loop (\<lambda>x. Some (write_all_body wr max_timeouts x)) (data, n, c, run, ts) = Some r \<and> True"
  proof (rule c_loop_returns [where I = "\<lambda>(_, _, _, run, _). run \<noteq> None" and
        m = "\<lambda>(_, _, _, run, _). case run of None \<Rightarrow> 0 | Some k \<Rightarrow> k"])
    fix x :: "'a write_state" assume I: "case x of (_, _, _, run, _) \<Rightarrow> run \<noteq> None"
    obtain rest m c j ts where x: "x = (rest, m, c, Some j, ts)" using I by (cases x) auto
    show "\<exists>y. Some (write_all_body wr max_timeouts x) = Some y \<and> (case y of Inl r \<Rightarrow> True
        | Inr x' \<Rightarrow> (case x' of (_, _, _, run, _) \<Rightarrow> run \<noteq> None) \<and>
            (case x' of (_, _, _, run, _) \<Rightarrow> case run of None \<Rightarrow> 0 | Some k \<Rightarrow> k) <
            (case x of (_, _, _, run, _) \<Rightarrow> case run of None \<Rightarrow> 0 | Some k \<Rightarrow> k))"
      by (cases j) (auto simp: x write_all_body_def Let_def split: prod.splits SnifferIoStatus.splits)
  qed (use assms in simp)
  then show ?thesis by simp
qed

section \<open>The writers of the model\<close>

interpretation mock_sink: byte_sink mock_write mk_output
  by unfold_locales (auto simp: mock_write_def Let_def split: if_splits)

text \<open>The adapter passes writes through, so it keeps the contract of what it is put upon.\<close>

lemma buffered_write_some:
  "buffered_write (Some wr) b d = (status, w, b') \<longleftrightarrow>
     (\<exists>c'. wr (bf_context b) d = (status, w, c') \<and> b' = b\<lparr>bf_context := c'\<rparr>)"
  by (auto simp: buffered_write_def split: prod.splits)

context byte_sink
begin

lemma buffered_sink: "byte_sink (buffered_write (Some wr)) (\<lambda>b. accepted (bf_context b))"
  by unfold_locales (auto simp: buffered_write_some wr_length dest: wr_accepted wr_length)

end

interpretation buffered_mock_sink: byte_sink "buffered_write (Some mock_write)" "\<lambda>b. mk_output (bf_context b)"
  by unfold_locales (auto simp: buffered_write_some mock_sink.wr_length dest: mock_sink.wr_accepted mock_sink.wr_length)

text \<open>The test transport delivers everything when it has room and its timeouts stay within the limit.\<close>

lemma mock_write_all_loop:
  assumes "length (mk_output c) + length rest \<le> 256"
    and "unat n + mk_write_timeouts_before_data c \<le> unat max_timeouts"
  shows "\<exists>x. c_loop (\<lambda>x. Some (write_all_body mock_write max_timeouts x)) (rest, n, c, None, ts) = Some (0, x)"
  using assms
proof (induction "mk_write_timeouts_before_data c + length rest" arbitrary: c rest n ts rule: less_induct)
  case less
  show ?case
  proof (cases "rest = []")
    case True
    then show ?thesis by (subst c_loop.simps) (simp add: write_all_body_def)
  next
    case False
    show ?thesis
    proof (cases "0 < mk_write_timeouts_before_data c")
      case True
      let ?c = "c\<lparr>mk_write_timeouts_before_data := mk_write_timeouts_before_data c - 1\<rparr>"
      have "unat n + 1 \<le> unat max_timeouts" using less.prems(2) True by simp
      moreover have "unat max_timeouts < 2 ^ 64" using unsigned_less [of max_timeouts, where 'a=nat] by simp
      ultimately have n: "unat (n + 1) = unat n + 1" by (simp add: unat_word_ariths)
      then have "\<not> max_timeouts < n + 1" using less.prems(2) True by (simp add: word_less_nat_alt)
      then have body: "write_all_body mock_write max_timeouts (rest, n, c, None, ts) =
          Inr (rest, n + 1, ?c, None, map_option (\<lambda>t. t + 1) ts)"
        using True False by (simp add: write_all_body_def mock_write_def)
      have "\<exists>x. c_loop (\<lambda>x. Some (write_all_body mock_write max_timeouts x))
          (rest, n + 1, ?c, None, map_option (\<lambda>t. t + 1) ts) = Some (0, x)"
        by (rule less.hyps) (use True less.prems n in simp_all)
      then show ?thesis by (subst c_loop.simps) (simp add: body)
    next
      case no_timeout: False
      obtain status w c' where w: "mock_write c rest = (status, w, c')" by (cases "mock_write c rest") auto
      from w less.prems no_timeout False have
        "status = SNIFFER_IO_DATA \<and> 0 < w \<and> w \<le> length rest \<and> mk_write_timeouts_before_data c' = 0 \<and>
          length (mk_output c') = length (mk_output c) + w"
        by (auto simp: mock_write_def Let_def split: if_splits)
      then have body: "write_all_body mock_write max_timeouts (rest, n, c, None, ts) =
          Inr (drop w rest, n, c', None, ts)"
        and w': "0 < w" "w \<le> length rest" "mk_write_timeouts_before_data c' = 0"
          "length (mk_output c') = length (mk_output c) + w"
        using False w by (auto simp: write_all_body_def)
      have "\<exists>x. c_loop (\<lambda>x. Some (write_all_body mock_write max_timeouts x)) (drop w rest, n, c', None, ts) = Some (0, x)"
        by (rule less.hyps) (use w' less.prems no_timeout in simp_all)
      then show ?thesis by (subst c_loop.simps) (simp add: body)
    qed
  qed
qed

end
