(* ===== verification/Capture_Context.thy ===== *)
theory Capture_Context
  imports Capture_Safety Capture_Send
begin

text \<open>
  The capture touches the context of its transport through the read function only, and a send
  through the write function only: what those preserve, a whole capture or send preserves. The
  programs use this for the resources that the context holds.
\<close>

locale reader_keeps =
  fixes rd :: "'c SnifferReadFn"
    and keeps :: "'c \<Rightarrow> bool"
  assumes rd_keeps: "keeps c \<Longrightarrow> rd c n = (status, d, c') \<Longrightarrow> keeps c'"

context reader_keeps
begin

abbreviation kept :: "'c capture_state \<Rightarrow> bool" where
  "kept s \<equiv> keeps (cs_context s)"

lemma poll_kept: "poll s = (go, s') \<Longrightarrow> cs_context s' = cs_context s"
  by (auto elim!: poll_cases)

lemma read_exact_kept:
  assumes "read_exact rd n s = Some (res, buf, s')" "kept s"
  shows "kept s'"
proof -
  let ?Q = "\<lambda>(res, b, t). kept t"
  have "?Q (res, buf, s')"
  proof (rule c_loop_partial [OF assms(1) [unfolded read_exact_def], where I = "\<lambda>(b, t). kept t"])
    fix x x' assume "case x of (b, t) \<Rightarrow> kept t" "Some (read_exact_body rd n x) = Some (Inr x')"
    then show "case x' of (b, t) \<Rightarrow> kept t"
      by (cases x) (auto simp: read_exact_body_def Let_def elim!: poll_cases dest: rd_keeps
          split: prod.splits if_splits SnifferIoStatus.splits)
  next
    fix x r assume "case x of (b, t) \<Rightarrow> kept t" "Some (read_exact_body rd n x) = Some (Inl r)"
    then show "?Q r"
      by (cases x) (auto simp: read_exact_body_def Let_def elim!: poll_cases dest: rd_keeps
          split: prod.splits if_splits SnifferIoStatus.splits)
  qed (use assms(2) in simp)
  then show ?thesis by simp
qed

lemma resync_body_kept:
  assumes "resync_body rd (raw, n, s) = Some y" "kept s"
  shows "case y of Inl (stop, raw', m, s') \<Rightarrow> kept s' | Inr (raw', m, s') \<Rightarrow> kept s'"
proof -
  obtain go s0 where p: "poll s = (go, s0)" by (cases "poll s") auto
  have k0: "kept s0" using poll_kept [OF p] assms(2) by simp
  show ?thesis
  proof (cases "go \<and> \<not> magic_matches raw")
    case False
    then show ?thesis using assms(1) k0 by (auto simp: resync_body_def p)
  next
    case True
    with assms(1) obtain res d s1 where r: "read_exact rd 1 s0 = Some (res, d, s1)"
      by (auto simp: resync_body_def p bind_eq_Some_conv)
    show ?thesis using assms(1) True r read_exact_kept [OF r k0]
      by (auto simp: resync_body_def p Let_def split: if_splits)
  qed
qed

lemma resync_kept:
  assumes "c_loop (resync_body rd) (raw, n, s) = Some (stop, raw', m, s')" "kept s"
  shows "kept s'"
proof -
  let ?Q = "\<lambda>(stop, raw, m, t). kept t"
  have "?Q (stop, raw', m, s')"
  proof (rule c_loop_partial [OF assms(1), where I = "\<lambda>(raw, m, t). kept t"])
    fix x x' assume "case x of (raw, m, t) \<Rightarrow> kept t" "resync_body rd x = Some (Inr x')"
    then show "case x' of (raw, m, t) \<Rightarrow> kept t" using resync_body_kept by (cases x) fastforce
  next
    fix x r assume "case x of (raw, m, t) \<Rightarrow> kept t" "resync_body rd x = Some (Inl r)"
    then show "?Q r" using resync_body_kept by (cases x) fastforce
  qed (use assms(2) in simp)
  then show ?thesis by simp
qed

lemma read_meta_rest_kept:
  "read_meta_rest rd raw s = Some (res, raw', s') \<Longrightarrow> kept s \<Longrightarrow> kept s'"
  by (auto simp: read_meta_rest_def bind_eq_Some_conv dest: read_exact_kept)

lemma read_next_meta_kept:
  assumes "read_next_meta rd s = Some (res, raw, s')" "kept s"
  shows "kept s'"
proof -
  obtain res1 raw1 s1 where r1: "read_exact rd 4 s = Some (res1, raw1, s1)"
    using assms by (auto simp: read_next_meta_def bind_eq_Some_conv)
  note k1 = read_exact_kept [OF r1 assms(2)]
  consider (short) "res1 \<noteq> EXACT_OK" | (match) "res1 = EXACT_OK" "magic_matches raw1"
    | (resync) "res1 = EXACT_OK" "\<not> magic_matches raw1" by blast
  then show ?thesis
  proof cases
    case short
    with assms(1) r1 k1 show ?thesis by (auto simp: read_next_meta_def)
  next
    case match
    with assms(1) r1 k1 show ?thesis by (auto simp: read_next_meta_def dest: read_meta_rest_kept)
  next
    case resync
    let ?s1 = "upd_stats (\<lambda>st. st\<lparr>magic_errors := magic_errors st + 1\<rparr>) s1"
    from assms(1) r1 resync obtain stop w n t where l: "c_loop (resync_body rd) (raw1, 0, ?s1) = Some (stop, w, n, t)"
      by (auto simp: read_next_meta_def bind_eq_Some_conv)
    have kt: "kept t" by (rule resync_kept [OF l]) (use k1 in simp)
    let ?t = "upd_stats (\<lambda>st. st\<lparr>discarded_bytes := discarded_bytes st + n\<rparr>) t"
    obtain go t2 where p: "poll ?t = (go, t2)" by (cases "poll ?t") auto
    have k2: "kept t2" using poll_kept [OF p] kt by simp
    show ?thesis using assms(1) r1 resync l p kt k2
      by (auto simp: read_next_meta_def dest!: read_meta_rest_kept split: option.splits if_splits)
  qed
qed

lemma store_record_kept: "store_record opts raw payload s = (r, s') \<Longrightarrow> cs_context s' = cs_context s"
  by (auto simp: store_record_def Let_def dest!: write_file_all_facts split: prod.splits if_splits)

lemma capture_body_kept:
  assumes "capture_body rd opts (pc, s) = Some y" "kept s"
  shows "case y of Inl (r, s') \<Rightarrow> kept s' | Inr (pc', s') \<Rightarrow> kept s'"
proof -
  obtain go s0 where p: "poll s = (go, s0)" by (cases "poll s") auto
  have k0: "kept s0" using poll_kept [OF p] assms(2) by simp
  show ?thesis
  proof (cases "go \<and> (max_records opts = 0 \<or> records (cs_stats s0) < max_records opts)")
    case False
    then show ?thesis using assms(1) k0 by (auto simp: capture_body_def p)
  next
    case True
    with assms(1) obtain res raw s1 where r: "read_next_meta rd s0 = Some (res, raw, s1)"
      by (auto simp: capture_body_def p bind_eq_Some_conv)
    note k1 = read_next_meta_kept [OF r k0]
    show ?thesis
    proof (cases "res = EXACT_OK")
      case False
      then show ?thesis using assms(1) True r k1
        by (cases res) (auto simp: capture_body_def p)
    next
      case ok: True
      let ?len = "unat (message_length (sniffer_decode_meta raw))"
      let ?s2 = "out_print (print_records opts) (print_meta (sniffer_decode_meta raw) (pc + 1)) s1"
      show ?thesis
      proof (cases "max_payload opts < ?len")
        case long: True
        then show ?thesis using assms(1) True r ok k1 by (auto simp: capture_body_def p Let_def)
      next
        case fits: False
        with assms(1) True r ok obtain res2 payload s3 where r2: "read_exact rd ?len ?s2 = Some (res2, payload, s3)"
          by (auto simp: capture_body_def p Let_def bind_eq_Some_conv)
        have k3: "kept s3" by (rule read_exact_kept [OF r2]) (use k1 in simp)
        let ?s4 = "out_print (print_payload opts) (print_payload_hex payload) s3"
        obtain status s5 where st: "store_record opts raw payload ?s4 = (status, s5)"
          by (cases "store_record opts raw payload ?s4")
        have k5: "kept s5" using store_record_kept [OF st] k3 by simp
        show ?thesis using assms(1) True r ok fits r2 st k3 k5
          by (cases "res2 = EXACT_OK") (auto simp: capture_body_def p Let_def split: if_splits)
      qed
    qed
  qed
qed

lemma sniffer_capture_kept:
  assumes "sniffer_capture malloc_ok transport opts s = Some (r, s')" "t_read transport = Some rd" "kept s"
  shows "kept s'"
proof (cases "capture_options_valid opts \<and> malloc_ok")
  case True
  with assms have "c_loop (capture_body rd opts) (0, s) = Some (r, s')" by (simp add: sniffer_capture_def)
  then have "(\<lambda>(r, t). kept t) (r, s')"
  proof (rule c_loop_partial [where I = "\<lambda>(pc, t). kept t"])
    fix x x' assume "case x of (pc, t) \<Rightarrow> kept t" "capture_body rd opts x = Some (Inr x')"
    then show "case x' of (pc, t) \<Rightarrow> kept t" using capture_body_kept by (cases x) fastforce
  next
    fix x r assume "case x of (pc, t) \<Rightarrow> kept t" "capture_body rd opts x = Some (Inl r)"
    then show "case r of (r, t) \<Rightarrow> kept t" using capture_body_kept by (cases x) fastforce
  qed (use assms(3) in simp)
  then show ?thesis by simp
next
  case False
  then show ?thesis using assms by (auto simp: sniffer_capture_def split: if_splits)
qed

text \<open>The staging buffer calls the reader on the context it was given, at most once a read.\<close>

lemma buffered_keeps: "reader_keeps (buffered_read rd) (\<lambda>b. keeps (bf_context b))"
proof
  fix b n status d b'
  assume "keeps (bf_context b)" "buffered_read rd b n = (status, d, b')"
  then show "keeps (bf_context b')"
    by (auto simp: buffered_read_def buffered_deliver_def Let_def dest: rd_keeps split: prod.splits if_splits)
qed

end

locale writer_keeps =
  fixes wr :: "'c SnifferWriteFn"
    and keeps :: "'c \<Rightarrow> bool"
  assumes wr_keeps: "keeps c \<Longrightarrow> wr c d = (status, w, c') \<Longrightarrow> keeps c'"

context writer_keeps
begin

lemma write_all_kept:
  assumes "sniffer_transport_write_all transport data max_timeouts c run t0 = Some (status, rest, n, c', run', t1)"
    and "t_write transport = Some wr" "keeps c"
  shows "keeps c'"
proof -
  let ?I = "\<lambda>(rest, n, c, run, ts). keeps c"
  have "c_loop (\<lambda>x. Some (write_all_body wr max_timeouts x)) (data, 0, c, run, t0) = Some (status, rest, n, c', run', t1)"
    using assms by (simp add: sniffer_transport_write_all_def)
  then have "(\<lambda>(status, x). ?I x) (status, rest, n, c', run', t1)"
  proof (rule c_loop_partial [where I = ?I])
    fix x x' assume "?I x" "Some (write_all_body wr max_timeouts x) = Some (Inr x')"
    then show "?I x'"
      by (cases x) (auto simp: write_all_body_def Let_def dest: wr_keeps
          split: if_splits prod.splits SnifferIoStatus.splits)
  next
    fix x r assume "?I x" "Some (write_all_body wr max_timeouts x) = Some (Inl r)"
    then show "(\<lambda>(status, x). ?I x) r"
      by (cases x) (auto simp: write_all_body_def Let_def dest: wr_keeps
          split: if_splits prod.splits SnifferIoStatus.splits)
  qed (use assms(3) in simp)
  then show ?thesis by simp
qed

lemma buffered_keeps: "writer_keeps (buffered_write (Some wr)) (\<lambda>b. keeps (bf_context b))"
  by unfold_locales (auto simp: buffered_write_some dest: wr_keeps)

end

end
