(* ===== verification/Libusb_Transport.thy ===== *)
theory Libusb_Transport
  imports Capture_Refine Capture_Context Libusb
begin

unbundle bit_operations_syntax

text \<open>
  The transport of the capture program, \<open>libusb_transport.c\<close>: listing, opening and closing the
  device, and the two functions of the adapter. The configuration descriptors that the library
  allocates are not counted among the resources. Diagnostics are left out.
\<close>

section \<open>The code\<close>

record LibusbDeviceOptions =
  vendor_id :: u16
  product_id :: u16
  interface_number :: int
  endpoint_in :: u8
  endpoint_out :: u8
  timeout_ms :: u32
  bus_number :: int
  device_address :: int

text \<open>
  \<open>lt_context\<close> says that the context is not NULL; the handle is \<open>None\<close> when it is NULL and
  else the device it was opened for.
\<close>

record LibusbTransport =
  lt_context :: bool
  lt_handle :: "usb_device option"
  lt_options :: LibusbDeviceOptions
  lt_interface_claimed :: bool

definition zero_transport :: LibusbTransport where
  "zero_transport = \<lparr>lt_context = False, lt_handle = None,
     lt_options = \<lparr>vendor_id = 0, product_id = 0, interface_number = 0, endpoint_in = 0,
       endpoint_out = 0, timeout_ms = 0, bus_number = 0, device_address = 0\<rparr>,
     lt_interface_claimed = False\<rparr>"

definition device_matches :: "usb_device \<Rightarrow> LibusbDeviceOptions \<Rightarrow> bool" where
  "device_matches device options =
     (case dev_ids device of
        None \<Rightarrow> False
      | Some (vendor, product) \<Rightarrow>
          if vendor \<noteq> vendor_id options \<or> product \<noteq> product_id options then False
          else if 0 \<le> bus_number options \<and> dev_bus device \<noteq> word_of_int (bus_number options) then False
          else if 0 \<le> device_address options \<and>
                  dev_address device \<noteq> word_of_int (device_address options) then False
          else True)"

definition print_device :: "usb_device \<Rightarrow> string" where
  "print_device device =
     ''bus='' @ fmt_u (unat (dev_bus device)) @ '' address='' @ fmt_u (unat (dev_address device)) @
     '' vid=0x'' @ fmt_0X 4 (unat (fst (the (dev_ids device)))) @
     '' pid=0x'' @ fmt_0X 4 (unat (snd (the (dev_ids device)))) @ nl"

definition print_endpoint :: "usb_endpoint \<Rightarrow> string" where
  "print_endpoint candidate =
     ''0x'' @ fmt_0X 2 (unat (bEndpointAddress candidate)) @ ''/'' @
     (if bmAttributes candidate AND 3 = 2 then ''bulk'' else ''other'') @
     ''/max'' @ fmt_u (unat (wMaxPacketSize candidate))"

fun print_endpoints :: "bool \<Rightarrow> usb_endpoint list \<Rightarrow> string" where
  "print_endpoints first [] = nl"
| "print_endpoints first (candidate # rest) =
     (if first then [] else '','') @ print_endpoint candidate @ print_endpoints False rest"

definition print_setting :: "int \<Rightarrow> usb_setting \<Rightarrow> string" where
  "print_setting intf setting =
     (if int (unat (bInterfaceNumber setting)) \<noteq> intf \<or> bAlternateSetting setting \<noteq> 0 then []
      else ''  interface='' @ fmt_u (unat (bInterfaceNumber setting)) @ '' alt='' @
           fmt_u (unat (bAlternateSetting setting)) @ '' endpoints='' @
           print_endpoints True (setting_endpoints setting))"

definition fmt_d :: "int \<Rightarrow> string" where
  "fmt_d i = (if i < 0 then ''-'' @ fmt_u (nat (- i)) else fmt_u (nat i))"

definition print_interface_endpoints :: "usb_device \<Rightarrow> int \<Rightarrow> string" where
  "print_interface_endpoints device intf =
     (case dev_config device of
        None \<Rightarrow> ''  interface='' @ fmt_d intf @ '' endpoints=unavailable'' @ nl
      | Some config \<Rightarrow> concat (map (\<lambda>settings. concat (map (print_setting intf) settings)) config))"

text \<open>The number of matches or \<open>-1\<close>, and the text printed.\<close>

definition libusb_transport_list ::
    "'w libusb \<Rightarrow> LibusbDeviceOptions \<Rightarrow> 'w usb \<Rightarrow> int \<times> string \<times> 'w usb" where
  "libusb_transport_list L options s =
     (case usb_init L s of (r, s) \<Rightarrow>
        if r \<noteq> LIBUSB_SUCCESS then (-1, [], s)
        else case usb_device_list L s of
          (None, s) \<Rightarrow> (-1, [], usb_exit s)
        | (Some devices, s) \<Rightarrow>
            let ms = filter (\<lambda>d. device_matches d options) devices
            in (int (length ms),
                concat (map (\<lambda>d. print_device d @ print_interface_endpoints d (interface_number options)) ms),
                usb_exit (usb_free_list s)))"

definition setting_has_bulk :: "int \<Rightarrow> u8 \<Rightarrow> usb_setting \<Rightarrow> bool" where
  "setting_has_bulk intf endpoint setting =
     (if int (unat (bInterfaceNumber setting)) \<noteq> intf \<or> bAlternateSetting setting \<noteq> 0 then False
      else list_ex (\<lambda>candidate. bEndpointAddress candidate = endpoint \<and> bmAttributes candidate AND 3 = 2)
             (setting_endpoints setting))"

definition endpoint_is_bulk :: "usb_device \<Rightarrow> int \<Rightarrow> u8 \<Rightarrow> bool" where
  "endpoint_is_bulk device intf endpoint =
     (case dev_active_config device of
        None \<Rightarrow> False
      | Some config \<Rightarrow> list_ex (list_ex (setting_has_bulk intf endpoint)) config)"

definition libusb_transport_close :: "LibusbTransport \<Rightarrow> 'w usb \<Rightarrow> LibusbTransport \<times> 'w usb" where
  "libusb_transport_close transport s =
     (let s = (if lt_interface_claimed transport \<and> lt_handle transport \<noteq> None then usb_release s else s);
          s = (if lt_handle transport \<noteq> None then usb_close s else s);
          s = (if lt_context transport then usb_exit s else s)
      in (zero_transport, s))"

text \<open>The loop that selects the device: the last match, and the number of matches.\<close>

fun select_loop :: "LibusbDeviceOptions \<Rightarrow> usb_device list \<Rightarrow> usb_device option \<Rightarrow> nat \<Rightarrow> usb_device option \<times> nat" where
  "select_loop options [] selected match_count = (selected, match_count)"
| "select_loop options (device # rest) selected match_count =
     (if device_matches device options then select_loop options rest (Some device) (match_count + 1)
      else select_loop options rest selected match_count)"

text \<open>The open from the claim of the interface on.\<close>

definition transport_claim ::
    "'w libusb \<Rightarrow> LibusbDeviceOptions \<Rightarrow> bool \<Rightarrow> bool \<Rightarrow> usb_device \<Rightarrow> LibusbTransport \<Rightarrow> 'w usb \<Rightarrow>
     int \<times> LibusbTransport \<times> 'w usb" where
  "transport_claim L options require_in require_out d t s =
     (case usb_auto_detach L s of (_, s) \<Rightarrow>
        case usb_claim L (interface_number options) s of (r, s) \<Rightarrow>
          if r \<noteq> LIBUSB_SUCCESS then (-1, libusb_transport_close t s)
          else
            let t = t\<lparr>lt_interface_claimed := True\<rparr>
            in if require_in \<and> \<not> endpoint_is_bulk d (interface_number options) (endpoint_in options) \<or>
                  require_out \<and> \<not> endpoint_is_bulk d (interface_number options) (endpoint_out options)
               then (-1, libusb_transport_close t s)
               else if require_in
               then (case usb_clear_halt L (endpoint_in options) s of (_, s) \<Rightarrow> (0, t, s))
               else (0, t, s))"

definition libusb_transport_open ::
    "'w libusb \<Rightarrow> LibusbDeviceOptions \<Rightarrow> bool \<Rightarrow> bool \<Rightarrow> 'w usb \<Rightarrow> int \<times> LibusbTransport \<times> 'w usb" where
  "libusb_transport_open L options require_in require_out s =
     (let t = zero_transport\<lparr>lt_options := options\<rparr>;
          fail = (\<lambda>t s. (-1, libusb_transport_close t s))
      in case usb_init L s of (r, s) \<Rightarrow>
        if r \<noteq> LIBUSB_SUCCESS then (-1, t, s)
        else let t = t\<lparr>lt_context := True\<rparr> in
          case usb_device_list L s of
            (None, s) \<Rightarrow> fail t s
          | (Some devices, s) \<Rightarrow>
              (case select_loop options devices None 0 of (selected, match_count) \<Rightarrow>
                 if bus_number options < 0 \<and> device_address options < 0 \<and> 1 < match_count
                 then fail t (usb_free_list s)
                 else
                   let (t, s) = (case selected of
                         None \<Rightarrow> (t, s)
                       | Some d \<Rightarrow> (case usb_open L d s of (r, s) \<Rightarrow>
                           if r = LIBUSB_SUCCESS
                           then (t\<lparr>lt_handle := Some d, lt_options := options\<lparr>bus_number := uint (dev_bus d),
                                   device_address := uint (dev_address d)\<rparr>\<rparr>, s)
                           else (t, s)));
                       s = usb_free_list s
                   in case lt_handle t of
                        None \<Rightarrow> fail t s
                      | Some d \<Rightarrow>
                          transport_claim L options require_in require_out d t s))"

text \<open>
  The reader and the writer over the pair of the transport and the USB library's state.
\<close>

definition INT_MAX :: nat where "INT_MAX = 2147483647"

definition usb_read :: "'w libusb \<Rightarrow> (LibusbTransport \<times> 'w usb) SnifferReadFn" where
  "usb_read L = (\<lambda>(t, s) capacity.
     let request = (if INT_MAX < capacity then INT_MAX else capacity)
     in case usb_bulk_in L (endpoint_in (lt_options t)) request (unat (timeout_ms (lt_options t))) s of
          (response, received, s) \<Rightarrow>
            (if response = LIBUSB_ERROR_TIMEOUT then SNIFFER_IO_TIMEOUT
             else if response = LIBUSB_ERROR_INTERRUPTED then SNIFFER_IO_INTERRUPTED
             else if response = LIBUSB_ERROR_NO_DEVICE then SNIFFER_IO_ERROR
             else if response \<noteq> LIBUSB_SUCCESS then SNIFFER_IO_ERROR
             else if 0 < length received then SNIFFER_IO_DATA else SNIFFER_IO_TIMEOUT,
             received, (t, s)))"

definition usb_write :: "'w libusb \<Rightarrow> (LibusbTransport \<times> 'w usb) SnifferWriteFn" where
  "usb_write L = (\<lambda>(t, s) data.
     let request = (if INT_MAX < length data then INT_MAX else length data)
     in case usb_bulk_out L (endpoint_out (lt_options t)) (take request data) (unat (timeout_ms (lt_options t))) s of
          (response, transferred, s) \<Rightarrow>
            let written = (if 0 < transferred then nat transferred else 0)
            in (if response = LIBUSB_ERROR_TIMEOUT then SNIFFER_IO_TIMEOUT
                else if response = LIBUSB_ERROR_INTERRUPTED then SNIFFER_IO_INTERRUPTED
                else if response = LIBUSB_ERROR_NO_DEVICE then SNIFFER_IO_ERROR
                else if response \<noteq> LIBUSB_SUCCESS then SNIFFER_IO_ERROR
                else if 0 < written then SNIFFER_IO_DATA else SNIFFER_IO_ERROR,
                written, (t, s)))"

definition libusb_transport_adapter :: "'w libusb \<Rightarrow> (LibusbTransport \<times> 'w usb) SnifferTransport" where
  "libusb_transport_adapter L = \<lparr>t_read = Some (usb_read L), t_write = Some (usb_write L)\<rparr>"

section \<open>Opening and closing\<close>

text \<open>What a transport holds.\<close>

definition transport_holds :: "LibusbTransport \<Rightarrow> int \<times> int \<times> int \<times> int" where
  "transport_holds t = (of_bool (lt_context t), 0, of_bool (lt_handle t \<noteq> None),
     of_bool (lt_interface_claimed t \<and> lt_handle t \<noteq> None))"

definition balance_neg :: "int \<times> int \<times> int \<times> int \<Rightarrow> int \<times> int \<times> int \<times> int" where
  "balance_neg = (\<lambda>(a, b, c, d). (- a, - b, - c, - d))"

lemma close_held:
  "libusb_transport_close t s = (t', s') \<Longrightarrow>
   t' = zero_transport \<and> held (us_calls s') = balance_add (held (us_calls s)) (balance_neg (transport_holds t))"
  by (auto simp: libusb_transport_close_def transport_holds_def balance_neg_def usb_release_def usb_close_def
      usb_exit_def balance_assoc Let_def split: if_splits)

lemma transport_holds_zero: "transport_holds zero_transport = (0, 0, 0, 0)"
  by (simp add: transport_holds_def zero_transport_def)

lemma close_failure:
  assumes "libusb_transport_close u s = (t, s')" "held (us_calls s) = balance_add h (transport_holds u)"
  shows "transport_holds t = (0, 0, 0, 0)" "held (us_calls s') = h"
proof -
  have "balance_add (transport_holds u) (balance_neg (transport_holds u)) = (0, 0, 0, 0)"
    by (cases "transport_holds u") (simp add: balance_neg_def)
  then show "held (us_calls s') = h" using close_held [OF assms(1)] assms(2) by (simp add: balance_assoc)
  show "transport_holds t = (0, 0, 0, 0)" using close_held [OF assms(1)] transport_holds_zero by simp
qed

lemma claim_outcome:
  assumes "transport_claim L options require_in require_out d t s = (r, t', s')"
    and "lt_context t" "lt_handle t = Some d" "\<not> lt_interface_claimed t"
    and "held (us_calls s) = balance_add h (1, 0, 1, 0)"
  shows "r = -1 \<and> transport_holds t' = (0, 0, 0, 0) \<and> held (us_calls s') = h \<or>
    r = 0 \<and> t' = t\<lparr>lt_interface_claimed := True\<rparr> \<and> held (us_calls s') = balance_add h (1, 0, 1, 1) \<and>
    (require_in \<longrightarrow> endpoint_is_bulk d (interface_number options) (endpoint_in options)) \<and>
    (require_out \<longrightarrow> endpoint_is_bulk d (interface_number options) (endpoint_out options))"
proof -
  let ?s5 = "snd (usb_auto_detach L s)" and ?t = "t\<lparr>lt_interface_claimed := True\<rparr>"
  have h5: "held (us_calls ?s5) = balance_add h (1, 0, 1, 0)"
    using assms(5) by (simp add: usb_auto_detach_def split: prod.splits)
  obtain r3 s6 where c: "usb_claim L (interface_number options) ?s5 = (r3, s6)"
    by (cases "usb_claim L (interface_number options) ?s5") auto
  have h6: "held (us_calls s6) = balance_add h (1, 0, 1, of_bool (r3 = LIBUSB_SUCCESS))"
    using c h5 by (auto simp: usb_claim_def balance_assoc split: prod.splits)
  note run = assms(1) [unfolded transport_claim_def case_prod_beta c [unfolded case_prod_beta] fst_conv snd_conv Let_def]
  have holds: "transport_holds t = (1, 0, 1, 0)" "transport_holds ?t = (1, 0, 1, 1)"
    using assms(2-4) by (simp_all add: transport_holds_def)
  consider (unclaimed) "r3 \<noteq> LIBUSB_SUCCESS" "r = -1" "libusb_transport_close t s6 = (t', s')"
    | (absent) "r3 = LIBUSB_SUCCESS" "r = -1" "libusb_transport_close ?t s6 = (t', s')"
    | (ready) "r3 = LIBUSB_SUCCESS" "r = 0" "t' = ?t" "s' = s6 \<or> s' = snd (usb_clear_halt L (endpoint_in options) s6)"
        "require_in \<longrightarrow> endpoint_is_bulk d (interface_number options) (endpoint_in options)"
        "require_out \<longrightarrow> endpoint_is_bulk d (interface_number options) (endpoint_out options)"
    using run by (auto split: if_splits)
  then show ?thesis
  proof cases
    case unclaimed
    then show ?thesis using close_failure [OF unclaimed(3), of h] h6 holds by simp
  next
    case absent
    then show ?thesis using close_failure [OF absent(3), of h] h6 holds by simp
  next
    case ready
    have "held (us_calls s') = held (us_calls s6)"
      using ready(4) by (auto simp: usb_clear_halt_def split: prod.splits)
    then show ?thesis using ready h6 by simp
  qed
qed

lemma select_loop_eq:
  "select_loop options devices selected n =
     (let ms = filter (\<lambda>d. device_matches d options) devices
      in (if ms = [] then selected else Some (last ms), n + length ms))"
  by (induction devices arbitrary: selected n) (auto simp: Let_def)

lemmas usb_wrappers = usb_init_def usb_device_list_def usb_free_list_def usb_open_def
  usb_auto_detach_def usb_claim_def usb_clear_halt_def

text \<open>
  The outcomes of an open: a failure that holds nothing, or a handle of the selected device with
  its interface claimed.
\<close>

lemma open_outcome:
  assumes "libusb_transport_open L options require_in require_out s = (r, t, s')"
  obtains (failed) "r = -1" "transport_holds t = (0, 0, 0, 0)" "held (us_calls s') = held (us_calls s)"
  | (opened) devices w d where "r = 0"
      "lu_devices L (snd (lu_init L (us_world s))) = (Some devices, w)" "d \<in> set devices" "device_matches d options"
      "bus_number options < 0 \<Longrightarrow> device_address options < 0 \<Longrightarrow> filter (\<lambda>d. device_matches d options) devices = [d]"
      "require_in \<Longrightarrow> endpoint_is_bulk d (interface_number options) (endpoint_in options)"
      "require_out \<Longrightarrow> endpoint_is_bulk d (interface_number options) (endpoint_out options)"
      "t = \<lparr>lt_context = True, lt_handle = Some d, lt_options = options\<lparr>bus_number := uint (dev_bus d),
         device_address := uint (dev_address d)\<rparr>, lt_interface_claimed = True\<rparr>"
      "held (us_calls s') = balance_add (held (us_calls s)) (1, 0, 1, 1)"
proof -
  let ?t0 = "zero_transport\<lparr>lt_options := options\<rparr>"
  have t0: "transport_holds ?t0 = (0, 0, 0, 0)" "transport_holds (?t0\<lparr>lt_context := True\<rparr>) = (1, 0, 0, 0)"
    by (simp_all add: transport_holds_def zero_transport_def)
  note run = assms [unfolded libusb_transport_open_def Let_def]
  have failing: thesis if "r = -1" "libusb_transport_close u u' = (t, s')"
    "held (us_calls u') = balance_add (held (us_calls s)) (transport_holds u)" for u u'
    using failed that(1) close_failure [OF that(2,3)] by blast
  obtain r1 s1 where i: "usb_init L s = (r1, s1)" by (cases "usb_init L s") auto
  have h1: "held (us_calls s1) = balance_add (held (us_calls s)) (of_bool (r1 = LIBUSB_SUCCESS), 0, 0, 0)"
    using i by (auto simp: usb_wrappers split: prod.splits)
  show thesis
  proof (cases "r1 = LIBUSB_SUCCESS")
    case False
    then have "r = -1 \<and> t = ?t0 \<and> s' = s1" using run i by simp
    then show thesis using False h1 t0 by (intro failed) simp_all
  next
    case True
    note run = run [unfolded i prod.case True, simplified]
    note h1 = h1 [unfolded True]
    let ?t1 = "?t0\<lparr>lt_context := True\<rparr>"
    obtain ds w where l: "lu_devices L (us_world s1) = (ds, w)" by (cases "lu_devices L (us_world s1)")
    obtain s2 where s2: "usb_device_list L s1 = (ds, s2)"
      "held (us_calls s2) = balance_add (held (us_calls s)) (1, of_bool (ds \<noteq> None), 0, 0)"
      using l h1 by (auto simp: usb_wrappers balance_assoc)
    show thesis
    proof (cases ds)
      case None
      then have "r = -1" "libusb_transport_close ?t1 s2 = (t, s')" using run s2(1) by simp_all
      then show thesis using s2(2) None by (intro failing [of ?t1 s2]) (simp_all add: t0)
    next
      case (Some devices)
      let ?ms = "filter (\<lambda>d. device_matches d options) devices"
      let ?free = "usb_free_list s2"
      have free: "held (us_calls ?free) = balance_add (held (us_calls s)) (1, 0, 0, 0)"
        using s2(2) Some by (simp add: usb_wrappers balance_assoc)
      define many where "many \<longleftrightarrow> bus_number options < 0 \<and> device_address options < 0 \<and> 1 < length ?ms"
      note run = run [unfolded s2(1) prod.case Some option.case select_loop_eq Let_def add_0, folded many_def]
      show thesis
      proof (cases many)
        case True
        then have "r = -1" "libusb_transport_close ?t1 ?free = (t, s')" using run by simp_all
        then show thesis using free by (intro failing [of ?t1 ?free]) (simp_all add: t0)
      next
        case single: False
        show thesis
        proof (cases "?ms = []")
          case True
          then have "r = -1" "libusb_transport_close ?t1 ?free = (t, s')"
            using run single by (simp_all add: zero_transport_def)
          then show thesis using free by (intro failing [of ?t1 ?free]) (simp_all add: t0)
        next
          case some: False
          let ?d = "last ?ms"
          have d: "?d \<in> set devices" "device_matches ?d options"
            using last_in_set [OF some] by auto
          obtain r2 s3 where o: "usb_open L ?d s2 = (r2, s3)" by (cases "usb_open L ?d s2") auto
          let ?s4 = "usb_free_list s3"
          have h4: "held (us_calls ?s4) = balance_add (held (us_calls s)) (1, 0, of_bool (r2 = LIBUSB_SUCCESS), 0)"
            using o s2(2) Some by (auto simp: usb_wrappers balance_assoc split: prod.splits)
          show thesis
          proof (cases "r2 = LIBUSB_SUCCESS")
            case False
            then have "r = -1" "libusb_transport_close ?t1 ?s4 = (t, s')"
              using run o single some by (simp_all add: zero_transport_def)
            then show thesis using h4 False by (intro failing [of ?t1 ?s4]) (simp_all add: t0)
          next
            case ok: True
            let ?t2 = "?t1\<lparr>lt_handle := Some ?d, lt_options := options\<lparr>bus_number := uint (dev_bus ?d),
              device_address := uint (dev_address ?d)\<rparr>\<rparr>"
            have c: "transport_claim L options require_in require_out ?d ?t2 ?s4 = (r, t, s')"
              using run o single some ok by simp
            have t2: "lt_context ?t2" "lt_handle ?t2 = Some ?d" "\<not> lt_interface_claimed ?t2"
              by (simp_all add: zero_transport_def)
            have h: "held (us_calls ?s4) = balance_add (held (us_calls s)) (1, 0, 1, 0)" using h4 ok by simp
            have unique: "?ms = [?d]" if "bus_number options < 0" "device_address options < 0"
              using that single some unfolding many_def by (cases ?ms) auto
            have "us_world s1 = snd (lu_init L (us_world s))"
              using i by (auto simp: usb_init_def split: prod.splits)
            then have l2: "lu_devices L (snd (lu_init L (us_world s))) = (Some devices, w)" using l Some by simp
            from claim_outcome [OF c t2 h] show thesis
            proof (elim disjE conjE)
              assume "r = -1" "transport_holds t = (0, 0, 0, 0)" "held (us_calls s') = held (us_calls s)"
              then show thesis by (rule failed)
            next
              assume ready: "r = 0" "t = ?t2\<lparr>lt_interface_claimed := True\<rparr>"
                "held (us_calls s') = balance_add (held (us_calls s)) (1, 0, 1, 1)"
                "require_in \<longrightarrow> endpoint_is_bulk ?d (interface_number options) (endpoint_in options)"
                "require_out \<longrightarrow> endpoint_is_bulk ?d (interface_number options) (endpoint_out options)"
              show thesis
                by (rule opened [OF ready(1) l2 d unique]) (use ready in \<open>simp_all add: zero_transport_def\<close>)
            qed
          qed
        qed
      qed
    qed
  qed
qed

section \<open>Reading from and writing to a device\<close>

text \<open>
  What the library promises of a bulk IN endpoint whose packets fit a request of \<open>mtu\<close> bytes:
  a transfer delivers, in order and whatever its result, bytes that the device has sent and that
  fit the request; it times out finitely often; and a result other than success, timeout or
  interruption means that the device is gone, after its last byte.
\<close>

definition device_gone :: "libusb_response \<Rightarrow> bool" where
  "device_gone r \<longleftrightarrow> r \<noteq> LIBUSB_SUCCESS \<and> r \<noteq> LIBUSB_ERROR_TIMEOUT \<and> r \<noteq> LIBUSB_ERROR_INTERRUPTED"

definition bulk_in_stream ::
    "'w libusb \<Rightarrow> u8 \<Rightarrow> nat \<Rightarrow> ('w \<Rightarrow> bytes) \<Rightarrow> ('w \<Rightarrow> bool) \<Rightarrow> nat \<Rightarrow> ('w \<Rightarrow> nat) \<Rightarrow> bool" where
  "bulk_in_stream L ep timeout sends good mtu fuel \<longleftrightarrow>
     (\<forall>w n r d w'. good w \<and> mtu \<le> n \<and> 0 < n \<and> lu_bulk_in L w ep n timeout = (r, d, w') \<longrightarrow>
        good w' \<and> length d \<le> n \<and> sends w = d @ sends w' \<and>
        (if device_gone r then d = [] \<and> sends w' = []
         else fuel w' < fuel w \<and> fuel w' + length d \<le> fuel w))"

text \<open>And of a bulk OUT endpoint: it takes a prefix of the bytes and reports how many.\<close>

definition bulk_out_sink :: "'w libusb \<Rightarrow> u8 \<Rightarrow> nat \<Rightarrow> ('w \<Rightarrow> bytes) \<Rightarrow> bool" where
  "bulk_out_sink L ep timeout taken \<longleftrightarrow>
     (\<forall>w d r k w'. lu_bulk_out L w ep d timeout = (r, k, w') \<longrightarrow>
        0 \<le> k \<and> nat k \<le> length d \<and> taken w' = taken w @ take (nat k) d)"

definition transport_on :: "u8 \<Rightarrow> nat \<Rightarrow> ('w \<Rightarrow> bool) \<Rightarrow> LibusbTransport \<times> 'w usb \<Rightarrow> bool" where
  "transport_on ep timeout good = (\<lambda>(t, s). endpoint_in (lt_options t) = ep \<and>
     unat (timeout_ms (lt_options t)) = timeout \<and> good (us_world s))"

lemma usb_read_cases:
  assumes "usb_read L c n = (status, d, c')"
  obtains t s r w' where "c = (t, s)" "fst c' = t" "us_world (snd c') = w'"
    "lu_bulk_in L (us_world s) (endpoint_in (lt_options t)) (min INT_MAX n) (unat (timeout_ms (lt_options t))) = (r, d, w')"
    "io_end status \<longleftrightarrow> device_gone r" "status = SNIFFER_IO_DATA \<Longrightarrow> d \<noteq> []"
    "status = SNIFFER_IO_ERROR \<longleftrightarrow> device_gone r"
proof -
  obtain t s where c: "c = (t, s)" by (cases c)
  obtain r e w' where b: "lu_bulk_in L (us_world s) (endpoint_in (lt_options t)) (min INT_MAX n)
      (unat (timeout_ms (lt_options t))) = (r, e, w')" by (metis prod_cases3)
  have m: "(if INT_MAX < n then INT_MAX else n) = min INT_MAX n" by simp
  have e: "e = d" "fst c' = t" "us_world (snd c') = w'" "io_end status \<longleftrightarrow> device_gone r"
    "status = SNIFFER_IO_DATA \<Longrightarrow> d \<noteq> []" "status = SNIFFER_IO_ERROR \<longleftrightarrow> device_gone r"
    using assms b by (auto simp: usb_read_def c usb_bulk_in_def m io_end_def device_gone_def split: if_splits)
  then show thesis using that [OF c e(2,3) _ e(4-6)] b by simp
qed

lemma usb_packet_stream:
  assumes "bulk_in_stream L ep timeout sends good mtu fuel" "mtu \<le> INT_MAX"
  shows "packet_stream (usb_read L) (\<lambda>(t, s). sends (us_world s)) (transport_on ep timeout good) mtu
    (\<lambda>(t, s). fuel (us_world s)) SNIFFER_IO_ERROR"
proof -
  have step: "transport_on ep timeout good c' \<and> length d \<le> n \<and>
      sends (us_world (snd c)) = d @ sends (us_world (snd c')) \<and>
      (status = SNIFFER_IO_DATA \<longrightarrow> d \<noteq> []) \<and>
      (io_end status \<longrightarrow> status = SNIFFER_IO_ERROR \<and> d = [] \<and> sends (us_world (snd c')) = []) \<and>
      (\<not> io_end status \<longrightarrow> fuel (us_world (snd c')) < fuel (us_world (snd c)) \<and>
         fuel (us_world (snd c')) + length d \<le> fuel (us_world (snd c)))"
    if "transport_on ep timeout good c" "mtu \<le> n" "0 < n" "usb_read L c n = (status, d, c')" for c n status d c'
  proof (rule usb_read_cases [OF that(4)])
    fix t s r w'
    assume *: "c = (t, s)" "fst c' = t" "us_world (snd c') = w'"
      "lu_bulk_in L (us_world s) (endpoint_in (lt_options t)) (min INT_MAX n) (unat (timeout_ms (lt_options t))) = (r, d, w')"
      "io_end status \<longleftrightarrow> device_gone r" "status = SNIFFER_IO_DATA \<Longrightarrow> d \<noteq> []"
      "status = SNIFFER_IO_ERROR \<longleftrightarrow> device_gone r"
    have on: "good (us_world s)" "endpoint_in (lt_options t) = ep" "unat (timeout_ms (lt_options t)) = timeout"
      using that(1) *(1) by (auto simp: transport_on_def)
    have "mtu \<le> min INT_MAX n" "0 < min INT_MAX n" using assms(2) that(2,3) by (simp_all add: INT_MAX_def)
    with assms(1) *(4) on have up: "good w'" "length d \<le> min INT_MAX n" "sends (us_world s) = d @ sends w'"
      "if device_gone r then d = [] \<and> sends w' = [] else fuel w' < fuel (us_world s) \<and> fuel w' + length d \<le> fuel (us_world s)"
      unfolding bulk_in_stream_def by blast+
    then show ?thesis using * on by (auto simp: transport_on_def case_prod_beta split: if_splits)
  qed
  show ?thesis
    by unfold_locales (use step in \<open>auto simp: case_prod_beta io_end_def\<close>)
qed

lemma usb_sink:
  assumes "\<forall>ep timeout. bulk_out_sink L ep timeout taken"
  shows "byte_sink (usb_write L) (\<lambda>(t, s). taken (us_world s))"
proof -
  have step: "k \<le> length d \<and> taken (us_world (snd c')) = taken (us_world (snd c)) @ take k d"
    if w: "usb_write L c d = (status, k, c')" for c d status k c'
  proof -
    obtain t s where c: "c = (t, s)" by (cases c)
    let ?req = "take (if INT_MAX < length d then INT_MAX else length d) d"
    obtain r j w' where b: "lu_bulk_out L (us_world s) (endpoint_out (lt_options t)) ?req
        (unat (timeout_ms (lt_options t))) = (r, j, w')" by (metis prod_cases3)
    with assms have up: "0 \<le> j" "nat j \<le> length ?req" "taken w' = taken (us_world s) @ take (nat j) ?req"
      unfolding bulk_out_sink_def by blast+
    have k: "k = nat j" "us_world (snd c') = w'"
      using w b up(1) by (auto simp: c usb_write_def usb_bulk_out_def Let_def)
    have "take (nat j) ?req = take (nat j) d" using up(2) by (auto simp: min_def split: if_splits)
    moreover have "nat j \<le> length d" using up(2) by (auto split: if_splits)
    ultimately show ?thesis using up(3) k by (simp add: c)
  qed
  show ?thesis by unfold_locales (use step in \<open>auto simp: case_prod_beta\<close>)
qed

section \<open>What transfers and the listing leave alone\<close>

text \<open>Transfers keep the transport and the resources held.\<close>

definition session_kept :: "LibusbTransport \<Rightarrow> int \<times> int \<times> int \<times> int \<Rightarrow> LibusbTransport \<times> 'w usb \<Rightarrow> bool" where
  "session_kept t h c \<longleftrightarrow> fst c = t \<and> held (us_calls (snd c)) = h"

interpretation usb_reader: reader_keeps "usb_read L" "session_kept t h" for L t h
  by unfold_locales (auto simp: session_kept_def usb_read_def usb_bulk_in_def Let_def split: prod.splits)

interpretation usb_writer: writer_keeps "usb_write L" "session_kept t h" for L t h
  by unfold_locales (auto simp: session_kept_def usb_write_def usb_bulk_out_def Let_def split: prod.splits)

interpretation staged_reader: reader_keeps "buffered_read (usb_read L)" "\<lambda>b. session_kept t h (bf_context b)" for L t h
  by (rule usb_reader.buffered_keeps)

interpretation staged_writer: writer_keeps "buffered_write (Some (usb_write L))" "\<lambda>b. session_kept t h (bf_context b)" for L t h
  by (rule usb_writer.buffered_keeps)

lemma list_held:
  "libusb_transport_list L options s = (n, text, s') \<Longrightarrow> held (us_calls s') = held (us_calls s) \<and> -1 \<le> n"
  by (auto simp: libusb_transport_list_def usb_wrappers usb_exit_def balance_assoc Let_def
      split: prod.splits if_splits option.splits)

section \<open>Properties\<close>

text \<open>
  C0. An open that succeeds has opened a device that the library lists and that has the vendor,
  the product and, where they are given, the bus and the address asked for; it is the only match
  unless one of those was given. The endpoints that are required are bulk endpoints of alternate
  setting 0 of the interface, which has been claimed, and the transport remembers where the device
  is. An open that fails returns \<open>-1\<close>, leaves an empty transport and holds nothing.
\<close>
theorem open_selects_device:
  assumes "libusb_transport_open L options require_in require_out s = (r, t, s')"
  shows "r = -1 \<and> transport_holds t = (0, 0, 0, 0) \<and> held (us_calls s') = held (us_calls s) \<or>
    r = 0 \<and> (\<exists>devices w d. lu_devices L (snd (lu_init L (us_world s))) = (Some devices, w) \<and> d \<in> set devices \<and>
      dev_ids d = Some (vendor_id options, product_id options) \<and>
      (0 \<le> bus_number options \<longrightarrow> dev_bus d = word_of_int (bus_number options)) \<and>
      (0 \<le> device_address options \<longrightarrow> dev_address d = word_of_int (device_address options)) \<and>
      (bus_number options < 0 \<and> device_address options < 0 \<longrightarrow>
         filter (\<lambda>d. device_matches d options) devices = [d]) \<and>
      (require_in \<longrightarrow> endpoint_is_bulk d (interface_number options) (endpoint_in options)) \<and>
      (require_out \<longrightarrow> endpoint_is_bulk d (interface_number options) (endpoint_out options)) \<and>
      lt_handle t = Some d \<and> lt_interface_claimed t \<and>
      bus_number (lt_options t) = uint (dev_bus d) \<and> device_address (lt_options t) = uint (dev_address d))"
proof (cases rule: open_outcome [OF assms, case_names failed opened])
  case failed
  then show ?thesis by simp
next
  case (opened devices w d)
  have "dev_ids d = Some (vendor_id options, product_id options) \<and>
    (0 \<le> bus_number options \<longrightarrow> dev_bus d = word_of_int (bus_number options)) \<and>
    (0 \<le> device_address options \<longrightarrow> dev_address d = word_of_int (device_address options))"
    using opened(4) by (auto simp: device_matches_def split: option.splits if_splits)
  with opened show ?thesis
    by (intro disjI2 conjI exI [of _ devices] exI [of _ w] exI [of _ d]) simp_all
qed

text \<open>
  A bus with one sniffer, whose packets the world lists (an empty one stands for a timeout) beside
  the bytes it has been sent. When no packet is left the device is unplugged.
\<close>

definition sniffer_device :: usb_device where
  "sniffer_device = \<lparr>dev_ids = Some (0x0483, 0x5740), dev_bus = 20, dev_address = 7, dev_config = None,
     dev_active_config = Some [[\<lparr>bInterfaceNumber = 0, bAlternateSetting = 0, setting_endpoints =
       [\<lparr>bEndpointAddress = 0x81, bmAttributes = 2, wMaxPacketSize = 64\<rparr>,
        \<lparr>bEndpointAddress = 0x01, bmAttributes = 2, wMaxPacketSize = 64\<rparr>]\<rparr>]]\<rparr>"

definition sniffer_libusb :: "(bytes list \<times> bytes) libusb" where
  "sniffer_libusb = \<lparr>lu_init = \<lambda>w. (LIBUSB_SUCCESS, w), lu_devices = \<lambda>w. (Some [sniffer_device], w),
     lu_open = \<lambda>w d. (LIBUSB_SUCCESS, w), lu_auto_detach = \<lambda>w. (LIBUSB_ERROR_NOT_SUPPORTED, w),
     lu_get_configuration = \<lambda>w. (LIBUSB_SUCCESS, 1, w), lu_set_configuration = \<lambda>w c. (LIBUSB_SUCCESS, w),
     lu_claim = \<lambda>w i. (LIBUSB_SUCCESS, w), lu_clear_halt = \<lambda>w e. (LIBUSB_SUCCESS, w),
     lu_link_select = \<lambda>w v t. (True, w),
     lu_bulk_in = (\<lambda>(packets, got) e n t. case packets of
         [] \<Rightarrow> (LIBUSB_ERROR_NO_DEVICE, [], (packets, got))
       | p # ps \<Rightarrow> (if p = [] then LIBUSB_ERROR_TIMEOUT else LIBUSB_SUCCESS, take n p, (ps, got))),
     lu_bulk_out = (\<lambda>(packets, got) e d t. (LIBUSB_SUCCESS, int (length d), (packets, got @ d)))\<rparr>"

definition sniffer_options :: LibusbDeviceOptions where
  "sniffer_options = \<lparr>vendor_id = 0x0483, product_id = 0x5740, interface_number = 0,
     endpoint_in = 0x81, endpoint_out = 0x01, timeout_ms = 5000, bus_number = -1, device_address = -1\<rparr>"

definition sniffer_good :: "bytes list \<times> bytes \<Rightarrow> bool" where
  "sniffer_good w \<longleftrightarrow> (\<forall>p \<in> set (fst w). length p \<le> 64)"

definition sniffer_fuel :: "bytes list \<times> bytes \<Rightarrow> nat" where
  "sniffer_fuel w = length (fst w) + length (concat (fst w))"

lemma sniffer_stream:
  "bulk_in_stream sniffer_libusb ep timeout (\<lambda>w. concat (fst w)) sniffer_good 64 sniffer_fuel"
  by (auto simp: bulk_in_stream_def sniffer_libusb_def sniffer_good_def sniffer_fuel_def device_gone_def
      split: list.splits if_splits)

lemma sniffer_sink: "bulk_out_sink sniffer_libusb ep timeout snd"
  by (auto simp: bulk_out_sink_def sniffer_libusb_def)

text \<open>Opening it always succeeds, wherever the device is asked for.\<close>

lemma sniffer_opens:
  assumes "vendor_id options = 0x0483" "product_id options = 0x5740" "interface_number options = 0"
    and "endpoint_in options = 0x81" "endpoint_out options = 0x01"
    and "bus_number options = -1 \<and> device_address options = -1 \<or> bus_number options = 20 \<and> device_address options = 7"
  obtains s' where "libusb_transport_open sniffer_libusb options require_in require_out s =
      (0, \<lparr>lt_context = True, lt_handle = Some sniffer_device, lt_options = options\<lparr>bus_number := 20,
         device_address := 7\<rparr>, lt_interface_claimed = True\<rparr>, s')"
    "us_world s' = us_world s"
proof -
  have m: "device_matches sniffer_device options"
    using assms by (auto simp: device_matches_def sniffer_device_def)
  have b: "endpoint_is_bulk sniffer_device 0 0x81" "endpoint_is_bulk sniffer_device 0 1"
    by (simp_all add: endpoint_is_bulk_def setting_has_bulk_def sniffer_device_def)
  have u: "uint (dev_bus sniffer_device) = 20" "uint (dev_address sniffer_device) = 7"
    by (simp_all add: sniffer_device_def)
  note world = usb_wrappers sniffer_libusb_def
  show thesis
    by (rule that [of "snd (snd (libusb_transport_open sniffer_libusb options require_in require_out s))"])
       (simp_all add: libusb_transport_open_def transport_claim_def Let_def m b u assms(3-5) world zero_transport_def)
qed

theorem open_selects_device_witness:
  "\<exists>t s' d. libusb_transport_open sniffer_libusb sniffer_options True True \<lparr>us_world = ([], []), us_calls = []\<rparr> =
       (0, t, s') \<and> lt_handle t = Some d \<and> dev_ids d = Some (0x0483, 0x5740)"
proof -
  let ?s = "\<lparr>us_world = ([], []), us_calls = []\<rparr>"
  obtain t s' where o: "libusb_transport_open sniffer_libusb sniffer_options True True ?s = (0, t, s')"
    by (rule sniffer_opens [of sniffer_options True True ?s]) (simp_all add: sniffer_options_def)
  from open_selects_device [OF this] show ?thesis using o by (auto simp: sniffer_options_def)
qed

end
