(* ===== verification/C_Double.thy ===== *)
theory C_Double
  imports Complex_Main C_Text
begin

text \<open>
  The values of a C \<open>double\<close> as far as the programs use them: comparisons with a constant, and the
  conversion \<open>%.12g\<close> of \<open>printf\<close>, computed on the exact rational value.
\<close>

section \<open>Values and comparisons\<close>

datatype c_double = Not_A_Number | Minus_Infinity | Finite rat | Plus_Infinity

fun double_gt :: "c_double \<Rightarrow> rat \<Rightarrow> bool" where
  "double_gt Not_A_Number r = False"
| "double_gt Minus_Infinity r = False"
| "double_gt (Finite q) r = (r < q)"
| "double_gt Plus_Infinity r = True"

fun double_le :: "c_double \<Rightarrow> rat \<Rightarrow> bool" where
  "double_le Not_A_Number r = False"
| "double_le Minus_Infinity r = True"
| "double_le (Finite q) r = (q \<le> r)"
| "double_le Plus_Infinity r = False"

section \<open>The conversion %.12g\<close>

text \<open>
  The decimal exponent of a positive number, from the lengths of its numerator and denominator; its
  twelve significant digits, rounded to nearest with ties to even, as an integer and the exponent of
  the first of them.
\<close>

definition dec_exponent :: "rat \<Rightarrow> int" where
  "dec_exponent q =
     (case quotient_of q of (n, d) \<Rightarrow>
        let e = int (length (fmt_u (nat n))) - int (length (fmt_u (nat d)))
        in if 10 powi e \<le> q then e else e - 1)"

definition round_half_even :: "rat \<Rightarrow> int" where
  "round_half_even q =
     (let f = \<lfloor>q\<rfloor>; r = q - of_int f
      in if r < 1 / 2 \<or> (r = 1 / 2 \<and> even f) then f else f + 1)"

definition g_digits :: "rat \<Rightarrow> int \<times> int" where
  "g_digits q =
     (let e = dec_exponent q; m = round_half_even (q * 10 powi (11 - e))
      in if m = 10 ^ 12 then (10 ^ 11, e + 1) else (m, e))"

text \<open>Digits without the zeros at the end; a point in front of the digits that remain, if any do.\<close>

definition strip_zeros :: "string \<Rightarrow> string" where
  "strip_zeros s = rev (dropWhile (\<lambda>c. c = CHR ''0'') (rev s))"

definition with_point :: "string \<Rightarrow> string" where
  "with_point f = (if f = [] then [] else CHR ''.'' # f)"

definition fmt_exponent :: "int \<Rightarrow> string" where
  "fmt_exponent e =
     (let s = fmt_u (nat \<bar>e\<bar>)
      in CHR ''e'' # (if e < 0 then CHR ''-'' else CHR ''+'') # (if length s < 2 then CHR ''0'' # s else s))"

definition fmt_g_pos :: "rat \<Rightarrow> string" where
  "fmt_g_pos q =
     (case g_digits q of (m, e) \<Rightarrow>
        let s = fmt_u (nat m)
        in if e < -4 \<or> 12 \<le> e then take 1 s @ with_point (strip_zeros (drop 1 s)) @ fmt_exponent e
           else if e < 0 then CHR ''0'' # with_point (strip_zeros (replicate (nat (- e - 1)) CHR ''0'' @ s))
           else take (nat (e + 1)) s @ with_point (strip_zeros (drop (nat (e + 1)) s)))"

text \<open>The sign of a zero and of a NaN is not kept.\<close>

fun fmt_12g :: "c_double \<Rightarrow> string" where
  "fmt_12g Not_A_Number = ''nan''"
| "fmt_12g Minus_Infinity = ''-inf''"
| "fmt_12g Plus_Infinity = ''inf''"
| "fmt_12g (Finite q) =
     (if q = 0 then ''0'' else if q < 0 then CHR ''-'' # fmt_g_pos (- q) else fmt_g_pos q)"

section \<open>Facts\<close>

lemma fmt_u_bounds:
  assumes "0 < n"
  shows "10 ^ (length (fmt_u n) - 1) \<le> n" "n < 10 ^ length (fmt_u n)"
  using assms
proof (induction n rule: fmt_u.induct)
  case (1 n)
  have split: "\<not> n < 10 \<Longrightarrow> fmt_u n = fmt_u (n div 10) @ [dec_digit (n mod 10)]" by (simp add: fmt_u.simps [of n])
  have pos: "0 < length (fmt_u k)" for k by (simp add: fmt_u.simps [of k])
  {
    case 1
    show ?case
    proof (cases "n < 10")
      case False
      then have "10 ^ (length (fmt_u (n div 10)) - 1) \<le> n div 10" using "1.IH"(1) by simp
      then have "10 * 10 ^ (length (fmt_u (n div 10)) - 1) \<le> n" by linarith
      then show ?thesis using False pos [of "n div 10"]
        by (simp add: split flip: power_Suc)
    qed (use 1 in \<open>simp add: fmt_u.simps [of n]\<close>)
  next
    case 2
    show ?case
    proof (cases "n < 10")
      case False
      then have "n div 10 < 10 ^ length (fmt_u (n div 10))" using "1.IH"(2) by simp
      then show ?thesis using False by (simp add: split)
    qed (use 2 in \<open>simp add: fmt_u.simps [of n]\<close>)
  }
qed

text \<open>The decimal exponent is the one of scientific notation.\<close>

lemma dec_exponent_bounds:
  assumes "0 < q"
  shows "10 powi dec_exponent q \<le> q \<and> q < 10 powi (dec_exponent q + 1)"
proof -
  obtain n d where nd: "quotient_of q = (n, d)" by (cases "quotient_of q")
  have d: "0 < d" using quotient_of_denom_pos [OF nd] .
  have q: "q = of_int n / of_int d" using quotient_of_div [OF nd] .
  have n: "0 < n" using assms d by (simp add: q zero_less_divide_iff)
  define a b where "a = length (fmt_u (nat n))" and "b = length (fmt_u (nat d))"
  have ab: "0 < a" "0 < b" by (simp_all add: a_def b_def fmt_u.simps)
  have cast: "(10::rat) ^ k \<le> of_int m \<longleftrightarrow> 10 ^ k \<le> nat m" "of_int m < (10::rat) ^ k \<longleftrightarrow> nat m < 10 ^ k" if "0 < m" for k m
  proof -
    have "(10::rat) ^ k = of_int (10 ^ k)" by simp
    moreover have "(10::int) ^ k \<le> m \<longleftrightarrow> 10 ^ k \<le> nat m" "m < (10::int) ^ k \<longleftrightarrow> nat m < 10 ^ k"
      using that by (simp_all add: le_nat_iff nat_less_iff)
    ultimately show "(10::rat) ^ k \<le> of_int m \<longleftrightarrow> 10 ^ k \<le> nat m" "of_int m < (10::rat) ^ k \<longleftrightarrow> nat m < 10 ^ k"
      by (simp_all only: of_int_le_iff of_int_less_iff)
  qed
  have N: "(10::rat) ^ (a - 1) \<le> of_int n" "of_int n < (10::rat) ^ a"
    using fmt_u_bounds [of "nat n"] n by (simp_all add: cast a_def)
  have D: "(10::rat) ^ (b - 1) \<le> of_int d" "of_int d < (10::rat) ^ b"
    using fmt_u_bounds [of "nat d"] d by (simp_all add: cast b_def)
  have "(10::rat) ^ (a - 1) / 10 ^ b \<le> q"
    unfolding q using N(1) D(2) d n by (intro frac_le) auto
  moreover have "q < (10::rat) ^ a / 10 ^ (b - 1)"
    unfolding q using N D(1) n by (intro frac_less) auto
  moreover have "(10::rat) ^ (a - 1) / 10 ^ b = 10 powi (int a - int b - 1)"
    using ab by (cases a) (simp_all add: power_int_diff)
  moreover have "(10::rat) ^ a / 10 ^ (b - 1) = 10 powi (int a - int b + 1)"
    using ab by (cases b) (simp_all add: power_int_diff power_int_add)
  ultimately have "10 powi (int a - int b - 1) \<le> q" "q < 10 powi (int a - int b + 1)" by simp_all
  then show ?thesis
    by (auto simp: dec_exponent_def nd Let_def a_def b_def)
qed

lemma powi_less_cancel: "(10::rat) powi i < 10 powi j \<Longrightarrow> i < j"
  by (meson linorder_not_le one_le_numeral power_int_increasing)

lemma dec_exponent_eq:
  assumes "10 powi e \<le> q" "q < 10 powi (e + 1)"
  shows "dec_exponent q = e"
proof -
  have "0 < q" using assms(1) by (rule order_less_le_trans [rotated]) simp
  note b = dec_exponent_bounds [OF this]
  have "e < dec_exponent q + 1" using assms(1) b by (intro powi_less_cancel) simp
  moreover have "dec_exponent q < e + 1" using assms(2) b by (intro powi_less_cancel) simp
  ultimately show ?thesis by simp
qed

lemma round_half_even_near: "\<bar>of_int (round_half_even q) - q\<bar> \<le> 1 / 2"
proof -
  have "of_int \<lfloor>q\<rfloor> \<le> q" "q < of_int \<lfloor>q\<rfloor> + 1" by linarith+
  then show ?thesis unfolding round_half_even_def Let_def by auto
qed

lemma round_half_even_eq:
  assumes "\<bar>of_int m - q\<bar> < 1 / 2"
  shows "round_half_even q = m"
proof -
  have "\<bar>of_int (round_half_even q) - of_int m :: rat\<bar> < 1" using round_half_even_near [of q] assms by linarith
  then have "of_int \<bar>round_half_even q - m\<bar> < (1 :: rat)" by simp
  then have "\<bar>round_half_even q - m\<bar> < 1" by (simp only: of_int_less_1_iff)
  then show ?thesis by simp
qed

text \<open>
  The twelve digits: their number is as it should be, and they are off by at most half a unit of the
  last one.
\<close>

lemma g_digits_near:
  assumes "0 < q" "g_digits q = (m, e)"
  shows "10 ^ 11 \<le> m \<and> m < 10 ^ 12 \<and> \<bar>of_int m * 10 powi (e - 11) - q\<bar> \<le> 10 powi (dec_exponent q - 11) / 2"
proof -
  let ?x = "dec_exponent q" let ?r = "q * 10 powi (11 - ?x)" let ?m = "round_half_even ?r"
  note b = dec_exponent_bounds [OF assms(1)]
  have unit: "(10::rat) powi (11 - ?x) * 10 powi ?x = 10 ^ 11" "(10::rat) powi (11 - ?x) * 10 powi (?x + 1) = 10 ^ 12"
    "(10::rat) powi (11 - ?x) * 10 powi (?x - 11) = 1"
    by (simp_all flip: power_int_add)
  have p: "(0::rat) < 10 powi (11 - ?x)" by simp
  have lo: "10 ^ 11 \<le> ?r"
    using mult_left_mono [OF conjunct1 [OF b], of "10 powi (11 - ?x)"] p unfolding unit(1) by (simp add: mult.commute)
  have hi: "?r < 10 ^ 12"
    using mult_strict_left_mono [OF conjunct2 [OF b] p] unfolding unit(2) by (simp add: mult.commute)
  note near = round_half_even_near [of ?r]
  have "(10::rat) ^ 11 - 1 < of_int ?m" "of_int ?m < (10::rat) ^ 12 + 1" using near lo hi by linarith+
  then have "of_int (10 ^ 11 - 1) < (of_int ?m :: rat)" "(of_int ?m :: rat) < of_int (10 ^ 12 + 1)" by simp_all
  then have "10 ^ 11 \<le> ?m" "?m \<le> 10 ^ 12" unfolding of_int_less_iff by simp_all
  moreover have "\<bar>of_int ?m * 10 powi (?x - 11) - q\<bar> \<le> 10 powi (?x - 11) / 2"
  proof -
    have "of_int ?m * 10 powi (?x - 11) - q = (of_int ?m - ?r) * 10 powi (?x - 11)"
      using unit(3) by (simp add: algebra_simps)
    then have "\<bar>of_int ?m * 10 powi (?x - 11) - q\<bar> = \<bar>of_int ?m - ?r\<bar> * 10 powi (?x - 11)" by (simp add: abs_mult)
    also have "\<dots> \<le> 1 / 2 * 10 powi (?x - 11)" using near by (intro mult_right_mono) simp_all
    finally show ?thesis by simp
  qed
  moreover have "of_int (10 ^ 11) * (10::rat) powi (?x + 1 - 11) = of_int (10 ^ 12) * 10 powi (?x - 11)"
    by (simp add: power_int_add power_int_diff)
  ultimately show ?thesis using assms(2) unfolding g_digits_def Let_def by (auto split: if_splits)
qed

text \<open>The text is short, for the numbers that a \<open>double\<close> can hold and that are not too large.\<close>

lemma length_strip_zeros: "length (strip_zeros s) \<le> length s"
  by (simp add: strip_zeros_def) (metis length_dropWhile_le length_rev)

lemma length_with_point: "length (with_point s) \<le> Suc (length s)"
  by (simp add: with_point_def)

lemma dec_exponent_range:
  assumes "10 powi i \<le> q" "q < 10 powi (j + 1)"
  shows "i \<le> dec_exponent q \<and> dec_exponent q \<le> j"
proof -
  have "0 < q" using assms(1) by (rule order_less_le_trans [rotated]) simp
  note b = dec_exponent_bounds [OF this]
  have "(10::rat) powi i < 10 powi (dec_exponent q + 1)" "(10::rat) powi dec_exponent q < 10 powi (j + 1)" using assms b by auto
  then show ?thesis by (auto dest!: powi_less_cancel)
qed

lemma length_fmt_g_pos:
  assumes "10 powi - 400 \<le> q" "q \<le> 10 ^ 9"
  shows "length (fmt_g_pos q) \<le> 63"
proof -
  obtain m e where g: "g_digits q = (m, e)" by (cases "g_digits q")
  have "0 < q" using assms(1) by (rule order_less_le_trans [rotated]) simp
  from g_digits_near [OF this g] have "nat m < 10 ^ 12" by (simp add: nat_less_iff)
  then have digits: "length (fmt_u (nat m)) \<le> 12" by (intro length_fmt_u) simp_all
  have "q < 10 powi (9 + 1)" using assms(2) by simp
  then have "- 400 \<le> dec_exponent q \<and> dec_exponent q \<le> 9" using dec_exponent_range assms(1) by blast
  moreover have "e = dec_exponent q \<or> e = dec_exponent q + 1" using g by (auto simp: g_digits_def Let_def split: if_splits)
  ultimately have e: "- 400 \<le> e" "e \<le> 10" by auto
  then have "length (fmt_u (nat \<bar>e\<bar>)) \<le> 3" by (intro length_fmt_u) auto
  then have x: "length (fmt_exponent e) \<le> 5" by (simp add: fmt_exponent_def Let_def)
  have p: "length (with_point (strip_zeros s)) \<le> Suc (length s)" for s
    using length_with_point [of "strip_zeros s"] length_strip_zeros [of s] by simp
  consider (exponent) "e < -4 \<or> 12 \<le> e" | (below) "\<not> (e < -4 \<or> 12 \<le> e)" "e < 0" | (above) "\<not> (e < -4 \<or> 12 \<le> e)" "\<not> e < 0" by blast
  then show ?thesis
  proof cases
    case exponent
    then show ?thesis using digits x p [of "drop 1 (fmt_u (nat m))"] by (simp add: fmt_g_pos_def g Let_def)
  next
    case below
    have "nat (- e - 1) \<le> 4" using below by linarith
    then have "length (replicate (nat (- e - 1)) CHR ''0'' @ fmt_u (nat m)) \<le> 16" using digits by simp
    with p [of "replicate (nat (- e - 1)) CHR ''0'' @ fmt_u (nat m)"]
    have "length (with_point (strip_zeros (replicate (nat (- e - 1)) CHR ''0'' @ fmt_u (nat m)))) \<le> 17" by linarith
    then show ?thesis using below by (simp add: fmt_g_pos_def g Let_def)
  next
    case above
    have "length (drop (nat (e + 1)) (fmt_u (nat m))) \<le> 12" using digits by simp
    with p [of "drop (nat (e + 1)) (fmt_u (nat m))"]
    have "length (with_point (strip_zeros (drop (nat (e + 1)) (fmt_u (nat m))))) \<le> 13" by linarith
    moreover have "length (take (nat (e + 1)) (fmt_u (nat m))) \<le> 12" using digits by simp
    ultimately show ?thesis using above by (simp add: fmt_g_pos_def g Let_def)
  qed
qed

text \<open>Evaluation.\<close>

lemma dec_digit_chars:
  "dec_digit 0 = CHR ''0''" "dec_digit 1 = CHR ''1''" "dec_digit 2 = CHR ''2''" "dec_digit 3 = CHR ''3''" "dec_digit 4 = CHR ''4''"
  "dec_digit 5 = CHR ''5''" "dec_digit 6 = CHR ''6''" "dec_digit 7 = CHR ''7''" "dec_digit 8 = CHR ''8''" "dec_digit 9 = CHR ''9''"
  by (simp_all add: dec_digit_def char_eq_ascii)

lemma g_digits_eq:
  assumes "10 powi e \<le> q" "q < 10 powi (e + 1)" "\<bar>of_int m - q * 10 powi (11 - e)\<bar> < 1 / 2" "m \<noteq> 10 ^ 12"
  shows "g_digits q = (m, e)"
  using assms(4) round_half_even_eq [OF assms(3)] by (simp add: g_digits_def dec_exponent_eq [OF assms(1,2)])

lemma fmt_12g_default: "fmt_12g (Finite (8433060670995431 / 281474976710656)) = ''29.96025''"
proof -
  have "g_digits (8433060670995431 / 281474976710656) = (299602500000, 1)"
    by (rule g_digits_eq) (simp_all add: power_int_def power_divide)
  then show ?thesis by (simp add: fmt_g_pos_def strip_zeros_def with_point_def fmt_u.simps dec_digit_chars [simplified])
qed

lemma fmt_12g_small: "fmt_12g (Finite (1 / 100000)) = ''1e-05''"
proof -
  have "g_digits (1 / 100000) = (100000000000, -5)"
    by (rule g_digits_eq) (simp_all add: power_int_def power_divide)
  then show ?thesis by (simp add: fmt_g_pos_def strip_zeros_def with_point_def fmt_exponent_def fmt_u.simps dec_digit_chars [simplified])
qed

lemma fmt_12g_large: "fmt_12g (Finite 1000000000) = ''1000000000''"
proof -
  have "g_digits 1000000000 = (100000000000, 9)"
    by (rule g_digits_eq) (simp_all add: power_int_def power_divide)
  then show ?thesis by (simp add: fmt_g_pos_def strip_zeros_def with_point_def fmt_u.simps dec_digit_chars [simplified])
qed

end
