(* ===== verification/Plot_Macos.thy ===== *)
theory Plot_Macos
  imports C_Double
begin

text \<open>
  Plotting on macOS, \<open>sniffer_plot_macos.c\<close>: the analyzer script is looked up, the Python of its
  directory is started on the capture file, and its end is awaited. The operating system is a
  parameter. What is printed on the standard output is kept, error messages are left out.
\<close>

section \<open>The operating system\<close>

text \<open>
  The size of a path in \<open>limits.h\<close>. Of \<open>realpath\<close> the absolute path, or \<open>None\<close>; of \<open>access\<close> whether a file
  may be executed; of \<open>posix_spawn\<close> whether a file can be started with the given arguments. The
  calls of \<open>waitpid\<close> for the child: interrupted by signals, finitely often, then an error or its end.
\<close>

definition PATH_MAX :: nat where "PATH_MAX = 1024"

datatype child_end = Exited u8 | Signalled

datatype wait_answer = Interrupted wait_answer | Wait_Error | Ended child_end

record macos =
  os_realpath :: "string \<Rightarrow> string option"
  os_executable :: "string \<Rightarrow> bool"
  os_spawn :: "string \<Rightarrow> string list \<Rightarrow> bool"
  os_waitpid :: "string list \<Rightarrow> wait_answer"

text \<open>The position of the last occurrence.\<close>

fun strrchr :: "string \<Rightarrow> char \<Rightarrow> nat option" where
  "strrchr [] c = None"
| "strrchr (x # xs) c =
     (case strrchr xs c of Some i \<Rightarrow> Some (Suc i) | None \<Rightarrow> if x = c then Some 0 else None)"

section \<open>The operations\<close>

definition locate_script :: "macos \<Rightarrow> string option" where
  "locate_script os =
     (case os_realpath os ''../analyze_sniffer_binary.py'' of
        Some path \<Rightarrow> Some path
      | None \<Rightarrow> os_realpath os ''analyze_sniffer_binary.py'')"

definition build_default_output :: "string \<Rightarrow> string \<Rightarrow> string option" where
  "build_default_output project_root capture_path =
     (let name = (case strrchr capture_path CHR ''/'' of None \<Rightarrow> capture_path | Some i \<Rightarrow> drop (i + 1) capture_path);
          name_length = (if 4 < length name \<and> drop (length name - 4) name = ''.bin''
            then length name - 4 else length name);
          path = project_root @ ''/outputs_binary/'' @ take name_length name
      in if 0 < length path \<and> length path < PATH_MAX then Some path else None)"

fun wait_child :: "wait_answer \<Rightarrow> child_end option" where
  "wait_child (Interrupted w) = wait_child w"
| "wait_child Wait_Error = None"
| "wait_child (Ended e) = Some e"

definition plot_arguments :: "string \<Rightarrow> string \<Rightarrow> string \<Rightarrow> string \<Rightarrow> c_double \<Rightarrow> string list" where
  "plot_arguments python script capture_path output_dir period_ms =
     [python, script, capture_path, ''--output'', output_dir, ''--period-ms'', take 63 (fmt_12g period_ms),
      ''--timestamp-bits'', ''40'']"

text \<open>From the start of the analyzer to its end.\<close>

definition run_analyzer :: "macos \<Rightarrow> string \<Rightarrow> string list \<Rightarrow> string \<Rightarrow> int \<times> string" where
  "run_analyzer os python arguments output_dir =
     (let said = ''Generating phase plot in '' @ output_dir @ nl
      in if \<not> os_spawn os python arguments then (-1, said)
         else case wait_child (os_waitpid os arguments) of
           None \<Rightarrow> (-1, said)
         | Some status \<Rightarrow>
             if status \<noteq> Exited 0 then (-1, said)
             else (0, said @ ''Phase plot saved to '' @ output_dir @ ''/phase.png'' @ nl))"

definition sniffer_plot_macos_run ::
    "macos \<Rightarrow> string option \<Rightarrow> string option \<Rightarrow> c_double \<Rightarrow> int \<times> string" where
  "sniffer_plot_macos_run os capture_path output_dir period_ms =
     (case capture_path of
        None \<Rightarrow> (-1, [])
      | Some capture_path \<Rightarrow>
          if double_le period_ms 0 then (-1, [])
          else case locate_script os of
            None \<Rightarrow> (-1, [])
          | Some script \<Rightarrow>
              if PATH_MAX \<le> length script then (-1, [])
              else case strrchr script CHR ''/'' of
                None \<Rightarrow> (-1, [])
              | Some separator \<Rightarrow>
                  let project_root = take separator script
                  in case (case output_dir of Some dir \<Rightarrow> Some dir
                           | None \<Rightarrow> build_default_output project_root capture_path) of
                    None \<Rightarrow> (-1, [])
                  | Some output_dir \<Rightarrow>
                      let python = project_root @ ''/.venv/bin/python''
                      in if PATH_MAX \<le> length python \<or> \<not> os_executable os python then (-1, [])
                         else run_analyzer os python
                           (plot_arguments python script capture_path output_dir period_ms) output_dir)"

section \<open>Facts\<close>

lemma strrchr_none [simp]: "c \<notin> set xs \<Longrightarrow> strrchr xs c = None"
  by (induction xs) auto

lemma strrchr_last [simp]: "c \<notin> set ys \<Longrightarrow> strrchr (xs @ c # ys) c = Some (length xs)"
  by (induction xs) auto

lemma strrchr_split: "strrchr xs c = Some i \<Longrightarrow> i < length xs \<and> xs ! i = c \<and> c \<notin> set (drop (Suc i) xs)"
proof (induction xs arbitrary: i)
  case (Cons x xs)
  have none: "strrchr zs c = None \<Longrightarrow> c \<notin> set zs" for zs by (induction zs) (auto split: option.splits if_splits)
  show ?case using Cons none [of xs] by (auto split: option.splits if_splits)
qed simp

text \<open>The directory of the plots is below the directory of the script and named after the capture.\<close>

lemma build_default_output_named:
  assumes "CHR ''/'' \<notin> set name" "name \<noteq> []" "length project + length name + 16 < PATH_MAX"
  shows "build_default_output project (dir @ CHR ''/'' # name @ ''.bin'') = Some (project @ ''/outputs_binary/'' @ name)"
    and "build_default_output project (name @ ''.bin'') = Some (project @ ''/outputs_binary/'' @ name)"
proof -
  have l: "length (name @ ''.bin'') - 4 = length name" "4 < length (name @ ''.bin'')" using assms(2) by simp_all
  have cut: "(if 4 < length (name @ ''.bin'') \<and> drop (length (name @ ''.bin'') - 4) (name @ ''.bin'') = ''.bin''
      then length (name @ ''.bin'') - 4 else length (name @ ''.bin'')) = length name"
    unfolding l(1) using l(2) by (simp del: length_append)
  have named: "take (length name) (name @ ''.bin'') = name" by simp
  have none: "strrchr (name @ ''.bin'') CHR ''/'' = None" using assms(1) by simp
  have short: "0 < length (project @ ''/outputs_binary/'' @ name) \<and> length (project @ ''/outputs_binary/'' @ name) < PATH_MAX" using assms(3) by simp
  note eqs = build_default_output_def Let_def
  have "strrchr (dir @ CHR ''/'' # name @ ''.bin'') CHR ''/'' = Some (length dir)" using assms(1) by simp
  moreover have "drop (length dir + 1) (dir @ CHR ''/'' # name @ ''.bin'') = name @ ''.bin''" by simp
  ultimately show "build_default_output project (dir @ CHR ''/'' # name @ ''.bin'') = Some (project @ ''/outputs_binary/'' @ name)"
    unfolding eqs by (simp only: option.case cut named short if_True simp_thms)
  show "build_default_output project (name @ ''.bin'') = Some (project @ ''/outputs_binary/'' @ name)"
    unfolding eqs by (simp only: none option.case cut named short if_True simp_thms)
qed

text \<open>The result is 0 only when the analyzer ran with these arguments and exited with 0.\<close>

definition analyzed :: "macos \<Rightarrow> string \<Rightarrow> string option \<Rightarrow> c_double \<Rightarrow> bool" where
  "analyzed os capture_path output_dir period_ms \<longleftrightarrow>
     (\<exists>script separator root python out_dir.
        (os_realpath os ''../analyze_sniffer_binary.py'' = Some script \<or>
         os_realpath os ''../analyze_sniffer_binary.py'' = None \<and> os_realpath os ''analyze_sniffer_binary.py'' = Some script) \<and>
        strrchr script CHR ''/'' = Some separator \<and> root = take separator script \<and>
        python = root @ ''/.venv/bin/python'' \<and> length script < PATH_MAX \<and> length python < PATH_MAX \<and> os_executable os python \<and>
        (case output_dir of Some d \<Rightarrow> Some d | None \<Rightarrow> build_default_output root capture_path) = Some out_dir \<and>
        os_spawn os python (plot_arguments python script capture_path out_dir period_ms) \<and>
        wait_child (os_waitpid os (plot_arguments python script capture_path out_dir period_ms)) = Some (Exited 0))"

lemma run_analyzer_success:
  "fst (run_analyzer os python arguments out_dir) = 0 \<longleftrightarrow>
     os_spawn os python arguments \<and> wait_child (os_waitpid os arguments) = Some (Exited 0)"
  by (simp add: run_analyzer_def Let_def split: option.split)

lemma locate_script_eq:
  "locate_script os = Some script \<longleftrightarrow>
     os_realpath os ''../analyze_sniffer_binary.py'' = Some script \<or>
     os_realpath os ''../analyze_sniffer_binary.py'' = None \<and> os_realpath os ''analyze_sniffer_binary.py'' = Some script"
  by (simp add: locate_script_def split: option.split)

lemma plot_success:
  "fst (sniffer_plot_macos_run os (Some path) dir period) = 0 \<longleftrightarrow> \<not> double_le period 0 \<and> analyzed os path dir period"
  unfolding analyzed_def locate_script_eq [symmetric]
  by (auto simp: sniffer_plot_macos_run_def Let_def run_analyzer_success not_le split: option.splits)

lemma plot_result: "fst (sniffer_plot_macos_run os path dir period) \<in> {0, -1}"
  by (auto simp: sniffer_plot_macos_run_def run_analyzer_def Let_def split: option.splits)

text \<open>The buffer of 64 bytes holds the text of every period that the command line accepts.\<close>

lemma period_fits: "10 powi - 400 \<le> q \<Longrightarrow> q \<le> 10 ^ 9 \<Longrightarrow> take 63 (fmt_12g (Finite q)) = fmt_12g (Finite q)"
  using length_fmt_g_pos [of q] zero_less_power_int [of "10::rat" "- 400"] by (simp add: order.strict_trans2)

end
