(* ===== verification/Capture_Properties.thy ===== *)
theory Capture_Properties
  imports Capture_Safety Capture_Refine Capture_Send
begin

text \<open>
  The properties of the capture: over any transport, from \<open>Capture_Safety\<close>, and over the byte
  streams of the interpretations, from \<open>Capture_Refine\<close>. The witnesses run the repository's
  own test transports.
\<close>

section \<open>Concrete captures\<close>

definition mock_transport :: "MockTransport SnifferTransport" where
  "mock_transport = \<lparr>t_read = Some mock_read, t_write = Some mock_write\<rparr>"

definition packet_transport :: "PacketTransport SnifferTransport" where
  "packet_transport = \<lparr>t_read = Some packet_read, t_write = None\<rparr>"

definition empty_file :: out_file where
  "empty_file = \<lparr>fl_data = [], fl_accept = [], fl_flush = []\<rparr>"

definition start_state :: "'c \<Rightarrow> nat option \<Rightarrow> 'c capture_state" where
  "start_state c run = \<lparr>cs_context = c, cs_running = run, cs_stats = zero_stats,
     cs_output = empty_file, cs_printed = []\<rparr>"

definition plain_options :: SnifferCaptureOptions where
  "plain_options = \<lparr>max_payload = 64, max_records = 0, flush_each_record = False,
     print_records = False, print_payload = False, print_stream = False\<rparr>"

text \<open>A record of one payload byte and a meta that announces 65535.\<close>

definition frame1 :: bytes where
  "frame1 = [0xBB, 0xBB, 0, 0, 5, 0, 9, 0, 1, 0, 123, 0, 0, 0, 0, 0, 0, 0, 42]"

definition bad_meta :: bytes where
  "bad_meta = [0xBB, 0xBB, 0, 0, 5, 0, 9, 0, 0xFF, 0xFF, 123, 0, 0, 0, 0, 0, 0, 0]"

lemmas capture_eval = capture_options_valid_def c_loop.simps capture_body_def poll_def zero_stats_def
  read_next_meta_def read_exact_def read_exact_body_def mock_read_def Let_def magic_matches_def
  magic_bytes_def read_meta_rest_def SNIFFER_META_SIZE_def sniffer_decode_meta_def read_le16_def
  read_le32_def read_le64_def upt_small out_print_def store_record_def write_file_all.simps fwrite_def
  fflush_def resync_body_def

definition frame1_stats :: SnifferStats where
  "frame1_stats = zero_stats\<lparr>records := 1, received_bytes := 19, stored_bytes := 19\<rparr>"

lemma capture_frame1:
  "sniffer_capture True mock_transport plain_options (start_state (mock_init frame1) (Some 60)) =
     Some (0, \<lparr>cs_context = (mock_init frame1)\<lparr>mk_input_offset := 19\<rparr>, cs_running = Some 54,
       cs_stats = frame1_stats, cs_output = \<lparr>fl_data = frame1, fl_accept = [], fl_flush = []\<rparr>,
       cs_printed = []\<rparr>)"
  by (simp add: capture_eval sniffer_capture_def start_state_def mock_transport_def mock_init_def
      frame1_def plain_options_def empty_file_def frame1_stats_def)

lemma capture_frame1_defs [simp]:
  "cs_stats (start_state c run) = zero_stats" "cs_context (start_state c run) = c"
  "cs_running (start_state c run) = run" "cs_printed (start_state c run) = []"
  "fl_data (cs_output (start_state c run)) = []" "accepts_all (cs_output (start_state c run))"
  by (simp_all add: start_state_def empty_file_def accepts_all_def)

lemma plain_options_simps [simp]:
  "max_payload plain_options = 64" "max_records plain_options = 0" "capture_options_valid plain_options"
  "print_records plain_options = False" "print_payload plain_options = False"
  "limit_of plain_options s = None"
  by (simp_all add: plain_options_def capture_options_valid_def limit_of_def)

lemma length_frame1 [simp]: "length frame1 = 19" "frame1 \<noteq> []"
  by (simp_all add: frame1_def)

lemma complete_frame1 [simp]: "complete_record 64 frame1"
  by (simp add: complete_record_def record_payload_length_def frame1_def SNIFFER_META_SIZE_def
      magic_matches_def magic_bytes_def sniffer_decode_meta_def read_le16_def)

lemma mock_init_simps [simp]: "mock_wf (mock_init input)" "mock_pending (mock_init input) = input"
  by (simp_all add: mock_wf_def mock_pending_def mock_init_def)

section \<open>Over any transport\<close>

text \<open>
  C0. Whatever the transport and the file do, a capture that returns has appended to the file
  complete records only, each with the magic and exactly the announced payload within the
  limit, and counted them; after them at most a prefix of one more record, and then only if it
  returns \<open>-1\<close> after one counted write failure.
\<close>
theorem capture_stores_complete_records:
  assumes "sniffer_capture malloc_ok transport opts s = Some (status, s')"
  shows "\<exists>fs part. fl_data (cs_output s') = fl_data (cs_output s) @ concat fs @ part \<and>
    list_all (complete_record (max_payload opts)) fs \<and>
    records (cs_stats s') = records (cs_stats s) + of_nat (length fs) \<and>
    stored_bytes (cs_stats s') = stored_bytes (cs_stats s) + of_nat (length (concat fs @ part)) \<and>
    (part = [] \<or> status = -1 \<and>
       file_write_failures (cs_stats s') = file_write_failures (cs_stats s) + 1 \<and>
       (\<exists>r w. complete_record (max_payload opts) r \<and> part = take w r))"
  using sniffer_capture_post [OF assms] unfolding capture_post_def file_holds_def by blast

theorem capture_stores_complete_records_witness:
  "\<exists>fs part. frame1 = concat fs @ part \<and> list_all (complete_record 64) fs \<and>
     records frame1_stats = of_nat (length fs)"
proof -
  have z: "records zero_stats = 0" by (simp add: zero_stats_def)
  from capture_stores_complete_records [OF capture_frame1, simplified capture_frame1_defs z
      out_file.simps capture_state.simps append_Nil add_0 plain_options_simps]
  show ?thesis by blast
qed

text \<open>
  C20. Every byte received is stored, counted as discarded, or part of one of the metas
  rejected for their length, except for less than one meta and one payload that were being
  read when the capture ended: no byte disappears from the counters.
\<close>
theorem capture_balances_bytes:
  assumes "sniffer_capture malloc_ok transport opts s = Some (status, s')" "cs_stats s = zero_stats"
  shows "\<exists>k \<le> 18 + max_payload opts. received_bytes (cs_stats s') =
    stored_bytes (cs_stats s') + discarded_bytes (cs_stats s') +
    18 * invalid_lengths (cs_stats s') + of_nat k"
proof -
  obtain k where "k \<le> 18 + max_payload opts" "unaccounted (cs_stats s') = of_nat k"
    using sniffer_capture_post [OF assms(1)] assms(2)
    by (auto simp: capture_post_def unaccounted_def zero_stats_def)
  then show ?thesis by (intro exI [of _ k]) (auto simp: unaccounted_def algebra_simps)
qed

theorem capture_balances_bytes_witness:
  "\<exists>k \<le> 82. received_bytes frame1_stats = stored_bytes frame1_stats + of_nat (k :: nat)"
  using capture_balances_bytes [OF capture_frame1] by (auto simp: frame1_stats_def zero_stats_def)

text \<open>
  The record limit is kept: with \<open>max_records\<close> set, no more records are counted than it
  allows, whatever the transport does, and the status is 0 or \<open>-1\<close>.
\<close>
lemma capture_keeps_record_limit:
  assumes "sniffer_capture malloc_ok transport opts s = Some (status, s')"
    and "max_records opts \<noteq> 0" "records (cs_stats s) \<le> max_records opts"
  shows "records (cs_stats s') \<le> max_records opts \<and> (status = 0 \<or> status = -1)"
  using sniffer_capture_post [OF assms(1)] assms(2,3) by (auto simp: capture_post_def records_bounded_def)

lemma capture_keeps_record_limit_example:
  "\<exists>status s'. sniffer_capture True mock_transport (plain_options\<lparr>max_records := 1\<rparr>)
       (start_state (mock_init (frame1 @ frame1)) (Some 9)) = Some (status, s') \<and>
     records (cs_stats s') \<le> 1 \<and> (status = 0 \<or> status = -1)"
proof -
  let ?o = "plain_options\<lparr>max_records := 1\<rparr>" and ?s = "start_state (mock_init (frame1 @ frame1)) (Some 9)"
  have "run_le 9 ?s" by (simp add: run_le_def)
  from capture_loop_returns [OF this, of mock_read ?o 0]
  obtain r where "sniffer_capture True mock_transport ?o ?s = Some r"
    by (auto simp: sniffer_capture_def mock_transport_def capture_options_valid_def plain_options_def)
  then show ?thesis
    using capture_keeps_record_limit [of True mock_transport ?o ?s "fst r" "snd r"]
    by (cases r) (auto simp: zero_stats_def)
qed

text \<open>
  C18. A signal ends the capture: once the flag is cleared, after any number of further polls,
  every loop of the capture is left and the call returns, whatever the transport reports and
  however long it keeps reporting timeouts.
\<close>
theorem capture_returns_on_signal:
  assumes "cs_running s = Some k"
  shows "\<exists>status s'. sniffer_capture malloc_ok transport opts s = Some (status, s')"
proof (cases "t_read transport")
  case (Some rd)
  have "run_le k s" using assms by (simp add: run_le_def)
  from capture_loop_returns [OF this, of rd opts 0] Some show ?thesis
    by (auto simp: sniffer_capture_def)
qed (simp add: sniffer_capture_def)

definition idle_transport :: "unit SnifferTransport" where
  "idle_transport = \<lparr>t_read = Some (\<lambda>c n. (SNIFFER_IO_TIMEOUT, [], c)), t_write = None\<rparr>"

theorem capture_returns_on_signal_witness:
  "\<exists>status s'. sniffer_capture True idle_transport plain_options (start_state () (Some 100)) = Some (status, s')"
  by (rule capture_returns_on_signal [of _ 100]) simp

section \<open>Over byte streams\<close>

text \<open>
  C6. A capture of USB packets through the staging buffer computes the specification of the
  concatenated packets: it returns 0, the file gets the records of the stream, the terminal
  their printed form, and every counter but the number of timeouts is what the segments of the
  stream say. How the stream was cut into packets does not appear in the result.
\<close>
theorem capture_of_packets:
  assumes "buffered_wf (packet_wf m) m (cs_context s)" "cs_running s = None"
    and "accepts_all (cs_output s)" "capture_options_valid opts"
    and "xs = parse (max_payload opts) (limit_of opts s) (buffered_pending packet_pending (cs_context s))"
  shows "\<exists>s'. sniffer_capture True (sniffer_buffered_transport_adapter packet_transport) opts s = Some (0, s') \<and>
    fl_data (cs_output s') = fl_data (cs_output s) @ concat (parse_records xs) \<and>
    cs_printed s' = cs_printed s @ parse_printed opts 0 xs \<and>
    (cs_stats s')\<lparr>read_timeouts := 0\<rparr> = (parse_stats xs (cs_stats s))\<lparr>read_timeouts := 0\<rparr>"
proof -
  have "t_read (sniffer_buffered_transport_adapter packet_transport) = Some (buffered_read packet_read)"
    by (simp add: sniffer_buffered_transport_adapter_def packet_transport_def)
  then show ?thesis
    by (rule packets.buffered.sniffer_capture_stream [OF _ assms(4,1,2,3,5)])
       (auto simp: end_status_def end_errors_def moved_def parse_stored_records)
qed

definition split_packets :: PacketTransport where
  "split_packets = \<lparr>pk_packets = [(take 5 frame1, SNIFFER_IO_DATA), ([], SNIFFER_IO_TIMEOUT),
     (drop 5 frame1 @ take 2 frame1, SNIFFER_IO_DATA)], pk_index = 0\<rparr>"

definition split_buffered :: "PacketTransport SnifferBufferedTransport" where
  "split_buffered = \<lparr>bf_context = split_packets, bf_buffer = replicate 64 0, bf_capacity = 64,
     bf_offset = 0, bf_length = 0, bf_pending_status = SNIFFER_IO_DATA\<rparr>"

lemma split_buffered_facts [simp]:
  "buffered_wf (packet_wf 64) 64 split_buffered"
  "buffered_pending packet_pending split_buffered = frame1 @ take 2 frame1"
  by (simp_all add: buffered_wf_def packet_wf_def buffered_pending_def packet_pending_def
      split_buffered_def split_packets_def frame1_def)

lemma parse_split: "parse 64 None (frame1 @ take 2 frame1) = [Record frame1, Partial_Meta (take 2 frame1)]"
  by (simp add: parse_record_append) (simp add: parse.simps frame1_def)

theorem capture_of_packets_witness:
  "\<exists>s'. sniffer_capture True (sniffer_buffered_transport_adapter packet_transport) plain_options
       (start_state split_buffered None) = Some (0, s') \<and>
     fl_data (cs_output s') = frame1 \<and> records (cs_stats s') = 1 \<and> truncated_meta (cs_stats s') = 1"
proof -
  let ?s = "start_state split_buffered None"
  obtain s' where s': "sniffer_capture True (sniffer_buffered_transport_adapter packet_transport) plain_options ?s =
      Some (0, s')" "fl_data (cs_output s') = frame1"
    "(cs_stats s')\<lparr>read_timeouts := 0\<rparr> =
      (parse_stats [Record frame1, Partial_Meta (take 2 frame1)] zero_stats)\<lparr>read_timeouts := 0\<rparr>"
    using capture_of_packets [of 64 ?s plain_options, OF _ _ _ _ refl] by (auto simp: parse_split)
  from arg_cong [OF s'(3), of records] arg_cong [OF s'(3), of truncated_meta]
  have "records (cs_stats s') = 1" "truncated_meta (cs_stats s') = 1"
    by (simp_all add: zero_stats_def)
  with s'(1,2) show ?thesis by blast
qed

text \<open>
  C21. The result does not depend on the chunks, delays and buffer sizes of the transport: two
  byte-array transports with the same bytes left to read, whatever their maximal read sizes
  and pending timeouts, give the same file, the same terminal output and the same counters but
  for the number of timeouts.
\<close>
theorem capture_independent_of_chunks:
  assumes "mock_wf c1" "mock_wf c2" "mock_pending c1 = mock_pending c2"
    and "accepts_all (cs_output s)" "cs_running s = None" "capture_options_valid opts"
  shows "\<exists>s1 s2. sniffer_capture True mock_transport opts (s\<lparr>cs_context := c1\<rparr>) = Some (0, s1) \<and>
    sniffer_capture True mock_transport opts (s\<lparr>cs_context := c2\<rparr>) = Some (0, s2) \<and>
    cs_output s1 = cs_output s2 \<and> cs_printed s1 = cs_printed s2 \<and>
    (cs_stats s1)\<lparr>read_timeouts := 0\<rparr> = (cs_stats s2)\<lparr>read_timeouts := 0\<rparr>"
proof -
  let ?xs = "parse (max_payload opts) (limit_of opts s) (mock_pending c2)"
  have rd: "t_read mock_transport = Some mock_read" by (simp add: mock_transport_def)
  have lim: "limit_of opts (s\<lparr>cs_context := c\<rparr>) = limit_of opts s" for c by (simp add: limit_of_def)
  have run: "\<exists>t e k. e = 0 \<and> sniffer_capture True mock_transport opts (s\<lparr>cs_context := c\<rparr>) =
      Some (0, moved (leave opts 0 ?xs (s\<lparr>cs_context := c\<rparr>)) k t 0 e)"
    if c: "mock_wf c" "mock_pending c = mock_pending c2" for c
    by (rule mock.sniffer_capture_stream [OF rd assms(6), of "s\<lparr>cs_context := c\<rparr>", OF _ _ _ refl])
       (use c assms in \<open>auto simp: lim end_status_def end_errors_def\<close>)
  from run [OF assms(1,3)] run [OF assms(2) refl] show ?thesis
    by (auto simp: moved_def leave_def)
qed

theorem capture_independent_of_chunks_witness:
  "\<exists>s1 s2. sniffer_capture True mock_transport plain_options
       (start_state ((mock_init frame1)\<lparr>mk_max_read := 3, mk_timeouts_before_data := 7\<rparr>) None) = Some (0, s1) \<and>
     sniffer_capture True mock_transport plain_options (start_state (mock_init frame1) None) = Some (0, s2) \<and>
     cs_output s1 = cs_output s2"
proof -
  let ?slow = "(mock_init frame1)\<lparr>mk_max_read := 3, mk_timeouts_before_data := 7\<rparr>"
  have "mock_wf ?slow" "mock_pending ?slow = mock_pending (mock_init frame1)"
    by (simp_all add: mock_wf_def mock_pending_def mock_init_def)
  note c = capture_independent_of_chunks [OF this(1) mock_init_simps(1) this(2), of "start_state ?slow None" plain_options]
  have "(start_state ?slow None)\<lparr>cs_context := x\<rparr> = start_state x None" for x by (simp add: start_state_def)
  from c [unfolded this] show ?thesis by auto
qed

text \<open>
  C19. Round trip: a stream that consists of complete records is stored byte for byte, every
  record is counted, nothing is discarded and no error is counted. Terminal options do not
  matter: the stored bytes are the same with and without printing.
\<close>
theorem capture_round_trip:
  assumes "mock_wf (cs_context s)" "mock_pending (cs_context s) = concat rs"
    and "list_all (complete_record (max_payload opts)) rs" "max_records opts = 0"
    and "accepts_all (cs_output s)" "cs_running s = None" "capture_options_valid opts"
    and "cs_stats s = zero_stats" "fl_data (cs_output s) = []"
  shows "\<exists>s'. sniffer_capture True mock_transport opts s = Some (0, s') \<and>
    fl_data (cs_output s') = concat rs \<and>
    (cs_stats s')\<lparr>read_timeouts := 0\<rparr> = zero_stats\<lparr>records := of_nat (length rs),
       received_bytes := of_nat (length (concat rs)), stored_bytes := of_nat (length (concat rs))\<rparr>"
proof -
  have stats: "parse_stats (map Record rs) st = st\<lparr>records := records st + of_nat (length rs),
       received_bytes := received_bytes st + of_nat (length (concat rs)),
       stored_bytes := stored_bytes st + of_nat (length (concat rs))\<rparr>" for st
    by (induction rs arbitrary: st) (simp_all add: add.assoc)
  have recs: "parse_records (map Record rs) = rs" by (induction rs) simp_all
  have xs: "map Record rs = parse (max_payload opts) (limit_of opts s) (mock_pending (cs_context s))"
    using parse_records_concat [OF assms(3), of "[]"] assms(2,4) by (simp add: parse.simps limit_of_def)
  have rd: "t_read mock_transport = Some mock_read" by (simp add: mock_transport_def)
  show ?thesis
  proof (rule mock.sniffer_capture_stream [OF rd assms(7,1,6,5) xs])
    fix c t
    assume "sniffer_capture True mock_transport opts s =
      Some (end_status SNIFFER_IO_EOF, moved (leave opts 0 (map Record rs) s) c t 0 (end_errors SNIFFER_IO_EOF))"
    moreover have "fl_data (cs_output s) @ parse_stored (map Record rs) = concat rs"
      by (simp only: parse_stored_records recs assms(9) append_Nil)
    ultimately show ?thesis
      by (simp add: end_status_def end_errors_def moved_def stats assms(8)) (simp add: zero_stats_def)
  qed (simp add: limit_of_def assms(4))
qed

theorem capture_round_trip_witness:
  "\<exists>s'. sniffer_capture True mock_transport plain_options (start_state (mock_init (frame1 @ frame1)) None) =
       Some (0, s') \<and> fl_data (cs_output s') = frame1 @ frame1"
  using capture_round_trip [of "start_state (mock_init (frame1 @ frame1)) None" "[frame1, frame1]" plain_options]
  by (auto simp: start_state_def empty_file_def accepts_all_def)

text \<open>
  C17. Resynchronisation: bytes in front of a record that show no magic number, not even
  together with the bytes that follow, are dropped and counted exactly, the stream is counted
  as resynchronised once, and every record after them is stored.
\<close>
theorem capture_resynchronises:
  assumes "mock_wf (cs_context s)" "mock_pending (cs_context s) = g @ r @ concat rs"
    and "g \<noteq> []" "no_magic_before g (r @ concat rs)"
    and "complete_record (max_payload opts) r" "list_all (complete_record (max_payload opts)) rs"
    and "max_records opts = 0" "accepts_all (cs_output s)" "cs_running s = None"
    and "capture_options_valid opts" "cs_stats s = zero_stats" "fl_data (cs_output s) = []"
  shows "\<exists>s'. sniffer_capture True mock_transport opts s = Some (0, s') \<and>
    fl_data (cs_output s') = r @ concat rs \<and>
    discarded_bytes (cs_stats s') = of_nat (length g) \<and> resynchronizations (cs_stats s') = 1 \<and>
    magic_errors (cs_stats s') = 1 \<and> records (cs_stats s') = 1 + of_nat (length rs)"
proof -
  have stats: "discarded_bytes (parse_stats (map Record rs) st) = discarded_bytes st \<and>
      resynchronizations (parse_stats (map Record rs) st) = resynchronizations st \<and>
      magic_errors (parse_stats (map Record rs) st) = magic_errors st \<and>
      records (parse_stats (map Record rs) st) = records st + of_nat (length rs)" for st
    by (induction rs arbitrary: st) (simp_all add: add.assoc)
  have recs: "parse_stored (map Record rs) = concat rs" by (induction rs) simp_all
  let ?xs = "Skipped g # Record r # map Record rs"
  have "parse (max_payload opts) None (g @ r @ concat rs) = ?xs"
    using parse_garbage_record [OF assms(4,3,5), of None] parse_records_concat [OF assms(6), of "[]"]
    by (simp add: parse.simps)
  then have xs: "?xs = parse (max_payload opts) (limit_of opts s) (mock_pending (cs_context s))"
    by (simp add: limit_of_def assms(2,7))
  have rd: "t_read mock_transport = Some mock_read" by (simp add: mock_transport_def)
  show ?thesis
  proof (rule mock.sniffer_capture_stream [OF rd assms(10,1,9,8) xs])
    fix c t
    assume "sniffer_capture True mock_transport opts s =
      Some (end_status SNIFFER_IO_EOF, moved (leave opts 0 ?xs s) c t 0 (end_errors SNIFFER_IO_EOF))"
    moreover have "fl_data (cs_output s) @ parse_stored ?xs = r @ concat rs"
      by (simp add: recs assms(12))
    ultimately show ?thesis
      by (simp add: end_status_def moved_def stats assms(11)) (simp add: zero_stats_def)
  qed (simp add: limit_of_def assms(7))
qed

theorem capture_resynchronises_witness:
  "\<exists>s'. sniffer_capture True mock_transport plain_options (start_state (mock_init ([7, 0xBB, 0xBB] @ frame1)) None) =
       Some (0, s') \<and> fl_data (cs_output s') = frame1 \<and> discarded_bytes (cs_stats s') = 3"
proof -
  have "no_magic_before [7, 0xBB, 0xBB] frame1"
    by (simp add: no_magic_before_def frame1_def magic_matches_def magic_bytes_def less_Suc_eq all_conj_distrib)
  then show ?thesis
    using capture_resynchronises [of "start_state (mock_init ([7, 0xBB, 0xBB] @ frame1)) None" "[7, 0xBB, 0xBB]"
        frame1 "[]" plain_options]
    by (auto simp: start_state_def empty_file_def accepts_all_def)
qed

section \<open>Frames\<close>

lemma length_write_le [simp]:
  "length (write_le16 a) = 2" "length (write_le32 b) = 4" "length (write_le64 c) = 8"
  by (simp_all add: write_le_eq)

text \<open>
  Decoding inverts encoding: the meta of a frame built from a source address, a sequence
  number, a payload length and a receive time decodes to exactly these values and the magic
  number, and the frame is a complete record for every limit the payload respects.
\<close>
lemma decode_append_frame:
  assumes "length payload = unat n" "unat n \<le> maxp"
  shows "sniffer_decode_meta (append_frame [] source seq payload n rx) =
      \<lparr>magic = SNIFFER_MAGIC, sender_address = source, sequence = seq, message_length = n, rx_time = rx\<rparr> \<and>
    complete_record maxp (append_frame [] source seq payload n rx)"
proof -
  let ?f = "append_frame [] source seq payload n rx"
  have skip: "drop n (write_le32 a @ d) = drop (n - 4) d" if "4 \<le> n" for n a d using that by simp
  have skip2: "drop n (write_le16 a @ d) = drop (n - 2) d" if "2 \<le> n" for n a d using that by simp
  have dec: "sniffer_decode_meta ?f =
      \<lparr>magic = SNIFFER_MAGIC, sender_address = source, sequence = seq, message_length = n, rx_time = rx\<rparr>"
    by (simp add: sniffer_decode_meta_def append_frame_def skip skip2 del: drop_append)
       (simp add: write_le_eq SNIFFER_MAGIC_def)
  moreover have "magic_matches ?f"
    by (simp add: magic_matches_def append_frame_def magic_bytes_def write_le32_def upt_small)
  moreover have "length ?f = 18 + unat n" using assms(1) by (simp add: append_frame_def)
  ultimately show ?thesis
    using assms(2) by (simp add: complete_record_def record_payload_length_def SNIFFER_META_SIZE_def)
qed

lemma decode_append_frame_example:
  "sniffer_decode_meta (append_frame [] 5 9 [1, 2, 3] 3 123) =
     \<lparr>magic = SNIFFER_MAGIC, sender_address = 5, sequence = 9, message_length = 3, rx_time = 123\<rparr>"
  using decode_append_frame [of "[1, 2, 3]" 3 64 5 9 123] by simp

section \<open>Sending\<close>

text \<open>
  A send that reports success delivered everything: whatever the chunk sizes and timeouts,
  the bytes the transport accepted are a prefix of the data in order, all of it when
  \<open>sniffer_transport_write_all\<close> returns 0, and the caller's counter grew by the timeouts.
\<close>
lemma write_all_delivers:
  assumes "sniffer_transport_write_all mock_transport data max_timeouts c run t0 =
    Some (status, rest, n, c', run', t1)"
  shows "(\<exists>k. mk_output c' = mk_output c @ take k data \<and> rest = drop k data) \<and>
    (status = 0 \<longrightarrow> mk_output c' = mk_output c @ data) \<and> (status = 0 \<or> status = -1) \<and>
    t1 = map_option (\<lambda>t. t + n) t0"
proof -
  have "t_write mock_transport = Some mock_write" by (simp add: mock_transport_def)
  from mock_sink.write_all_inv [OF this assms] obtain k where "k \<le> length data" "rest = drop k data"
    "mk_output c' = mk_output c @ take k data" "status = 0 \<and> rest = [] \<or> status = -1"
    "t1 = map_option (\<lambda>t. t + n) t0" by (auto simp: send_inv_def sent_def)
  then show ?thesis by auto
qed

lemma write_all_delivers_example:
  "\<exists>c'. mk_output c' = [1, 2, 3] \<and> (\<exists>rest n run. sniffer_transport_write_all mock_transport [1, 2, 3] 2
     ((mock_init [])\<lparr>mk_max_write := 2, mk_write_timeouts_before_data := 1\<rparr>) None (Some 5) =
     Some (0, rest, n, c', run, Some 6))"
proof -
  let ?c = "(mock_init [])\<lparr>mk_max_write := 2, mk_write_timeouts_before_data := 1\<rparr>"
  have run: "sniffer_transport_write_all mock_transport [1, 2, 3] 2 ?c None (Some 5) =
      Some (0, [], 1, ?c\<lparr>mk_write_timeouts_before_data := 0, mk_output := [1, 2, 3]\<rparr>, None, Some 6)"
    by (simp add: sniffer_transport_write_all_def mock_transport_def c_loop.simps write_all_body_def
        mock_write_def mock_init_def Let_def)
  from write_all_delivers [OF this] run show ?thesis by (auto simp: mock_init_def)
qed

text \<open>
  A send completes within its limit: if the transport has room and reports no more
  timeouts than \<open>max_timeouts\<close>, the call returns 0 and all the data is there.
\<close>
lemma write_all_completes:
  assumes "length (mk_output c) + length data \<le> 256"
    and "mk_write_timeouts_before_data c \<le> unat max_timeouts"
  shows "\<exists>rest n c' run t1. sniffer_transport_write_all mock_transport data max_timeouts c None t0 =
    Some (0, rest, n, c', run, t1) \<and> mk_output c' = mk_output c @ data"
proof -
  have wr: "t_write mock_transport = Some mock_write" by (simp add: mock_transport_def)
  obtain x where x: "sniffer_transport_write_all mock_transport data max_timeouts c None t0 = Some (0, x)"
    using mock_write_all_loop [of c data 0 max_timeouts t0] assms
    by (auto simp: sniffer_transport_write_all_def wr)
  from mock_sink.write_all_inv [OF wr x] have "mk_output (fst (snd (snd x))) = mk_output c @ data"
    by (auto simp: send_inv_def sent_def)
  with x show ?thesis by (cases x) auto
qed

lemma write_all_completes_example:
  "\<exists>rest n c' run t1. sniffer_transport_write_all mock_transport [1, 2] 3
     ((mock_init [])\<lparr>mk_write_timeouts_before_data := 3\<rparr>) None None = Some (0, rest, n, c', run, t1) \<and>
     mk_output c' = [1, 2]"
  using write_all_completes [of "(mock_init [])\<lparr>mk_write_timeouts_before_data := 3\<rparr>" "[1, 2]" 3 None]
  by (simp add: mock_init_def)

end
