(* ===== verification/Sniffer_Storage.thy ===== *)
theory Sniffer_Storage
  imports Libusb_Transport Sniffer_Hex Plot_Macos Capture_Properties
begin

unbundle bit_operations_syntax

text \<open>
  The capture program, \<open>sniffer_storage.c\<close>: its command line, and the run that opens the
  device, sends the bytes of \<open>--send-hex\<close>, captures into a file, closes the device and, in the build for
  macOS, has the capture plotted. Usage and error messages are left out; what the
  program prints on its standard output is kept.
\<close>

section \<open>The command line\<close>

definition FILENAME_SIZE :: nat where "FILENAME_SIZE = 128"
definition SEND_BUFFER_SIZE :: nat where "SEND_BUFFER_SIZE = 4096"
definition RECEIVE_STAGING_SIZE :: nat where "RECEIVE_STAGING_SIZE = 16384"
definition WRITE_TIMEOUT_LIMIT :: u64 where "WRITE_TIMEOUT_LIMIT = 3"
definition SNIFFER_DEFAULT_MAX_PAYLOAD :: nat where "SNIFFER_DEFAULT_MAX_PAYLOAD = 4096"

text \<open>The \<open>double\<close> nearest to 29.96025.\<close>

definition DEFAULT_PLOT_PERIOD_MS :: c_double where
  "DEFAULT_PLOT_PERIOD_MS = Finite (8433060670995431 / 281474976710656)"

record ProgramOptions =
  po_usb :: LibusbDeviceOptions
  po_output_path :: "string option"
  po_send_hex :: "string option"
  po_plot_output :: "string option"
  po_max_payload :: nat
  po_max_records :: u64
  po_plot_period_ms :: c_double
  po_list_devices :: bool
  po_send_only :: bool
  po_print_records :: bool
  po_print_payload :: bool
  po_print_stats :: bool
  po_plot_after_capture :: bool

text \<open>
  \<open>None\<close> is the result \<open>-1\<close>. \<open>strtoull\<close> and \<open>strtoul\<close> are the same function where
  \<open>unsigned long\<close> has 64 bits. The conversion \<open>strtod\<close> is a parameter: the value, whether
  \<open>errno\<close> is set, and the text at \<open>end\<close>.
\<close>

definition parse_unsigned :: "string \<Rightarrow> nat \<Rightarrow> nat option" where
  "parse_unsigned text maximum =
     (case strtoul0 text of (parsed, err, rest) \<Rightarrow>
        if err \<or> rest = text \<or> rest \<noteq> [] \<or> maximum < parsed then None else Some parsed)"

type_synonym strtod_fn = "string \<Rightarrow> c_double \<times> bool \<times> string"

definition parse_positive_double :: "strtod_fn \<Rightarrow> string \<Rightarrow> c_double option" where
  "parse_positive_double strtod text =
     (case strtod text of (parsed, err, rest) \<Rightarrow>
        if err \<or> rest = text \<or> rest \<noteq> [] \<or> \<not> double_gt parsed 0 \<or> double_gt parsed 1000000000
        then None else Some parsed)"

definition parse_device :: "string \<Rightarrow> (int \<times> int) option" where
  "parse_device text =
     (case strtol10 text of (parsed_bus, err, rest) \<Rightarrow>
        if err \<or> rest = text \<or> rest = [] \<or> hd rest \<noteq> CHR '':'' \<or> parsed_bus < 0 \<or> 255 < parsed_bus then None
        else let address_text = tl rest in
          case strtol10 address_text of (parsed_address, err, rest) \<Rightarrow>
            if err \<or> rest = address_text \<or> rest \<noteq> [] \<or> parsed_address < 0 \<or> 255 < parsed_address then None
            else Some (parsed_bus, parsed_address))"

text \<open>The next argument and the arguments after it.\<close>

definition require_value :: "string list \<Rightarrow> (string \<times> string list) option" where
  "require_value rest = (case rest of [] \<Rightarrow> None | v # rest' \<Rightarrow> Some (v, rest'))"

text \<open>
  One iteration of the loop over the arguments, after the check for help: the options without a
  value, those with a text, and the numbers. \<open>None\<close> is the return of \<open>-1\<close>.
\<close>

definition flag_option :: "string \<Rightarrow> ProgramOptions \<Rightarrow> ProgramOptions option" where
  "flag_option a options =
     (if a = ''--list-devices'' then Some (options\<lparr>po_list_devices := True\<rparr>)
      else if a = ''--send-only'' then Some (options\<lparr>po_send_only := True\<rparr>)
      else if a = ''--print-records'' then Some (options\<lparr>po_print_records := True\<rparr>)
      else if a = ''--no-print-records'' then Some (options\<lparr>po_print_records := False\<rparr>)
      else if a = ''--print-payload'' then Some (options\<lparr>po_print_payload := True\<rparr>)
      else if a = ''--print-stats'' then Some (options\<lparr>po_print_stats := True\<rparr>)
      else if a = ''--plot-after-capture'' then Some (options\<lparr>po_plot_after_capture := True\<rparr>)
      else None)"

definition text_option :: "strtod_fn \<Rightarrow> string \<Rightarrow> string \<Rightarrow> ProgramOptions \<Rightarrow> ProgramOptions option option" where
  "text_option strtod a value options =
     (if a = ''--plot-output'' then
        Some (Some (options\<lparr>po_plot_output := Some value, po_plot_after_capture := True\<rparr>))
      else if a = ''--plot-period-ms'' then
        Some (map_option (\<lambda>d. options\<lparr>po_plot_period_ms := d\<rparr>) (parse_positive_double strtod value))
      else if a = ''-o'' \<or> a = ''--output'' then Some (Some (options\<lparr>po_output_path := Some value\<rparr>))
      else if a = ''--send'' \<or> a = ''--send-hex'' then Some (Some (options\<lparr>po_send_hex := Some value\<rparr>))
      else if a = ''--device'' then
        Some (map_option (\<lambda>(bus, address). options\<lparr>po_usb := (po_usb options)\<lparr>bus_number := bus,
          device_address := address\<rparr>\<rparr>) (parse_device value))
      else None)"

definition number_option :: "string \<Rightarrow> string \<Rightarrow> ProgramOptions \<Rightarrow> ProgramOptions option option" where
  "number_option a value options =
     (let number = (\<lambda>maximum set. Some (map_option set (parse_unsigned value maximum)));
          usb = (\<lambda>f. options\<lparr>po_usb := f (po_usb options)\<rparr>)
      in if a = ''--vid'' then number 0xFFFF (\<lambda>n. usb (\<lambda>u. u\<lparr>vendor_id := of_nat n\<rparr>))
         else if a = ''--pid'' then number 0xFFFF (\<lambda>n. usb (\<lambda>u. u\<lparr>product_id := of_nat n\<rparr>))
         else if a = ''--interface'' then number 0x7FFFFFFF (\<lambda>n. usb (\<lambda>u. u\<lparr>interface_number := int n\<rparr>))
         else if a = ''--endpoint-in'' then number 0xFF (\<lambda>n. usb (\<lambda>u. u\<lparr>endpoint_in := of_nat n\<rparr>))
         else if a = ''--endpoint-out'' then number 0xFF (\<lambda>n. usb (\<lambda>u. u\<lparr>endpoint_out := of_nat n\<rparr>))
         else if a = ''--timeout-ms'' then number 0xFFFFFFFF (\<lambda>n. usb (\<lambda>u. u\<lparr>timeout_ms := of_nat n\<rparr>))
         else if a = ''--max-payload'' then number 0xFFFF (\<lambda>n. options\<lparr>po_max_payload := n\<rparr>)
         else if a = ''--max-records'' then number ULONG_MAX (\<lambda>n. options\<lparr>po_max_records := of_nat n\<rparr>)
         else None)"

definition storage_option ::
    "strtod_fn \<Rightarrow> string \<Rightarrow> string list \<Rightarrow> ProgramOptions \<Rightarrow> (ProgramOptions \<times> string list) option" where
  "storage_option strtod a rest options =
     (case flag_option a options of
        Some options' \<Rightarrow> Some (options', rest)
      | None \<Rightarrow> do {
          (value, rest') \<leftarrow> require_value rest;
          options' \<leftarrow> (case text_option strtod a value options of
                        Some r \<Rightarrow> r
                      | None \<Rightarrow> (case number_option a value options of Some r \<Rightarrow> r | None \<Rightarrow> None));
          Some (options', rest')
        })"

text \<open>The checks after the loop; 0x80 is the library's direction mask and its IN direction.\<close>

definition storage_check :: "ProgramOptions \<Rightarrow> bool" where
  "storage_check options \<longleftrightarrow>
     \<not> (po_send_only options \<and> po_send_hex options = None) \<and>
     \<not> (po_print_payload options \<and> \<not> po_print_records options) \<and>
     po_max_payload options \<noteq> 0 \<and>
     timeout_ms (po_usb options) \<noteq> 0 \<and>
     \<not> (po_send_hex options \<noteq> None \<and>
        (bus_number (po_usb options) < 0 \<or> device_address (po_usb options) < 0)) \<and>
     \<not> (endpoint_in (po_usb options) AND 0x80 \<noteq> 0x80 \<or> endpoint_out (po_usb options) AND 0x80 \<noteq> 0x00)"

lemma storage_option_shorter:
  "storage_option strtod a rest options = Some (o', r) \<Longrightarrow> length r \<le> length rest"
  by (auto simp: storage_option_def require_value_def bind_eq_Some_conv split: option.splits list.splits)

function storage_parse :: "strtod_fn \<Rightarrow> string list \<Rightarrow> ProgramOptions \<Rightarrow> ProgramOptions parse_result" where
  "storage_parse strtod [] options = (if storage_check options then Parsed options else Parse_Failed)"
| "storage_parse strtod (a # rest) options =
     (if a = ''-h'' \<or> a = ''--help'' then Parse_Help
      else case storage_option strtod a rest options of
        None \<Rightarrow> Parse_Failed
      | Some (options', rest') \<Rightarrow> storage_parse strtod rest' options')"
  by pat_completeness auto
termination
  by (relation "measure (\<lambda>(strtod, args, options). length args)") (auto dest: storage_option_shorter)

definition storage_defaults :: ProgramOptions where
  "storage_defaults = \<lparr>po_usb = \<lparr>vendor_id = 0x0483, product_id = 0x5740, interface_number = 0,
       endpoint_in = 0x81, endpoint_out = 0x01, timeout_ms = 5000, bus_number = -1, device_address = -1\<rparr>,
     po_output_path = None, po_send_hex = None, po_plot_output = None,
     po_max_payload = SNIFFER_DEFAULT_MAX_PAYLOAD, po_max_records = 0,
     po_plot_period_ms = DEFAULT_PLOT_PERIOD_MS, po_list_devices = False, po_send_only = False,
     po_print_records = True, po_print_payload = False, po_print_stats = False,
     po_plot_after_capture = False\<rparr>"

definition storage_options :: "strtod_fn \<Rightarrow> string list \<Rightarrow> ProgramOptions parse_result" where
  "storage_options strtod args = storage_parse strtod args storage_defaults"

section \<open>The run\<close>

text \<open>
  The host beside USB: the text conversion, the local time (year, month, day, hour, minute,
  second; \<open>None\<close> when it cannot be had), the files that can be created, whether the capture
  buffer is allocated and the file closes without an error, the contents of the uninitialised
  staging array, and the function that plots in the build with \<open>SNIFFER_MACOS_PLOT\<close>, which is
  \<open>sniffer_plot_macos_run\<close> on that system, \<open>None\<close> in the other builds.
\<close>

record storage_host =
  h_strtod :: strtod_fn
  h_localtime :: "(nat \<times> nat \<times> nat \<times> nat \<times> nat \<times> nat) option"
  h_fopen :: "string \<Rightarrow> out_file option"
  h_malloc :: bool
  h_fclose :: bool
  h_staging :: bytes
  h_plot :: "(string option \<Rightarrow> string option \<Rightarrow> c_double \<Rightarrow> int \<times> string) option"

definition fmt_02 :: "nat \<Rightarrow> string" where
  "fmt_02 n = [dec_digit (n div 10 mod 10), dec_digit (n mod 10)]"

definition generate_filename :: "storage_host \<Rightarrow> string option" where
  "generate_filename host =
     (case h_localtime host of
        None \<Rightarrow> None
      | Some (year, month, day, hour, minute, second) \<Rightarrow>
          let name = ''raw_sensor_data_'' @ fmt_u year @ fmt_02 month @ fmt_02 day @ ''_'' @
                fmt_02 hour @ fmt_02 minute @ fmt_02 second @ ''.bin''
          in if length name < FILENAME_SIZE then Some name else None)"

text \<open>The bytes of \<open>--send-hex\<close> and their text, or an error.\<close>

definition send_data :: "string \<Rightarrow> (bytes \<times> string) option" where
  "send_data hex = do {
     data \<leftarrow> sniffer_parse_hex hex SEND_BUFFER_SIZE;
     text \<leftarrow> sniffer_format_hex data (SEND_BUFFER_SIZE * 2 + 1);
     Some (data, text)
   }"

definition sending_text :: "LibusbDeviceOptions \<Rightarrow> bytes \<times> string \<Rightarrow> string" where
  "sending_text options = (\<lambda>(data, text).
     ''Sending '' @ fmt_u (length data) @ '' raw byte(s) to bus='' @ fmt_d (bus_number options) @
     '' address='' @ fmt_d (device_address options) @ '' endpoint=0x'' @
     fmt_0X 2 (unat (endpoint_out options)) @ '': '' @ text @ nl @
     ''USB transfer success does not prove application-level command handling.'' @ nl)"

text \<open>The send: whether it succeeded, what is printed after it, the transport and the flag.\<close>

definition storage_send ::
    "'c SnifferTransport \<Rightarrow> bytes \<Rightarrow> 'c \<Rightarrow> nat option \<Rightarrow> (bool \<times> string \<times> 'c \<times> nat option) option" where
  "storage_send transport data c run = do {
     (status, _, _, c, run, write_timeouts) \<leftarrow>
       sniffer_transport_write_all transport data WRITE_TIMEOUT_LIMIT c run (Some 0);
     Some (if status \<noteq> 0 then (False, [], c, run)
           else (True, ''Bulk OUT transfer completed ('' @ fmt_u (unat (the write_timeouts)) @
                   '' timeout(s))'' @ nl, c, run))
   }"

definition capture_options :: "ProgramOptions \<Rightarrow> SnifferCaptureOptions" where
  "capture_options options = \<lparr>max_payload = po_max_payload options, max_records = po_max_records options,
     flush_each_record = True, print_records = po_print_records options,
     print_payload = po_print_payload options, print_stream = po_print_records options\<rparr>"

text \<open>The plot after the capture: the exit code so far, then the one after it and what is printed.\<close>

definition plot_step :: "storage_host \<Rightarrow> ProgramOptions \<Rightarrow> string \<Rightarrow> bool \<Rightarrow> SnifferStats \<Rightarrow> int \<Rightarrow> int \<times> string" where
  "plot_step host options path output_closed stats exit_code =
     (if po_plot_after_capture options \<and> output_closed \<and> 0 < records stats then
        (case h_plot host of
           Some plot \<Rightarrow>
             (case plot (Some path) (po_plot_output options) (po_plot_period_ms options) of
                (response, said) \<Rightarrow> (if response \<noteq> 0 then 1 else exit_code, said))
         | None \<Rightarrow> (1, []))
      else (exit_code, []))"

text \<open>
  The capture into a file: the exit code, what is printed, the file with the final counters when
  it was created, and the transport.
\<close>

definition storage_capture ::
    "storage_host \<Rightarrow> 'c SnifferTransport \<Rightarrow> ProgramOptions \<Rightarrow> 'c \<Rightarrow> nat option \<Rightarrow>
     (int \<times> string \<times> (out_file \<times> SnifferStats) option \<times> 'c) option" where
  "storage_capture host transport options c run =
     (case (case po_output_path options of Some path \<Rightarrow> Some path | None \<Rightarrow> generate_filename host) of
        None \<Rightarrow> Some (1, [], None, c)
      | Some path \<Rightarrow>
          (case h_fopen host path of
             None \<Rightarrow> Some (1, [], None, c)
           | Some file \<Rightarrow> do {
               (status, s) \<leftarrow> sniffer_capture (h_malloc host) transport (capture_options options)
                 \<lparr>cs_context = c, cs_running = run, cs_stats = zero_stats, cs_output = file,
                  cs_printed = ''Saving raw sniffer data to '' @ path @ nl\<rparr>;
               let exit_code = (if status \<noteq> 0 then 1 else 0 :: int);
                   output_closed = h_fclose host;
                   stats = (if output_closed then cs_stats s
                     else (cs_stats s)\<lparr>file_write_failures := file_write_failures (cs_stats s) + 1\<rparr>);
                   exit_code = (if output_closed then exit_code else 1);
                   text = cs_printed s @ (if po_print_stats options then sniffer_print_stats stats else []);
                   (exit_code, said) = plot_step host options path output_closed stats exit_code;
                   text = text @ said @ (if exit_code = 0
                     then ''Logging finished. Data saved to '' @ path @ nl else [])
               in Some (exit_code, text, Some (cs_output s, stats), cs_context s)
             }))"

record 'w storage_run =
  sr_code :: int
  sr_usb :: "'w usb"
  sr_stdout :: string
  sr_file :: "(out_file \<times> SnifferStats) option"

definition storage_exit :: "int \<Rightarrow> 'w usb \<Rightarrow> string \<Rightarrow> 'w storage_run" where
  "storage_exit code s text = \<lparr>sr_code = code, sr_usb = s, sr_stdout = text, sr_file = None\<rparr>"

text \<open>The transport of the session: the device behind the staging array.\<close>

abbreviation staged :: "'w libusb \<Rightarrow> (LibusbTransport \<times> 'w usb) SnifferBufferedTransport SnifferTransport" where
  "staged L \<equiv> sniffer_buffered_transport_adapter (libusb_transport_adapter L)"

text \<open>The part of \<open>main\<close> that sends, when there is something to send, and the part that captures.\<close>

definition send_step ::
    "'w libusb \<Rightarrow> (bytes \<times> string) option \<Rightarrow> LibusbTransport \<Rightarrow>
     (LibusbTransport \<times> 'w usb) SnifferBufferedTransport \<Rightarrow> nat option \<Rightarrow>
     (bool \<times> string \<times> (LibusbTransport \<times> 'w usb) SnifferBufferedTransport \<times> nat option) option" where
  "send_step L send t b run =
     (case send of
        None \<Rightarrow> Some (True, [], b, run)
      | Some (data, text) \<Rightarrow> do {
          (ok, after, c, run) \<leftarrow> storage_send (staged L) data b run;
          Some (ok, sending_text (lt_options t) (data, text) @ after, c, run)
        })"

definition capture_step ::
    "storage_host \<Rightarrow> 'w libusb \<Rightarrow> ProgramOptions \<Rightarrow> bool \<Rightarrow>
     (LibusbTransport \<times> 'w usb) SnifferBufferedTransport \<Rightarrow> nat option \<Rightarrow>
     (int \<times> string \<times> (out_file \<times> SnifferStats) option \<times>
      (LibusbTransport \<times> 'w usb) SnifferBufferedTransport) option" where
  "capture_step host L options ok c run =
     (if \<not> ok then Some (1, [], None, c)
      else if \<not> po_send_only options then storage_capture host (staged L) options c run
      else Some (0, [], None, c))"

text \<open>From opening the device to the label \<open>cleanup\<close>; \<open>send\<close> are the bytes to be sent first.\<close>

definition storage_session ::
    "storage_host \<Rightarrow> 'w libusb \<Rightarrow> ProgramOptions \<Rightarrow> (bytes \<times> string) option \<Rightarrow> nat option \<Rightarrow> 'w usb \<Rightarrow>
     'w storage_run option" where
  "storage_session host L options send run s =
     (case libusb_transport_open L (po_usb options) (\<not> po_send_only options) (send \<noteq> None) s of (r, t, s) \<Rightarrow>
        if r \<noteq> 0 then Some (storage_exit 1 s [])
        else case sniffer_buffered_transport_init (libusb_transport_adapter L) (t, s) (h_staging host)
               RECEIVE_STAGING_SIZE of
          None \<Rightarrow> (case libusb_transport_close t s of (_, s) \<Rightarrow> Some (storage_exit 1 s []))
        | Some buffered \<Rightarrow> do {
            (ok, sent_text, c, run) \<leftarrow> send_step L send t buffered run;
            (exit_code, capture_text, file, c) \<leftarrow> capture_step host L options ok c run;
            case bf_context c of (t, s) \<Rightarrow>
              case libusb_transport_close t s of (_, s) \<Rightarrow>
                Some \<lparr>sr_code = exit_code, sr_usb = s, sr_stdout = sent_text @ capture_text, sr_file = file\<rparr>
          })"

definition storage_list :: "'w libusb \<Rightarrow> ProgramOptions \<Rightarrow> 'w usb \<Rightarrow> 'w storage_run" where
  "storage_list L options s =
     (case libusb_transport_list L (po_usb options) s of (matches, text, s) \<Rightarrow>
        if matches < 0 then storage_exit 1 s text
        else storage_exit 0 s (text @ (if matches = 0 then ''No matching devices found'' @ nl else [])))"

text \<open>\<open>run\<close> is the number of times \<open>keep_running\<close> is read as set before a signal arrives.\<close>

definition storage_main ::
    "storage_host \<Rightarrow> 'w libusb \<Rightarrow> string list \<Rightarrow> nat option \<Rightarrow> 'w usb \<Rightarrow> 'w storage_run option" where
  "storage_main host L args run s =
     (case storage_options (h_strtod host) args of
        Parse_Help \<Rightarrow> Some (storage_exit 0 s [])
      | Parse_Failed \<Rightarrow> Some (storage_exit 2 s [])
      | Parsed options \<Rightarrow>
          if po_list_devices options then Some (storage_list L options s)
          else case po_send_hex options of
            None \<Rightarrow> storage_session host L options None run s
          | Some hex \<Rightarrow>
              (case send_data hex of
                 None \<Rightarrow> Some (storage_exit 2 s [])
               | Some send \<Rightarrow> storage_session host L options (Some send) run s))"

section \<open>Facts\<close>

text \<open>Whether the plot succeeds.\<close>

definition plotted :: "storage_host \<Rightarrow> ProgramOptions \<Rightarrow> string \<Rightarrow> bool" where
  "plotted host options path \<longleftrightarrow>
     (case h_plot host of
        Some plot \<Rightarrow> fst (plot (Some path) (po_plot_output options) (po_plot_period_ms options)) = 0
      | None \<Rightarrow> False)"

lemma plot_step_code:
  "fst (plot_step host options path output_closed stats code) =
     (if po_plot_after_capture options \<and> output_closed \<and> 0 < records stats \<and> \<not> plotted host options path then 1 else code)"
  by (auto simp: plot_step_def plotted_def split: option.splits prod.splits)

text \<open>What the accepted options satisfy.\<close>

lemma parse_unsigned_le: "parse_unsigned text maximum = Some n \<Longrightarrow> n \<le> maximum"
  by (auto simp: parse_unsigned_def split: if_splits prod.splits)

lemma parse_device_range:
  "parse_device text = Some (bus, address) \<Longrightarrow> 0 \<le> bus \<and> bus \<le> 255 \<and> 0 \<le> address \<and> address \<le> 255"
  by (auto simp: parse_device_def Let_def split: if_splits prod.splits)

definition options_in_range :: "ProgramOptions \<Rightarrow> bool" where
  "options_in_range options \<longleftrightarrow> po_max_payload options \<le> 65535 \<and>
     0 \<le> interface_number (po_usb options) \<and>
     (bus_number (po_usb options) = -1 \<and> device_address (po_usb options) = -1 \<or>
      0 \<le> bus_number (po_usb options) \<and> bus_number (po_usb options) \<le> 255 \<and>
      0 \<le> device_address (po_usb options) \<and> device_address (po_usb options) \<le> 255) \<and>
     double_gt (po_plot_period_ms options) 0 \<and> \<not> double_gt (po_plot_period_ms options) 1000000000"

lemma options_in_range_upd [simp]:
  "options_in_range (o'\<lparr>po_list_devices := b\<rparr>) = options_in_range o'"
  "options_in_range (o'\<lparr>po_send_only := b\<rparr>) = options_in_range o'"
  "options_in_range (o'\<lparr>po_print_records := b\<rparr>) = options_in_range o'"
  "options_in_range (o'\<lparr>po_print_payload := b\<rparr>) = options_in_range o'"
  "options_in_range (o'\<lparr>po_print_stats := b\<rparr>) = options_in_range o'"
  "options_in_range (o'\<lparr>po_plot_after_capture := b\<rparr>) = options_in_range o'"
  "options_in_range (o'\<lparr>po_plot_output := t\<rparr>) = options_in_range o'"
  "options_in_range (o'\<lparr>po_output_path := t\<rparr>) = options_in_range o'"
  "options_in_range (o'\<lparr>po_send_hex := t\<rparr>) = options_in_range o'"
  "options_in_range (o'\<lparr>po_max_records := m\<rparr>) = options_in_range o'"
  "options_in_range (o'\<lparr>po_usb := (po_usb o')\<lparr>vendor_id := v\<rparr>\<rparr>) = options_in_range o'"
  "options_in_range (o'\<lparr>po_usb := (po_usb o')\<lparr>product_id := v\<rparr>\<rparr>) = options_in_range o'"
  "options_in_range (o'\<lparr>po_usb := (po_usb o')\<lparr>endpoint_in := e\<rparr>\<rparr>) = options_in_range o'"
  "options_in_range (o'\<lparr>po_usb := (po_usb o')\<lparr>endpoint_out := e\<rparr>\<rparr>) = options_in_range o'"
  "options_in_range (o'\<lparr>po_usb := (po_usb o')\<lparr>timeout_ms := ms\<rparr>\<rparr>) = options_in_range o'"
  by (simp_all add: options_in_range_def)

lemma options_in_range_values:
  "options_in_range o' \<Longrightarrow> n \<le> 65535 \<Longrightarrow> options_in_range (o'\<lparr>po_max_payload := n\<rparr>)"
  "options_in_range o' \<Longrightarrow> options_in_range (o'\<lparr>po_usb := (po_usb o')\<lparr>interface_number := int n\<rparr>\<rparr>)"
  "options_in_range o' \<Longrightarrow> parse_device v = Some (bus, address) \<Longrightarrow>
     options_in_range (o'\<lparr>po_usb := (po_usb o')\<lparr>bus_number := bus, device_address := address\<rparr>\<rparr>)"
  "options_in_range o' \<Longrightarrow> parse_positive_double strtod v = Some d \<Longrightarrow> options_in_range (o'\<lparr>po_plot_period_ms := d\<rparr>)"
  by (auto simp: options_in_range_def parse_positive_double_def split: prod.splits if_splits dest: parse_device_range)

lemma flag_option_range: "flag_option a options = Some o' \<Longrightarrow> options_in_range options \<Longrightarrow> options_in_range o'"
  unfolding flag_option_def by (auto split: if_split_asm)

lemma text_option_range:
  assumes "text_option strtod a v options = Some (Some o')" "options_in_range options"
  shows "options_in_range o'"
proof (cases "a = ''--device''")
  case True
  with assms(1) obtain bus address where "parse_device v = Some (bus, address)"
    "o' = options\<lparr>po_usb := (po_usb options)\<lparr>bus_number := bus, device_address := address\<rparr>\<rparr>"
    by (auto simp: text_option_def)
  then show ?thesis using options_in_range_values(3) [OF assms(2)] by simp
next
  case False
  show ?thesis
  proof (cases "a = ''--plot-period-ms''")
    case True
    with assms show ?thesis by (auto simp: text_option_def intro: options_in_range_values(4))
  next
    case no_period: False
    show ?thesis using assms unfolding text_option_def
      by (simp only: if_False False no_period option.inject option.distinct split: if_split_asm)
        (use options_in_range_upd in metis)+
  qed
qed

lemma number_option_range:
  assumes "number_option a v options = Some (Some o')" "options_in_range options"
  shows "options_in_range o'"
proof -
  consider (payload) "a = ''--max-payload''" | (interface) "a = ''--interface''"
    | (other) "a \<noteq> ''--max-payload''" "a \<noteq> ''--interface''" by blast
  then show ?thesis
  proof cases
    case payload
    with assms(1) obtain n where "parse_unsigned v 0xFFFF = Some n" "o' = options\<lparr>po_max_payload := n\<rparr>"
      by (auto simp: number_option_def)
    then show ?thesis using options_in_range_values(1) [OF assms(2)] parse_unsigned_le by force
  next
    case interface
    with assms(1) obtain n where "o' = options\<lparr>po_usb := (po_usb options)\<lparr>interface_number := int n\<rparr>\<rparr>"
      by (auto simp: number_option_def)
    then show ?thesis using options_in_range_values(2) [OF assms(2)] by simp
  next
    case other
    with assms show ?thesis by (auto simp: number_option_def Let_def split: if_split_asm)
  qed
qed

lemma storage_option_range:
  "storage_option strtod a rest options = Some (o', r) \<Longrightarrow> options_in_range options \<Longrightarrow> options_in_range o'"
  by (auto simp: storage_option_def require_value_def bind_eq_Some_conv split: option.splits list.splits
      dest: flag_option_range text_option_range number_option_range)

lemma storage_parse_accepts:
  "storage_parse strtod args options = Parsed o' \<Longrightarrow> options_in_range options \<Longrightarrow>
     options_in_range o' \<and> storage_check o'"
  by (induction strtod args options rule: storage_parse.induct)
     (auto split: if_splits option.splits dest: storage_option_range)

lemma storage_options_accepted:
  "storage_options strtod args = Parsed options \<Longrightarrow> options_in_range options \<and> storage_check options"
  unfolding storage_options_def
  by (erule storage_parse_accepts)
     (simp add: options_in_range_def storage_defaults_def SNIFFER_DEFAULT_MAX_PAYLOAD_def DEFAULT_PLOT_PERIOD_MS_def)

lemma capture_options_ok:
  "storage_options strtod args = Parsed options \<Longrightarrow> capture_options_valid (capture_options options)"
  by (drule storage_options_accepted) (auto simp: capture_options_valid_def capture_options_def options_in_range_def storage_check_def)

lemma staged_simps [simp]:
  "t_read (staged L) = Some (buffered_read (usb_read L))"
  "t_write (staged L) = Some (buffered_write (Some (usb_write L)))"
  by (simp_all add: sniffer_buffered_transport_adapter_def libusb_transport_adapter_def)

lemma storage_send_kept:
  "storage_send (staged L) data b run = Some (ok, text, c, run') \<Longrightarrow> session_kept t h (bf_context b) \<Longrightarrow>
     session_kept t h (bf_context c)"
  by (auto simp: storage_send_def bind_eq_Some_conv split: if_splits dest: staged_writer.write_all_kept)

lemma storage_capture_cases:
  assumes "storage_capture host transport options c run = Some (code, text, file, c')"
  obtains (failed) "code = 1" "file = None" "c' = c"
  | (captured) path f status s' where "h_fopen host path = Some f"
      "sniffer_capture (h_malloc host) transport (capture_options options)
         \<lparr>cs_context = c, cs_running = run, cs_stats = zero_stats, cs_output = f,
          cs_printed = ''Saving raw sniffer data to '' @ path @ nl\<rparr> = Some (status, s')"
      "code = (if status = 0 \<and> h_fclose host \<and>
         \<not> (po_plot_after_capture options \<and> 0 < records (cs_stats s') \<and> \<not> plotted host options path) then 0 else 1)"
      "(case po_output_path options of Some path \<Rightarrow> Some path | None \<Rightarrow> generate_filename host) = Some path"
      "c' = cs_context s'"
      "file = Some (cs_output s', if h_fclose host then cs_stats s'
         else (cs_stats s')\<lparr>file_write_failures := file_write_failures (cs_stats s') + 1\<rparr>)"
  using assms
  by (cases "case po_output_path options of Some path \<Rightarrow> Some path | None \<Rightarrow> generate_filename host")
     (auto simp: storage_capture_def bind_eq_Some_conv Let_def case_prod_beta plot_step_code split: option.splits if_splits)

lemma storage_capture_kept:
  assumes "storage_capture host (staged L) options c run = Some (code, text, file, c')"
    and "session_kept t h (bf_context c)"
  shows "session_kept t h (bf_context c') \<and> (code = 0 \<or> code = 1)"
proof (cases rule: storage_capture_cases [OF assms(1), case_names failed captured])
  case (captured path f status s')
  from staged_reader.sniffer_capture_kept [OF captured(2) staged_simps(1)] assms(2) captured(3,5)
  show ?thesis by simp
qed (use assms(2) in simp)

text \<open>
  A session: either nothing was opened, or the transfers ran between an open and a close. The
  staging array is that of the program, so its transport is set up always.
\<close>

definition staging_of ::
    "storage_host \<Rightarrow> LibusbTransport \<times> 'w usb \<Rightarrow> (LibusbTransport \<times> 'w usb) SnifferBufferedTransport" where
  "staging_of host c = \<lparr>bf_context = c, bf_buffer = h_staging host, bf_capacity = RECEIVE_STAGING_SIZE,
     bf_offset = 0, bf_length = 0, bf_pending_status = SNIFFER_IO_DATA\<rparr>"

lemma staging_init [simp]:
  "sniffer_buffered_transport_init (libusb_transport_adapter L) c (h_staging host) RECEIVE_STAGING_SIZE =
     Some (staging_of host c)"
  by (simp add: sniffer_buffered_transport_init_def libusb_transport_adapter_def RECEIVE_STAGING_SIZE_def
      staging_of_def)

lemma send_step_kept:
  "send_step L send t b run = Some (ok, text, c, run') \<Longrightarrow> session_kept t h (bf_context b) \<Longrightarrow>
     session_kept t h (bf_context c)"
  by (auto simp: send_step_def bind_eq_Some_conv split: option.splits dest: storage_send_kept)

lemma capture_step_kept:
  "capture_step host L options ok c run = Some (code, said, saved, c') \<Longrightarrow> session_kept t h (bf_context c) \<Longrightarrow>
     session_kept t h (bf_context c') \<and> (code = 0 \<or> code = 1)"
  by (auto simp: capture_step_def split: if_splits dest: storage_capture_kept)

lemma storage_session_eq:
  "storage_session host L options send run s =
     (case libusb_transport_open L (po_usb options) (\<not> po_send_only options) (send \<noteq> None) s of (r, t, s) \<Rightarrow>
        if r \<noteq> 0 then Some (storage_exit 1 s [])
        else do {
          (ok, said, c, run) \<leftarrow> send_step L send t (staging_of host (t, s)) run;
          (code, said', saved, c) \<leftarrow> capture_step host L options ok c run;
          Some \<lparr>sr_code = code, sr_usb = snd (libusb_transport_close (fst (bf_context c)) (snd (bf_context c))),
            sr_stdout = said @ said', sr_file = saved\<rparr>
        })"
  unfolding storage_session_def staging_init option.case by (simp add: case_prod_beta)

lemma session_cases:
  assumes "storage_session host L options send run s = Some r"
    and "libusb_transport_open L (po_usb options) (\<not> po_send_only options) (send \<noteq> None) s = (code, t, s1)"
  obtains (closed) "code \<noteq> 0" "r = storage_exit 1 s1 []"
  | (ran) ok said c run' exit_code said' saved c' where "code = 0"
      "send_step L send t (staging_of host (t, s1)) run = Some (ok, said, c, run')"
      "capture_step host L options ok c run' = Some (exit_code, said', saved, c')"
      "r = \<lparr>sr_code = exit_code, sr_usb = snd (libusb_transport_close (fst (bf_context c')) (snd (bf_context c'))),
         sr_stdout = said @ said', sr_file = saved\<rparr>"
  using assms(1) unfolding storage_session_eq assms(2) prod.case
  by (cases "code = 0") (auto simp: bind_eq_Some_conv)

lemma session_held:
  assumes "storage_session host L options send run s = Some r"
  shows "(sr_code r = 0 \<or> sr_code r = 1) \<and> held (us_calls (sr_usb r)) = held (us_calls s)"
proof -
  obtain code t s1 where o: "libusb_transport_open L (po_usb options) (\<not> po_send_only options) (send \<noteq> None) s = (code, t, s1)"
    by (metis prod_cases3)
  have opened: "code \<noteq> 0 \<and> held (us_calls s1) = held (us_calls s) \<or>
      code = 0 \<and> held (us_calls s1) = balance_add (held (us_calls s)) (transport_holds t)"
    by (cases rule: open_outcome [OF o, case_names failed opened]) (simp_all add: transport_holds_def)
  show ?thesis
  proof (cases rule: session_cases [OF assms o, case_names closed ran])
    case closed
    then show ?thesis using opened by (auto simp: storage_exit_def)
  next
    case (ran ok said c run' exit_code said' saved c')
    let ?h = "held (us_calls s1)"
    have "session_kept t ?h (bf_context c)"
      by (rule send_step_kept [OF ran(2)]) (simp add: staging_of_def session_kept_def)
    then have kept: "session_kept t ?h (bf_context c') \<and> (exit_code = 0 \<or> exit_code = 1)"
      by (rule capture_step_kept [OF ran(3)])
    obtain t' s' where cl: "libusb_transport_close (fst (bf_context c')) (snd (bf_context c')) = (t', s')"
      by (cases "libusb_transport_close (fst (bf_context c')) (snd (bf_context c'))")
    have "held (us_calls s') = held (us_calls s)"
      by (rule close_failure(2) [OF cl]) (use kept opened ran(1) in \<open>simp add: session_kept_def\<close>)
    then show ?thesis using kept ran(4) cl by simp
  qed
qed

text \<open>A signal makes every session return.\<close>

lemma write_all_flag:
  assumes "sniffer_transport_write_all transport data max_timeouts c (Some k) ts = Some (status, rest, n, c', run, ts')"
  shows "\<exists>k. run = Some k"
proof (cases "t_write transport")
  case None
  then show ?thesis using assms by (auto simp: sniffer_transport_write_all_def)
next
  case (Some wr)
  let ?I = "\<lambda>(rest, n, c, run, ts). \<exists>k. run = Some k"
  have "c_loop (\<lambda>x. Some (write_all_body wr max_timeouts x)) (data, 0, c, Some k, ts) = Some (status, rest, n, c', run, ts')"
    using assms Some by (simp add: sniffer_transport_write_all_def)
  then have "(\<lambda>(status, x). ?I x) (status, rest, n, c', run, ts')"
  proof (rule c_loop_partial [where I = ?I])
    fix x x' assume "?I x" "Some (write_all_body wr max_timeouts x) = Some (Inr x')"
    then show "?I x'"
      by (cases x) (auto simp: write_all_body_def Let_def elim!: is_running.elims
          split: if_splits prod.splits SnifferIoStatus.splits)
  next
    fix x r assume "?I x" "Some (write_all_body wr max_timeouts x) = Some (Inl r)"
    then show "(\<lambda>(status, x). ?I x) r"
      by (cases x) (auto simp: write_all_body_def Let_def elim!: is_running.elims
          split: if_splits prod.splits SnifferIoStatus.splits)
  qed simp
  then show ?thesis by simp
qed

lemma storage_send_returns:
  "\<exists>ok said c' k'. storage_send (staged L) data c (Some k) = Some (ok, said, c', Some k')"
proof -
  obtain status rest n c' run ts where w: "sniffer_transport_write_all (staged L) data WRITE_TIMEOUT_LIMIT c (Some k) (Some 0) =
      Some (status, rest, n, c', run, ts)"
    using write_all_returns [of "Some k" k "buffered_write (Some (usb_write L))" WRITE_TIMEOUT_LIMIT data 0 c "Some 0"]
    by (auto simp: sniffer_transport_write_all_def)
  then obtain k' where "run = Some k'" using write_all_flag [OF w] by blast
  with w show ?thesis by (cases "status = 0") (auto simp: storage_send_def)
qed

lemma storage_capture_returns: "\<exists>r. storage_capture host (staged L) options c (Some k) = Some r"
proof (cases "case po_output_path options of Some path \<Rightarrow> Some path | None \<Rightarrow> generate_filename host")
  case None
  then show ?thesis by (simp add: storage_capture_def)
next
  case (Some path)
  show ?thesis
  proof (cases "h_fopen host path")
    case created: (Some f)
    let ?s = "\<lparr>cs_context = c, cs_running = Some k, cs_stats = zero_stats, cs_output = f,
      cs_printed = ''Saving raw sniffer data to '' @ path @ nl\<rparr>"
    have "run_le k ?s" by (simp add: run_le_def)
    from capture_loop_returns [OF this, of "buffered_read (usb_read L)" "capture_options options" 0]
    obtain status s' where "sniffer_capture (h_malloc host) (staged L) (capture_options options) ?s = Some (status, s')"
      by (cases "h_malloc host"; cases "capture_options_valid (capture_options options)")
         (auto simp: sniffer_capture_def)
    then show ?thesis using Some created by (simp add: storage_capture_def Let_def case_prod_beta)
  qed (use Some in \<open>simp add: storage_capture_def\<close>)
qed

lemma session_returns: "\<exists>r. storage_session host L options send (Some k) s = Some r"
proof -
  obtain code t s1 where o: "libusb_transport_open L (po_usb options) (\<not> po_send_only options) (send \<noteq> None) s = (code, t, s1)"
    by (metis prod_cases3)
  let ?b = "staging_of host (t, s1)"
  obtain ok said c k' where 1: "send_step L send t ?b (Some k) = Some (ok, said, c, Some k')"
  proof (cases send)
    case (Some p)
    obtain ok after c k' where "storage_send (staged L) (fst p) ?b (Some k) = Some (ok, after, c, Some k')"
      using storage_send_returns [of L "fst p" ?b k] by blast
    then show thesis using that [of ok _ c k'] by (simp add: Some send_step_def case_prod_beta)
  qed (use that in \<open>simp add: send_step_def\<close>)
  have "\<exists>r. capture_step host L options ok c (Some k') = Some r"
    using storage_capture_returns [of host L options c k'] by (simp add: capture_step_def)
  then obtain r where 2: "capture_step host L options ok c (Some k') = Some r" by blast
  show ?thesis unfolding storage_session_eq o prod.case by (cases r) (simp add: 1 2)
qed

text \<open>The capture of a session over a device that sends a stream of bytes.\<close>

definition record_limit :: "ProgramOptions \<Rightarrow> nat option" where
  "record_limit options = (if po_max_records options = 0 then None else Some (unat (po_max_records options)))"

lemma staging_stream:
  assumes "bulk_in_stream L ep timeout sends good mtu fuel" "mtu \<le> RECEIVE_STAGING_SIZE"
  shows "byte_stream (buffered_read (usb_read L)) (buffered_pending (\<lambda>(t, s). sends (us_world s)))
    (buffered_wf (transport_on ep timeout good) mtu) (buffered_fuel (\<lambda>(t, s). fuel (us_world s))) SNIFFER_IO_ERROR"
  by (rule packet_stream.buffered_stream, rule usb_packet_stream [OF assms(1)])
     (use assms(2) in \<open>simp add: RECEIVE_STAGING_SIZE_def INT_MAX_def\<close>)

lemma staging_start:
  assumes "transport_on ep timeout good (t, s)" "mtu \<le> RECEIVE_STAGING_SIZE"
    and "length (h_staging host) = RECEIVE_STAGING_SIZE"
  shows "buffered_wf (transport_on ep timeout good) mtu (staging_of host (t, s))"
    and "buffered_pending (\<lambda>(t, s). sends (us_world s)) (staging_of host (t, s)) = sends (us_world s)"
  using assms by (simp_all add: buffered_defs staging_of_def RECEIVE_STAGING_SIZE_def)

lemma storage_capture_stream:
  assumes "bulk_in_stream L ep timeout sends good mtu fuel" "mtu \<le> RECEIVE_STAGING_SIZE"
    and "length (h_staging host) = RECEIVE_STAGING_SIZE" "transport_on ep timeout good (t, s)"
    and "h_malloc host" "po_output_path options = Some path" "h_fopen host path = Some f" "accepts_all f"
    and "capture_options_valid (capture_options options)"
    and "xs = parse (po_max_payload options) (record_limit options) (sends (us_world s))"
  obtains code said f' stats c where
    "storage_capture host (staged L) options (staging_of host (t, s)) None = Some (code, said, Some (f', stats), c)"
    "fl_data f' = fl_data f @ concat (parse_records xs)"
    "records stats = of_nat (length (parse_records xs))"
    "code = (if record_limit options = Some (length (parse_records xs)) \<and> h_fclose host \<and>
       \<not> (po_plot_after_capture options \<and> 0 < records stats \<and> \<not> plotted host options path) then 0 else 1)"
proof -
  let ?S = "\<lparr>cs_context = staging_of host (t, s), cs_running = None, cs_stats = zero_stats, cs_output = f,
    cs_printed = ''Saving raw sniffer data to '' @ path @ nl\<rparr>"
  have limit: "limit_of (capture_options options) ?S = record_limit options"
    by (simp add: limit_of_def record_limit_def capture_options_def zero_stats_def)
  have payload: "max_payload (capture_options options) = po_max_payload options" by (simp add: capture_options_def)
  note run = byte_stream.sniffer_capture_stream [OF staging_stream [OF assms(1,2)], where transport = "staged L" and
      opts = "capture_options options" and s = ?S and xs = xs, OF staged_simps(1) assms(9)]
  obtain status S' where c: "sniffer_capture True (staged L) (capture_options options) ?S = Some (status, S')"
    "status = (if record_limit options = Some (length (parse_records xs)) then 0 else -1)"
    "cs_output S' = cs_output (leave (capture_options options) 0 xs ?S)"
    "records (cs_stats S') = records (cs_stats (leave (capture_options options) 0 xs ?S))"
    by (rule run)
       (use staging_start [OF assms(4,2,3)] assms(8,10) limit payload in
         \<open>auto simp: moved_def end_status_def\<close>)
  have counted: "records (parse_stats xs st) = records st + of_nat (length (parse_records xs))" for st
    by (induction xs arbitrary: st rule: parse_records.induct) (simp_all add: parse_stats_def)
  have "fl_data (cs_output S') = fl_data f @ concat (parse_records xs)"
    by (simp add: c(3) parse_stored_records)
  moreover have "records (cs_stats S') = of_nat (length (parse_records xs))"
    by (simp add: c(4) counted zero_stats_def)
  ultimately show thesis
    using that assms(5-7) c(1,2) by (auto simp: storage_capture_def Let_def case_prod_beta plot_step_code)
qed

text \<open>What a send hands to the device.\<close>

lemma storage_send_taken:
  assumes "\<forall>ep timeout. bulk_out_sink L ep timeout taken"
    and "storage_send (staged L) data b run = Some (ok, said, c, run')"
  shows "\<exists>k \<le> length data. taken (us_world (snd (bf_context c))) = taken (us_world (snd (bf_context b))) @ take k data \<and>
    (ok \<longrightarrow> k = length data)"
proof -
  from assms(2) obtain status rest n ts where w: "sniffer_transport_write_all (staged L) data WRITE_TIMEOUT_LIMIT b run (Some 0) =
      Some (status, rest, n, c, run', ts)" "ok \<longleftrightarrow> status = 0"
    by (auto simp: storage_send_def bind_eq_Some_conv split: if_splits)
  note sink = byte_sink.buffered_sink [OF usb_sink [OF assms(1)]]
  from byte_sink.write_all_inv [OF sink staged_simps(2) w(1)]
  have "send_inv (\<lambda>b. case bf_context b of (t, s) \<Rightarrow> taken (us_world s)) data b (Some 0) (rest, n, c, run', ts)"
    "status = 0 \<Longrightarrow> rest = []" by auto
  then obtain k where "k \<le> length data" "rest = drop k data"
    "taken (us_world (snd (bf_context c))) = taken (us_world (snd (bf_context b))) @ take k data"
    by (auto simp: send_inv_def sent_def case_prod_beta)
  then show ?thesis using w(2) \<open>status = 0 \<Longrightarrow> rest = []\<close> by (intro exI [of _ k]) auto
qed

lemma close_world: "us_world (snd (libusb_transport_close t s)) = us_world s"
  by (simp add: libusb_transport_close_def Let_def usb_release_def usb_close_def usb_exit_def)

text \<open>A file in the result of a run is that of its capture.\<close>

lemma storage_main_captured:
  assumes "storage_main host L args run s = Some r" "storage_options (h_strtod host) args = Parsed options"
    and "sr_file r = Some file"
  obtains c k said c' where "storage_capture host (staged L) options c k = Some (sr_code r, said, Some file, c')"
proof -
  obtain send where sess: "storage_session host L options send run s = Some r"
    using assms by (auto simp: storage_main_def storage_list_def storage_exit_def split: if_splits option.splits prod.splits)
  obtain e t s1 where o: "libusb_transport_open L (po_usb options) (\<not> po_send_only options) (send \<noteq> None) s = (e, t, s1)"
    by (metis prod_cases3)
  show thesis
  proof (cases rule: session_cases [OF sess o, case_names closed ran])
    case closed
    then show thesis using assms(3) by (simp add: storage_exit_def)
  next
    case (ran ok said c run' exit_code said' saved c')
    then show thesis using assms(3) that [of c run' said' c'] by (auto simp: capture_step_def split: if_splits)
  qed
qed

text \<open>The session of a capture without a send over such a device, once it is opened.\<close>

lemma storage_session_stream:
  assumes "storage_options (h_strtod host) args = Parsed options" "\<not> po_send_only options" "po_output_path options = Some path"
    and "h_fopen host path = Some f" "accepts_all f" "h_malloc host" "length (h_staging host) = RECEIVE_STAGING_SIZE"
    and "libusb_transport_open L (po_usb options) True False s = (0, t, s1)"
    and "bulk_in_stream L (endpoint_in (lt_options t)) (unat (timeout_ms (lt_options t))) sends good mtu fuel"
    and "mtu \<le> RECEIVE_STAGING_SIZE" "good (us_world s1)"
    and "xs = parse (po_max_payload options) (record_limit options) (sends (us_world s1))"
  obtains r f' stats where "storage_session host L options None None s = Some r" "sr_file r = Some (f', stats)"
    "fl_data f' = fl_data f @ concat (parse_records xs)" "records stats = of_nat (length (parse_records xs))"
    "sr_code r = (if record_limit options = Some (length (parse_records xs)) \<and> h_fclose host \<and>
       \<not> (po_plot_after_capture options \<and> 0 < records stats \<and> \<not> plotted host options path) then 0 else 1)"
proof -
  have on: "transport_on (endpoint_in (lt_options t)) (unat (timeout_ms (lt_options t))) good (t, s1)"
    using assms(11) by (simp add: transport_on_def)
  obtain code said f' stats c where cap:
    "storage_capture host (staged L) options (staging_of host (t, s1)) None = Some (code, said, Some (f', stats), c)"
    and facts: "fl_data f' = fl_data f @ concat (parse_records xs)" "records stats = of_nat (length (parse_records xs))"
      "code = (if record_limit options = Some (length (parse_records xs)) \<and> h_fclose host \<and>
         \<not> (po_plot_after_capture options \<and> 0 < records stats \<and> \<not> plotted host options path) then 0 else 1)"
    by (rule storage_capture_stream [OF assms(9,10,7) on assms(6,3-5) capture_options_ok [OF assms(1)] assms(12)])
  have "\<exists>r. storage_session host L options None None s = Some r \<and> sr_code r = code \<and> sr_file r = Some (f', stats)"
    using cap assms(2,8) by (simp add: storage_session_eq send_step_def capture_step_def)
  then show thesis using that facts by metis
qed

section \<open>Properties\<close>

text \<open>
  C25. Whatever the arguments, the USB library, the files and the signals do, a run that returns has
  exit code 0, 1 or 2 and has released every context, device list, handle and interface that it
  acquired; with exit code 2 it has made no call to the USB library at all.
\<close>
theorem storage_main_releases:
  assumes "storage_main host L args run s = Some r"
  shows "sr_code r \<in> {0, 1, 2} \<and> held (us_calls (sr_usb r)) = held (us_calls s) \<and>
    (sr_code r = 2 \<longrightarrow> sr_usb r = s)"
proof (cases "storage_options (h_strtod host) args")
  case (Parsed options)
  consider (list) "po_list_devices options" | (plain) "\<not> po_list_devices options" "po_send_hex options = None"
    | (refused) hex where "\<not> po_list_devices options" "po_send_hex options = Some hex" "send_data hex = None"
    | (sends) hex send where "\<not> po_list_devices options" "po_send_hex options = Some hex" "send_data hex = Some send"
    by (cases "po_send_hex options") blast+
  then show ?thesis
  proof cases
    case list
    obtain n said s' where l: "libusb_transport_list L (po_usb options) s = (n, said, s')" by (metis prod_cases3)
    then show ?thesis using assms Parsed list list_held [OF l]
      by (auto simp: storage_main_def storage_list_def storage_exit_def split: if_splits)
  next
    case plain
    then show ?thesis using assms Parsed by (auto simp: storage_main_def dest: session_held)
  next
    case refused
    then show ?thesis using assms Parsed by (auto simp: storage_main_def storage_exit_def)
  next
    case sends
    then show ?thesis using assms Parsed by (auto simp: storage_main_def dest: session_held)
  qed
qed (use assms in \<open>auto simp: storage_main_def storage_exit_def\<close>)

text \<open>
  C28. A signal ends the program: once the flag is cleared, after any number of polls, in the send
  or in the capture, the program returns, whatever the device does.
\<close>
theorem storage_main_returns:
  "\<exists>r. storage_main host L args (Some k) s = Some r"
proof (cases "storage_options (h_strtod host) args")
  case (Parsed options)
  show ?thesis
  proof (cases "po_send_hex options")
    case None
    then show ?thesis using Parsed session_returns [of host L options None k s] by (simp add: storage_main_def)
  next
    case (Some hex)
    then show ?thesis using Parsed session_returns [of host L options "send_data hex" k s]
      by (cases "send_data hex") (simp_all add: storage_main_def)
  qed
qed (simp_all add: storage_main_def)

text \<open>
  C29. Options that the program accepts are ones the capture accepts: the payload limit is between
  1 and 65535, payloads are printed with their records only; the timeout is not zero, the endpoints
  have the direction their transfers need, a send has its data and names the bus and the address
  of its device, and both fit their 8 bits; the plotting period is a positive number of at most 10 ^ 9.
\<close>
theorem storage_options_valid:
  assumes "storage_options strtod args = Parsed options"
  shows "capture_options_valid (capture_options options) \<and> timeout_ms (po_usb options) \<noteq> 0 \<and>
    bit (endpoint_in (po_usb options)) 7 \<and> \<not> bit (endpoint_out (po_usb options)) 7 \<and>
    (po_send_only options \<longrightarrow> po_send_hex options \<noteq> None) \<and>
    (po_send_hex options \<noteq> None \<longrightarrow> bus_number (po_usb options) \<in> {0..255} \<and> device_address (po_usb options) \<in> {0..255}) \<and>
    double_gt (po_plot_period_ms options) 0 \<and> \<not> double_gt (po_plot_period_ms options) 1000000000"
proof -
  note ok = storage_options_accepted [OF assms, unfolded options_in_range_def storage_check_def]
  have "bit (endpoint_in (po_usb options)) 7" "\<not> bit (endpoint_out (po_usb options)) 7"
    using ok by (simp_all add: endpoint_direction split: if_splits)
  then show ?thesis using ok capture_options_ok [OF assms] by auto
qed

text \<open>
  C1. The whole capture, from the endpoint to the file: over a device that sends a stream of bytes
  and that is opened, the program writes to the named file exactly the records that the
  specification finds in those bytes, however the device cuts them into packets; the number of
  records is counted; and the exit code is 0 when the record limit was reached, the file closed
  and a plot that was asked for succeeded, and 1 otherwise, because a capture without a limit ends with the loss
  of the device.
\<close>
theorem storage_captures_stream:
  assumes "storage_options (h_strtod host) args = Parsed options" "\<not> po_list_devices options"
    and "po_send_hex options = None" "po_output_path options = Some path"
    and "h_fopen host path = Some f" "accepts_all f" "h_malloc host" "length (h_staging host) = RECEIVE_STAGING_SIZE"
    and "libusb_transport_open L (po_usb options) True False s = (0, t, s1)"
    and "bulk_in_stream L (endpoint_in (lt_options t)) (unat (timeout_ms (lt_options t))) sends good mtu fuel"
    and "mtu \<le> RECEIVE_STAGING_SIZE" "good (us_world s1)"
    and "xs = parse (po_max_payload options) (record_limit options) (sends (us_world s1))"
  shows "\<exists>r f' stats. storage_main host L args None s = Some r \<and> sr_file r = Some (f', stats) \<and>
    fl_data f' = fl_data f @ concat (parse_records xs) \<and> records stats = of_nat (length (parse_records xs)) \<and>
    sr_code r = (if record_limit options = Some (length (parse_records xs)) \<and> h_fclose host \<and>
      \<not> (po_plot_after_capture options \<and> 0 < records stats \<and> \<not> plotted host options path) then 0 else 1)"
proof -
  have only: "\<not> po_send_only options"
    using storage_options_accepted [OF assms(1)] assms(3) by (simp add: storage_check_def)
  obtain r f' stats where r: "storage_session host L options None None s = Some r" "sr_file r = Some (f', stats)"
    "fl_data f' = fl_data f @ concat (parse_records xs)" "records stats = of_nat (length (parse_records xs))"
    "sr_code r = (if record_limit options = Some (length (parse_records xs)) \<and> h_fclose host \<and>
       \<not> (po_plot_after_capture options \<and> 0 < records stats \<and> \<not> plotted host options path) then 0 else 1)"
    by (rule storage_session_stream [OF assms(1) only assms(4-13)])
  have "storage_main host L args None s = Some r" using r(1) assms(1-3) by (simp add: storage_main_def)
  then show ?thesis using r(2-5) by (intro exI [of _ r] exI [of _ f'] exI [of _ stats]) simp
qed

text \<open>
  C14. In the build for macOS a run that is asked for a plot, whose file holds a record and that exits
  with 0 has closed its file and then had it plotted: the Python beside the analyzer script was
  started on the path of that file, with the directory and the period of the options, and it exited
  with 0. A failed plot is not passed over.
\<close>
theorem storage_plots_capture:
  assumes "storage_options (h_strtod host) args = Parsed options" "po_plot_after_capture options"
    and "h_plot host = Some (sniffer_plot_macos_run os)"
    and "storage_main host L args run s = Some r" "sr_code r = 0" "sr_file r = Some (f, stats)" "0 < records stats"
  shows "\<exists>path. (case po_output_path options of Some path \<Rightarrow> Some path | None \<Rightarrow> generate_filename host) = Some path \<and>
    h_fclose host \<and> analyzed os path (po_plot_output options) (po_plot_period_ms options)"
proof -
  obtain c k said c' where "storage_capture host (staged L) options c k = Some (0, said, Some (f, stats), c')"
    by (rule storage_main_captured [OF assms(4,1,6)]) (simp add: assms(5))
  then show ?thesis
  proof (cases rule: storage_capture_cases [case_names failed captured])
    case (captured path f' status s')
    then have "h_fclose host" "plotted host options path" using assms(2,7) by (auto split: if_splits)
    then show ?thesis using captured(4) assms(3) by (auto simp: plotted_def plot_success)
  qed simp
qed

text \<open>
  C0. With \<open>--send-only\<close> the device that was opened is handed a prefix of the bytes that the
  hexadecimal text denotes, and all of them when the exit code is 0; no file is created.
\<close>
theorem send_only_delivers:
  assumes "storage_options (h_strtod host) args = Parsed options" "\<not> po_list_devices options"
    and "po_send_only options" "po_send_hex options = Some hex" "sniffer_parse_hex hex SEND_BUFFER_SIZE = Some data"
    and "libusb_transport_open L (po_usb options) False True s = (0, t, s1)"
    and "\<forall>ep timeout. bulk_out_sink L ep timeout taken"
    and "storage_main host L args run s = Some r"
  shows "\<exists>k \<le> length data. taken (us_world (sr_usb r)) = taken (us_world s1) @ take k data \<and>
    (sr_code r = 0 \<longrightarrow> k = length data) \<and> sr_file r = None"
proof (cases "send_data hex")
  case None
  have "length data \<le> SEND_BUFFER_SIZE" 
    using hex_scan_bounds [OF assms(5) [unfolded sniffer_parse_hex_def]] by simp
  then show ?thesis using None assms(5) by (simp add: send_data_def sniffer_format_hex_def)
next
  case (Some send)
  then have fst: "fst send = data" using assms(5) by (auto simp: send_data_def bind_eq_Some_conv)
  have run: "storage_session host L options (Some send) run s = Some r"
    using assms(1,2,4,8) Some by (simp add: storage_main_def)
  have open0: "libusb_transport_open L (po_usb options) (\<not> po_send_only options) (Some send \<noteq> None) s = (0, t, s1)"
    using assms(3,6) by simp
  show ?thesis
  proof (cases rule: session_cases [OF run open0, case_names closed ran])
    case (ran ok said c run' exit_code said' saved c')
    obtain after where sent: "storage_send (staged L) data (staging_of host (t, s1)) run = Some (ok, after, c, run')"
      using ran(2) fst by (cases send) (auto simp: send_step_def bind_eq_Some_conv)
    have end': "exit_code = (if ok then 0 else 1) \<and> saved = None \<and> c' = c"
      using ran(3) assms(3) by (auto simp: capture_step_def split: if_splits)
    from storage_send_taken [OF assms(7) sent] show ?thesis
      using ran(4) end' by (auto simp: close_world staging_of_def split: if_splits)
  qed simp
qed

text \<open>
  The number parser reads every decimal number up to its limit back, and refuses larger ones.
  It has no check for a sign: a negative number is accepted as its complement modulo \<open>2 ^ 64\<close>
  where the limit is the largest number, so \<open>--max-records -1\<close> is the limit 18446744073709551615.
\<close>
lemma storage_numbers:
  assumes "n \<le> ULONG_MAX"
  shows "parse_unsigned (fmt_u n) maximum = (if n \<le> maximum then Some n else None) \<and>
    (0 < n \<longrightarrow> parse_unsigned (''-'' @ fmt_u n) ULONG_MAX = Some (ULONG_MAX + 1 - n))"
proof -
  have "fmt_u n \<noteq> []" using fmt_u_first [of n] by auto
  then show ?thesis
    using assms strtoul0_fmt_u strtoul0_minus by (auto simp: parse_unsigned_def not_le)
qed

section \<open>A run on a concrete device\<close>

definition demo_host :: storage_host where
  "demo_host = \<lparr>h_strtod = (\<lambda>t. (Finite 30, False, [])), h_localtime = Some (2026, 10, 31, 8, 5, 9),
     h_fopen = (\<lambda>path. Some empty_file), h_malloc = True, h_fclose = True,
     h_staging = replicate RECEIVE_STAGING_SIZE 0, h_plot = None\<rparr>"

definition capture_args :: "string list" where
  "capture_args = [''--max-records'', ''1'', ''-o'', ''a.bin'']"

definition send_args :: "string list" where
  "send_args = [''--device'', ''20:7'', ''--send-hex'', ''AB'', ''--send-only'']"

lemma capture_args_parsed:
  "storage_options strtod capture_args =
     Parsed (storage_defaults\<lparr>po_max_records := 1, po_output_path := Some ''a.bin''\<rparr>)"
proof -
  have "strtoul0 ''1'' = (1, False, [])"
    by (simp add: strtoul0_def isspace_def scan_number_def digit_value_def ULONG_MAX_def)
  then have "parse_unsigned ''1'' ULONG_MAX = Some 1" by (simp add: parse_unsigned_def ULONG_MAX_def)
  then show ?thesis
    by (simp add: capture_args_def storage_options_def storage_option_def flag_option_def text_option_def
        number_option_def require_value_def storage_check_def storage_defaults_def SNIFFER_DEFAULT_MAX_PAYLOAD_def)
qed

lemma send_args_parsed:
  "storage_options strtod send_args =
     Parsed (storage_defaults\<lparr>po_usb := (po_usb storage_defaults)\<lparr>bus_number := 20, device_address := 7\<rparr>,
       po_send_hex := Some ''AB'', po_send_only := True\<rparr>)"
proof -
  have "strtol10 ''20:7'' = (20, False, '':7'')" "strtol10 ''7'' = (7, False, [])"
    by (simp_all add: strtol10_def isspace_def digit_value_def tolower_def LONG_MAX_def)
  then have "parse_device ''20:7'' = Some (20, 7)" by (simp add: parse_device_def)
  then show ?thesis
    by (simp add: send_args_def storage_options_def storage_option_def flag_option_def text_option_def
        number_option_def require_value_def storage_check_def storage_defaults_def SNIFFER_DEFAULT_MAX_PAYLOAD_def)
qed

lemma demo_data: "send_data ''AB'' = Some ([0xAB], ''AB'')" "sniffer_parse_hex ''AB'' SEND_BUFFER_SIZE = Some [0xAB]"
proof -
  show "sniffer_parse_hex ''AB'' SEND_BUFFER_SIZE = Some [0xAB]"
    by (simp add: sniffer_parse_hex_def hex_value_def hex_separator_def isspace_def tolower_def SEND_BUFFER_SIZE_def)
  moreover have "fmt_0X 2 171 = ''AB''" by code_simp
  ultimately show "send_data ''AB'' = Some ([0xAB], ''AB'')"
    by (simp add: send_data_def sniffer_format_hex_def SEND_BUFFER_SIZE_def)
qed

abbreviation demo_start :: "bytes list \<Rightarrow> (bytes list \<times> bytes) usb" where
  "demo_start packets \<equiv> \<lparr>us_world = (packets, []), us_calls = []\<rparr>"

lemma demo_send:
  obtains r where "storage_main demo_host sniffer_libusb send_args (Some 9) (demo_start []) = Some r"
proof -
  have "storage_main demo_host sniffer_libusb send_args (Some 9) (demo_start []) =
      storage_session demo_host sniffer_libusb (storage_defaults\<lparr>po_usb := (po_usb storage_defaults)\<lparr>bus_number := 20,
        device_address := 7\<rparr>, po_send_hex := Some ''AB'', po_send_only := True\<rparr>) (Some ([0xAB], ''AB'')) (Some 9)
        (demo_start [])"
    by (simp add: storage_main_def send_args_parsed demo_data storage_defaults_def)
  then show thesis using that session_returns by metis
qed

theorem storage_main_releases_witness:
  "\<exists>r. storage_main demo_host sniffer_libusb send_args (Some 9) (demo_start []) = Some r \<and>
     sr_code r \<in> {0, 1, 2} \<and> held (us_calls (sr_usb r)) = (0, 0, 0, 0)"
proof -
  obtain r where r: "storage_main demo_host sniffer_libusb send_args (Some 9) (demo_start []) = Some r"
    by (rule demo_send)
  from storage_main_releases [OF this] r show ?thesis by auto
qed

theorem storage_options_valid_witness:
  "bit (endpoint_in (po_usb (storage_defaults\<lparr>po_max_records := 1, po_output_path := Some ''a.bin''\<rparr>))) 7"
  using storage_options_valid [OF capture_args_parsed [of "\<lambda>t. (Finite 1, False, [])"]] by blast

lemma storage_numbers_example:
  "parse_unsigned ''-1'' ULONG_MAX = Some 18446744073709551615"
proof -
  have "fmt_u 1 = ''1''" by code_simp
  then show ?thesis using storage_numbers [of 1] by (simp add: ULONG_MAX_def)
qed

abbreviation demo_packets :: "bytes list" where
  "demo_packets \<equiv> [take 5 frame1, [], drop 5 frame1 @ take 2 frame1]"

lemma demo_opens:
  assumes "po_usb o' = po_usb storage_defaults"
  obtains t s1 where "libusb_transport_open sniffer_libusb (po_usb o') True False (demo_start demo_packets) = (0, t, s1)"
    "us_world s1 = us_world (demo_start demo_packets)"
  by (rule sniffer_opens [of "po_usb o'" True False "demo_start demo_packets"])
     (use assms in \<open>simp_all add: storage_defaults_def that\<close>)

lemma demo_parsed: "parse SNIFFER_DEFAULT_MAX_PAYLOAD (Some 1) (concat demo_packets) = [Record frame1]"
proof -
  have "complete_record 4096 frame1"
    by (simp add: complete_record_def record_payload_length_def frame1_def SNIFFER_META_SIZE_def
        magic_matches_def magic_bytes_def sniffer_decode_meta_def read_le16_def)
  from parse_record_append [OF this, of "Some 1" "take 2 frame1"] show ?thesis
    by (simp add: SNIFFER_DEFAULT_MAX_PAYLOAD_def parse.simps append_assoc [symmetric])
qed

lemma demo_facts:
  "h_malloc demo_host" "h_fclose demo_host" "h_fopen demo_host ''a.bin'' = Some empty_file"
  "length (h_staging demo_host) = RECEIVE_STAGING_SIZE" "accepts_all empty_file" "fl_data empty_file = []"
  "sniffer_good (us_world (demo_start demo_packets))"
  by (simp_all add: demo_host_def empty_file_def accepts_all_def sniffer_good_def frame1_def)

theorem storage_captures_stream_witness:
  "\<exists>r f' stats. storage_main demo_host sniffer_libusb capture_args None (demo_start demo_packets) = Some r \<and>
     sr_file r = Some (f', stats) \<and> fl_data f' = frame1 \<and> sr_code r = 0"
proof -
  let ?o = "storage_defaults\<lparr>po_max_records := 1, po_output_path := Some ''a.bin''\<rparr>"
  obtain t s1 where o: "libusb_transport_open sniffer_libusb (po_usb ?o) True False (demo_start demo_packets) = (0, t, s1)"
    and w: "us_world s1 = us_world (demo_start demo_packets)"
    by (rule demo_opens [of ?o]) simp_all
  have "parse (po_max_payload ?o) (record_limit ?o) (concat (fst (us_world s1))) = [Record frame1]"
    using demo_parsed unfolding w by (simp add: storage_defaults_def record_limit_def)
  from storage_captures_stream [OF capture_args_parsed _ _ _ demo_facts(3,5,1,4) o sniffer_stream _ _ this [symmetric]]
    demo_facts(7)
  show ?thesis unfolding w
    by (force simp: storage_defaults_def RECEIVE_STAGING_SIZE_def record_limit_def demo_facts)
qed

text \<open>The same run on a macOS with the analyzer installed, whose wait is interrupted once.\<close>

definition demo_macos :: macos where
  "demo_macos = \<lparr>os_realpath = (\<lambda>p. if p = ''analyze_sniffer_binary.py'' then Some ''/p/analyze_sniffer_binary.py'' else None),
     os_executable = (\<lambda>p. p = ''/p/.venv/bin/python''), os_spawn = (\<lambda>p a. True),
     os_waitpid = (\<lambda>a. Interrupted (Ended (Exited 0)))\<rparr>"

definition demo_plotting_host :: storage_host where
  "demo_plotting_host = demo_host\<lparr>h_plot := Some (sniffer_plot_macos_run demo_macos)\<rparr>"

definition plot_args :: "string list" where
  "plot_args = ''--plot-after-capture'' # capture_args"

lemma plot_args_parsed:
  "storage_options strtod plot_args =
     Parsed (storage_defaults\<lparr>po_plot_after_capture := True, po_max_records := 1, po_output_path := Some ''a.bin''\<rparr>)"
proof -
  have "strtoul0 ''1'' = (1, False, [])"
    by (simp add: strtoul0_def isspace_def scan_number_def digit_value_def ULONG_MAX_def)
  then have "parse_unsigned ''1'' ULONG_MAX = Some 1" by (simp add: parse_unsigned_def ULONG_MAX_def)
  then show ?thesis
    by (simp add: plot_args_def capture_args_def storage_options_def storage_option_def flag_option_def text_option_def
        number_option_def require_value_def storage_check_def storage_defaults_def SNIFFER_DEFAULT_MAX_PAYLOAD_def)
qed

theorem storage_plots_capture_witness:
  "\<exists>r. storage_main demo_plotting_host sniffer_libusb plot_args None (demo_start demo_packets) = Some r \<and>
     sr_code r = 0 \<and> analyzed demo_macos ''a.bin'' None DEFAULT_PLOT_PERIOD_MS"
proof -
  let ?o = "storage_defaults\<lparr>po_plot_after_capture := True, po_max_records := 1, po_output_path := Some ''a.bin''\<rparr>"
  have plotted: "plotted demo_plotting_host ?o ''a.bin''"
    by (simp add: plotted_def demo_plotting_host_def demo_macos_def sniffer_plot_macos_run_def locate_script_def
        build_default_output_def run_analyzer_def PATH_MAX_def storage_defaults_def DEFAULT_PLOT_PERIOD_MS_def Let_def)
  obtain t s1 where o: "libusb_transport_open sniffer_libusb (po_usb ?o) True False (demo_start demo_packets) = (0, t, s1)"
    and w: "us_world s1 = us_world (demo_start demo_packets)"
    by (rule demo_opens [of ?o]) simp_all
  have p: "parse (po_max_payload ?o) (record_limit ?o) (concat (fst (us_world s1))) = [Record frame1]"
    using demo_parsed unfolding w by (simp add: storage_defaults_def record_limit_def)
  have h: "h_malloc demo_plotting_host" "h_fclose demo_plotting_host" "h_fopen demo_plotting_host ''a.bin'' = Some empty_file"
    "length (h_staging demo_plotting_host) = RECEIVE_STAGING_SIZE"
    using demo_facts by (simp_all add: demo_plotting_host_def)
  obtain r f stats where s: "storage_session demo_plotting_host sniffer_libusb ?o None None (demo_start demo_packets) = Some r"
    "sr_file r = Some (f, stats)" "fl_data f = fl_data empty_file @ concat (parse_records [Record frame1])"
    "records stats = of_nat (length (parse_records [Record frame1]))"
    "sr_code r = (if record_limit ?o = Some (length (parse_records [Record frame1])) \<and> h_fclose demo_plotting_host \<and>
       \<not> (po_plot_after_capture ?o \<and> 0 < records stats \<and> \<not> plotted demo_plotting_host ?o ''a.bin'') then 0 else 1)"
    by (rule storage_session_stream [OF plot_args_parsed _ _ h(3) demo_facts(5) h(1,4) o sniffer_stream _ _ p [symmetric]])
       (use demo_facts(7) in \<open>simp_all add: w storage_defaults_def RECEIVE_STAGING_SIZE_def\<close>)
  have "storage_main demo_plotting_host sniffer_libusb plot_args None (demo_start demo_packets) = Some r"
    using s(1) by (simp add: storage_main_def plot_args_parsed storage_defaults_def)
  then have r: "storage_main demo_plotting_host sniffer_libusb plot_args None (demo_start demo_packets) = Some r"
    "sr_file r = Some (f, stats)" "records stats = 1" "sr_code r = 0"
    using s plotted h(2) by (simp_all add: storage_defaults_def record_limit_def)
  from storage_plots_capture [OF plot_args_parsed _ _ r(1,4,2), of demo_macos] r show ?thesis
    by (auto simp: storage_defaults_def demo_plotting_host_def)
qed

theorem send_only_delivers_witness:
  "\<exists>r. storage_main demo_host sniffer_libusb send_args (Some 9) (demo_start []) = Some r \<and>
     (sr_code r = 0 \<longrightarrow> snd (us_world (sr_usb r)) = [0xAB])"
proof -
  let ?o = "storage_defaults\<lparr>po_usb := (po_usb storage_defaults)\<lparr>bus_number := 20, device_address := 7\<rparr>,
       po_send_hex := Some ''AB'', po_send_only := True\<rparr>"
  let ?t = "\<lparr>lt_context = True, lt_handle = Some sniffer_device, lt_options = (po_usb ?o)\<lparr>bus_number := 20,
    device_address := 7\<rparr>, lt_interface_claimed = True\<rparr>"
  obtain s1 where o: "libusb_transport_open sniffer_libusb (po_usb ?o) False True (demo_start []) = (0, ?t, s1)"
    and w: "us_world s1 = ([], [])"
    by (rule sniffer_opens [of "po_usb ?o" False True "demo_start []"]) (simp_all add: storage_defaults_def)
  obtain r where r: "storage_main demo_host sniffer_libusb send_args (Some 9) (demo_start []) = Some r"
    by (rule demo_send)
  from send_only_delivers [OF send_args_parsed _ _ _ demo_data(2) o _ r, of snd] sniffer_sink
  show ?thesis using r w by (auto simp: storage_defaults_def)
qed

end
