(* ===== verification/Flight_Log.thy ===== *)
theory Flight_Log
  imports C_Text
begin

text \<open>
  The flight log of the simulation, \<open>data/simulation_dep.csv\<close>, as \<open>center.c\<close> and \<open>drone.c\<close> read
  it: the fields of a line by \<open>strtok\<close>, the rows that the center hands out, and the lookup of the
  next reception that the drones make. A file is its text; lines are read by \<open>fgets\<close> and cut
  where the buffers end, as in the code.
\<close>

section \<open>Functions of the C library\<close>

text \<open>All tokens of \<open>strtok(line, ",")\<close>: empty fields do not count.\<close>

function strtok_all :: "string \<Rightarrow> string list" where
  "strtok_all line =
     (let t = dropWhile (\<lambda>c. c = CHR '','') line in
      if t = [] then [] else takeWhile (\<lambda>c. c \<noteq> CHR '','') t # strtok_all (dropWhile (\<lambda>c. c \<noteq> CHR '','') t))"
  by pat_completeness auto
termination
proof (relation "measure length", simp)
  fix line t :: string
  assume t: "t = dropWhile (\<lambda>c. c = CHR '','') line" "t \<noteq> []"
  then have "hd t \<noteq> CHR '',''" using hd_dropWhile [of "\<lambda>c. c = CHR '',''" line] by simp
  then have "length (dropWhile (\<lambda>c. c \<noteq> CHR '','') t) < length t"
    using t(2) by (cases t) (auto intro: le_imp_less_Suc length_dropWhile_le)
  also have "\<dots> \<le> length line" unfolding t(1) by (rule length_dropWhile_le)
  finally show "(dropWhile (\<lambda>c. c \<noteq> CHR '','') t, line) \<in> measure length" by simp
qed

declare strtok_all.simps [simp del]

fun strstr :: "string \<Rightarrow> string \<Rightarrow> bool" where
  "strstr [] needle = (needle = [])"
| "strstr (c # cs) needle = (take (length needle) (c # cs) = needle \<or> strstr cs needle)"

text \<open>The value of \<open>strtoul(text, NULL, 10)\<close>.\<close>

definition strtoul10 :: "string \<Rightarrow> nat" where
  "strtoul10 text =
     (let t = dropWhile isspace text;
          negative = (t \<noteq> [] \<and> hd t = CHR ''-'');
          u = (if t \<noteq> [] \<and> (hd t = CHR ''-'' \<or> hd t = CHR ''+'') then tl t else t);
          v = fst (scan_digits 10 0 u)
      in if ULONG_MAX < v then ULONG_MAX else if negative \<and> v \<noteq> 0 then ULONG_MAX + 1 - v else v)"

section \<open>The center\<close>

definition NODES_NUM :: nat where "NODES_NUM = 2"
definition RANGING_PERIOD_RATE :: nat where "RANGING_PERIOD_RATE = 1"
definition MAX_LINE_LEN :: nat where "MAX_LINE_LEN = 256"

datatype Simu_Direction = TX | RX

record Line_Message =
  lm_address :: u16
  lm_status :: Simu_Direction
  lm_timestamp :: u64

definition count_rx_from_header :: "string \<Rightarrow> nat" where
  "count_rx_from_header header_line =
     length (filter (\<lambda>token. take 2 token = ''Rx'' \<and> strstr token ''_addr'') (strtok_all header_line))"

text \<open>
  A row: the sender's address and time, and those of the receivers. The tokens are used in order
  from the second on; a missing one is a NULL pointer given to \<open>strtoul\<close>, here \<open>None\<close>.
\<close>

record log_row =
  lr_tx :: "u16 \<times> u64"
  lr_rx :: "(u16 \<times> u64) list"

definition parse_row :: "nat \<Rightarrow> string \<Rightarrow> log_row option" where
  "parse_row rx_count line =
     (let tokens = strtok_all line in
      if length tokens < 5 + 2 * rx_count then None
      else Some \<lparr>lr_tx = (of_nat (strtoul10 (tokens ! 1)), of_nat (strtoul10 (tokens ! 4))),
                 lr_rx = map (\<lambda>i. (of_nat (strtoul10 (tokens ! (5 + 2 * i))),
                                   of_nat (strtoul10 (tokens ! (6 + 2 * i))))) [0..<rx_count]\<rparr>)"

text \<open>The loop over the lines after the header: the rows that are handed out, in order.\<close>

function flight_rows :: "nat \<Rightarrow> nat \<Rightarrow> string \<Rightarrow> log_row option list" where
  "flight_rows rx_count line_count content =
     (case fgets MAX_LINE_LEN content of
        None \<Rightarrow> []
      | Some (line, rest) \<Rightarrow>
          if line_count div NODES_NUM mod RANGING_PERIOD_RATE = 0
          then (if line = [] \<or> hd line = CHR 0x0A then []
                else parse_row rx_count line # flight_rows rx_count (line_count + 1) rest)
          else flight_rows rx_count (line_count + 1) rest)"
  by pat_completeness auto
termination
  by (relation "measure (\<lambda>(rx_count, line_count, content). length content)")
     (auto simp: MAX_LINE_LEN_def dest: fgets_progress [rotated])

declare flight_rows.simps [simp del]

text \<open>
  \<open>broadcast_flightLog\<close> up to its loop, with \<open>count\<close> drones connected: \<open>None\<close> when the file cannot
  be opened, is empty, or has another number of drones, and when a row is incomplete.
\<close>

definition flight_log :: "nat \<Rightarrow> string option \<Rightarrow> log_row list option" where
  "flight_log count fp =
     (case fp of
        None \<Rightarrow> None
      | Some content \<Rightarrow>
          (case fgets MAX_LINE_LEN content of
             None \<Rightarrow> None
           | Some (line, rest) \<Rightarrow>
               let rx_count = count_rx_from_header line; drone_num = rx_count + 1
               in if drone_num \<noteq> count then None
                  else those (flight_rows rx_count 0 rest)))"

section \<open>The drones\<close>

definition MAX_LINE :: nat where "MAX_LINE = 512"
definition MAX_ROWS :: nat where "MAX_ROWS = 7000"
definition NULL_TIMESTAMP :: u64 where "NULL_TIMESTAMP = 0xFFFFFFFFFF"

text \<open>\<open>line[strcspn(line, "\r\n")] = 0\<close>.\<close>

definition cut_line :: "string \<Rightarrow> string" where
  "cut_line line = takeWhile (\<lambda>c. c \<noteq> CHR 0x0D \<and> c \<noteq> CHR 0x0A) line"

function csv_loop :: "string \<Rightarrow> string list \<Rightarrow> string list" where
  "csv_loop content csv_lines =
     (case fgets MAX_LINE content of
        None \<Rightarrow> csv_lines
      | Some (line, rest) \<Rightarrow>
          if length csv_lines < MAX_ROWS then csv_loop rest (csv_lines @ [cut_line line]) else csv_lines)"
  by pat_completeness auto
termination
  by (relation "measure (\<lambda>(content, csv_lines). length content)")
     (auto simp: MAX_LINE_def dest: fgets_progress [rotated])

declare csv_loop.simps [simp del]

text \<open>The result and the lines in memory; \<open>fp\<close> is the file.\<close>

definition load_csv_to_memory :: "string option \<Rightarrow> int \<times> string list" where
  "load_csv_to_memory fp =
     (case fp of
        None \<Rightarrow> (-1, [])
      | Some content \<Rightarrow>
          (case fgets MAX_LINE content of
             None \<Rightarrow> (0, [])
           | Some (header, rest) \<Rightarrow> (let csv_lines = csv_loop rest [] in (int (length csv_lines), csv_lines))))"

text \<open>\<open>atoll\<close> is \<open>strtoll\<close> with base 10, converted to 64 bits without a sign.\<close>

definition get_csv_cell_ll :: "string list \<Rightarrow> nat \<Rightarrow> nat \<Rightarrow> u64" where
  "get_csv_cell_ll csv_lines n m =
     (if length csv_lines \<le> n then 0
      else let tokens = strtok_all (csv_lines ! n) in
        if m < length tokens then of_int (fst (strtol10 (tokens ! m))) else 0)"

function next_rx_loop :: "string list \<Rightarrow> u16 \<Rightarrow> u64 \<Rightarrow> nat \<Rightarrow> bool \<Rightarrow> u64 \<times> nat" where
  "next_rx_loop csv_lines RxAddress RxTimestamp i matched =
     (if \<not> i < length csv_lines then (NULL_TIMESTAMP, length csv_lines)
      else
        let addr = ucast (get_csv_cell_ll csv_lines i 5) :: u16;
            time = get_csv_cell_ll csv_lines i 6
        in if \<not> matched
           then next_rx_loop csv_lines RxAddress RxTimestamp (i + 1) (addr = RxAddress \<and> time = RxTimestamp)
           else if addr = RxAddress then (time, i)
           else next_rx_loop csv_lines RxAddress RxTimestamp (i + 1) matched)"
  by pat_completeness auto
termination
  by (relation "measure (\<lambda>(csv_lines, a, t, i, matched). length csv_lines - i)") auto

declare next_rx_loop.simps [simp del]

text \<open>The time and the new value of \<open>csv_pos\<close>.\<close>

definition get_next_RxTimestamp :: "string list \<Rightarrow> nat \<Rightarrow> u16 \<Rightarrow> u64 \<Rightarrow> u64 \<times> nat" where
  "get_next_RxTimestamp csv_lines csv_pos RxAddress RxTimestamp =
     next_rx_loop csv_lines RxAddress RxTimestamp csv_pos False"

section \<open>Properties\<close>

text \<open>
  The specification of the lookup on the receptions of the log from a position on, as pairs of the
  address and the time of the first receiver of every line: skip to the reception that is asked
  for, then to the next one of the same drone.
\<close>

definition receptions :: "string list \<Rightarrow> (u16 \<times> u64) list" where
  "receptions csv_lines =
     map (\<lambda>i. (ucast (get_csv_cell_ll csv_lines i 5), get_csv_cell_ll csv_lines i 6)) [0..<length csv_lines]"

definition next_reception :: "(u16 \<times> u64) list \<Rightarrow> u16 \<Rightarrow> u64 \<Rightarrow> u64 option" where
  "next_reception rs a t =
     (case dropWhile (\<lambda>r. r \<noteq> (a, t)) rs of
        [] \<Rightarrow> None
      | _ # later \<Rightarrow> map_option snd (find (\<lambda>r. fst r = a) later))"

lemma next_rx_loop_step:
  assumes "i < length csv_lines" "receptions csv_lines ! i = (a', t')"
  shows "next_rx_loop csv_lines a t i False = next_rx_loop csv_lines a t (i + 1) (a' = a \<and> t' = t)"
    and "next_rx_loop csv_lines a t i True = (if a' = a then (t', i) else next_rx_loop csv_lines a t (i + 1) True)"
  using assms by (subst next_rx_loop.simps, simp add: receptions_def Let_def)+

lemma drop_receptions:
  "i < length csv_lines \<Longrightarrow> drop i (receptions csv_lines) = receptions csv_lines ! i # drop (Suc i) (receptions csv_lines)"
  by (rule Cons_nth_drop_Suc [symmetric]) (simp add: receptions_def)

lemma next_rx_matched:
  "fst (next_rx_loop csv_lines a t i True) =
     (case find (\<lambda>r. fst r = a) (drop i (receptions csv_lines)) of None \<Rightarrow> NULL_TIMESTAMP | Some r \<Rightarrow> snd r)"
proof (induction "length csv_lines - i" arbitrary: i)
  case 0
  then show ?case by (subst next_rx_loop.simps) (simp add: receptions_def)
next
  case (Suc n)
  then have i: "i < length csv_lines" by simp
  obtain a' t' where r: "receptions csv_lines ! i = (a', t')" by (cases "receptions csv_lines ! i")
  have "n = length csv_lines - (i + 1)" using Suc.hyps(2) by simp
  from Suc.hyps(1) [OF this] show ?case
    using next_rx_loop_step(2) [OF i r] by (simp add: drop_receptions [OF i] r)
qed

lemma next_rx_searching:
  "fst (next_rx_loop csv_lines a t i False) =
     (case next_reception (drop i (receptions csv_lines)) a t of None \<Rightarrow> NULL_TIMESTAMP | Some t' \<Rightarrow> t')"
proof (induction "length csv_lines - i" arbitrary: i)
  case 0
  then show ?case by (subst next_rx_loop.simps) (simp add: receptions_def next_reception_def)
next
  case (Suc n)
  then have i: "i < length csv_lines" by simp
  obtain a' t' where r: "receptions csv_lines ! i = (a', t')" by (cases "receptions csv_lines ! i")
  have "n = length csv_lines - (i + 1)" using Suc.hyps(2) by simp
  note IH = Suc.hyps(1) [OF this]
  show ?case
  proof (cases "a' = a \<and> t' = t")
    case True
    then show ?thesis
      using next_rx_loop_step(1) [OF i r, of a t] next_rx_matched [of csv_lines a t "i + 1"]
      by (simp add: drop_receptions [OF i] r next_reception_def split: option.splits)
  next
    case False
    then show ?thesis
      using next_rx_loop_step(1) [OF i r, of a t, unfolded iffD2 [OF eq_False False]] IH
      by (auto simp: drop_receptions [OF i] r next_reception_def)
  qed
qed

text \<open>
  The lookup of the next reception computes its specification on the receptions that the lines
  show in their sixth and seventh field: from the current position on, the time of the drone's first
  reception after the one asked for, and \<open>NULL_TIMESTAMP\<close> when there is none.
\<close>
lemma next_reception_found:
  "fst (get_next_RxTimestamp csv_lines csv_pos RxAddress RxTimestamp) =
     (case next_reception (drop csv_pos (receptions csv_lines)) RxAddress RxTimestamp of
        None \<Rightarrow> NULL_TIMESTAMP | Some t \<Rightarrow> t)"
  unfolding get_next_RxTimestamp_def by (rule next_rx_searching)

end
