(* ===== verification/Simulation.thy ===== *)
theory Simulation
  imports Flight_Log
begin

unbundle bit_operations_syntax

text \<open>
  The simulation of a drone swarm: the control center of \<open>center.c\<close> with its thread for the flight
  log and one thread for every drone, the drones of \<open>drone.c\<close>, and the clock of \<open>support.c\<close>. The
  threads communicate by three semaphores and a counter, center and drones by sockets that keep
  the order of their messages. The whole is a step relation: a step is one blocking call of a
  thread with the code up to the next one, and any thread that can go on may take the next step.

  The ranging library is a git submodule and a parameter here. The configuration is that of
  \<open>support.h\<close>: dynamic ranging, real time enabled, no check points and no packet loss. A message is
  received as a whole by one \<open>recv\<close>.
\<close>

section \<open>Messages\<close>

definition ADDR_SIZE :: nat where "ADDR_SIZE = 20"
definition CENTER_ADDRESS :: string where "CENTER_ADDRESS = ''CENTER''"
definition PACKET_LOSS :: nat where "PACKET_LOSS = 0"

text \<open>
  The payload, with the constructor for the \<open>size\<close> field that tells the kinds apart. A response is
  sent with the size of a line and a payload that is not initialised, and never read.
\<close>

datatype 'm payload = Ranging 'm | Line Line_Message | Response

record 'm Simu_Message =
  sm_srcAddress :: string
  sm_payload :: "'m payload"

definition node_number :: "string \<Rightarrow> u16" where
  "node_number address = of_nat (strtoul10 address)"

section \<open>The set of drones\<close>

record Drone_Node =
  dn_socket :: int
  dn_address :: string

text \<open>
  The registration of a drone by the first bytes it sends: \<open>None\<close> when the connection is closed
  instead, and when the code would write outside its arrays, which is when the 20 bytes of the
  address are all used or when there are already \<open>NODES_NUM\<close> drones.
\<close>

definition node_connect :: "Drone_Node list \<Rightarrow> int \<Rightarrow> string \<Rightarrow> Drone_Node list option" where
  "node_connect nodes node_socket received =
     (if received = [] then None
      else if ADDR_SIZE \<le> length received \<or> NODES_NUM \<le> length nodes then None
      else Some (nodes @ [\<lparr>dn_socket = node_socket, dn_address = takeWhile (\<lambda>c. c \<noteq> CHR 0x00) received\<rparr>]))"

text \<open>The loop at the disconnection: the first node with the socket is removed, the others move up.\<close>

fun node_disconnect :: "Drone_Node list \<Rightarrow> int \<Rightarrow> Drone_Node list" where
  "node_disconnect [] node_socket = []"
| "node_disconnect (n # ns) node_socket =
     (if dn_socket n = node_socket then ns else n # node_disconnect ns node_socket)"

section \<open>The drones\<close>

text \<open>
  The ranging library works on its own state and on the globals \<open>TxTimestamp\<close> and \<open>RxTimestamp\<close>,
  which it reads and clears through \<open>xTaskGetTickCount\<close>.
\<close>

type_synonym 'l lib_state = "'l \<times> u64 \<times> u64"

record ('l, 'm) ranging_lib =
  rl_generateDSRMessage :: "'l lib_state \<Rightarrow> 'm \<times> 'l lib_state"
  rl_msgSequence :: "'m \<Rightarrow> u16"
  rl_updateSendList :: "'l \<Rightarrow> u64 \<times> u16 \<Rightarrow> 'l"
  rl_processDSRMessage :: "'l lib_state \<Rightarrow> 'm \<times> u64 \<Rightarrow> 'l lib_state"

record 'l drone =
  dr_lib :: 'l
  dr_TxTimestamp :: u64
  dr_RxTimestamp :: u64
  dr_csv_lines :: "string list"
  dr_csv_pos :: nat

text \<open>The messages that are sent are the second component.\<close>

definition send_to_center :: "string \<Rightarrow> 'm \<Rightarrow> 'm Simu_Message" where
  "send_to_center address ranging_msg =
     \<lparr>sm_srcAddress = take (ADDR_SIZE - 1) address, sm_payload = Ranging ranging_msg\<rparr>"

definition response_to_center :: "string \<Rightarrow> 'm Simu_Message" where
  "response_to_center address = \<lparr>sm_srcAddress = take (ADDR_SIZE - 1) address, sm_payload = Response\<rparr>"

definition TxCallBack ::
    "('l, 'm) ranging_lib \<Rightarrow> string \<Rightarrow> 'l drone \<Rightarrow> u64 \<Rightarrow> 'l drone \<times> 'm Simu_Message list" where
  "TxCallBack L localAddress d timestamp =
     (case rl_generateDSRMessage L (dr_lib d, dr_TxTimestamp d, dr_RxTimestamp d) of (ranging_msg, l, tx, rx) \<Rightarrow>
        let l = rl_updateSendList L l (timestamp, rl_msgSequence L ranging_msg)
        in (d\<lparr>dr_lib := l, dr_TxTimestamp := 0, dr_RxTimestamp := rx\<rparr>, [send_to_center localAddress ranging_msg]))"

text \<open>\<open>randnum\<close> is the random number below 10000. Without check points only \<open>csv_pos\<close> is left of
  the lookup of the next reception.\<close>

definition RxCallBack ::
    "('l, 'm) ranging_lib \<Rightarrow> string \<Rightarrow> nat \<Rightarrow> 'l drone \<Rightarrow> 'm \<Rightarrow> u64 \<Rightarrow> 'l drone \<times> 'm Simu_Message list" where
  "RxCallBack L localAddress randnum d rangingMessage timestamp =
     (if randnum < PACKET_LOSS * 10000 \<or> timestamp = 0 then (d, [response_to_center localAddress])
      else case rl_processDSRMessage L (dr_lib d, dr_TxTimestamp d, dr_RxTimestamp d) (rangingMessage, timestamp) of
        (l, tx, rx) \<Rightarrow>
          let csv_pos = snd (get_next_RxTimestamp (dr_csv_lines d) (dr_csv_pos d) (node_number localAddress) timestamp)
          in (d\<lparr>dr_lib := l, dr_TxTimestamp := tx, dr_RxTimestamp := 0, dr_csv_pos := csv_pos\<rparr>,
              [response_to_center localAddress]))"

text \<open>The body of the loop of \<open>receive_from_center\<close>; a response is never sent to a drone.\<close>

definition receive_from_center ::
    "('l, 'm) ranging_lib \<Rightarrow> string \<Rightarrow> nat \<Rightarrow> 'l drone \<Rightarrow> 'm Simu_Message \<Rightarrow> 'l drone \<times> 'm Simu_Message list" where
  "receive_from_center L localAddress randnum d simu_msg =
     (if sm_srcAddress simu_msg = localAddress then (d, [])
      else case sm_payload simu_msg of
        Line line_message \<Rightarrow>
          if lm_address line_message \<noteq> node_number localAddress then (d, [])
          else (case lm_status line_message of
                  TX \<Rightarrow> let d = d\<lparr>dr_TxTimestamp := lm_timestamp line_message\<rparr>
                        in TxCallBack L localAddress d (dr_TxTimestamp d)
                | RX \<Rightarrow> (d\<lparr>dr_RxTimestamp := lm_timestamp line_message\<rparr>, [response_to_center localAddress]))
      | Ranging ranging_msg \<Rightarrow> RxCallBack L localAddress randnum d ranging_msg (dr_RxTimestamp d)
      | Response \<Rightarrow> (d, []))"

section \<open>The clock of the ranging library\<close>

record Ticks =
  TxCount :: u16
  RxCount :: u16
  lastTxTimestamp :: u64
  lastRxTimestamp :: u64
  TxTimestamp :: u64
  RxTimestamp :: u64

text \<open>The ticks; \<open>None\<close> is the variable that was not initialised.\<close>

definition xTaskGetTickCount :: "Ticks \<Rightarrow> u32 option \<times> Ticks" where
  "xTaskGetTickCount k =
     (if TxTimestamp k \<noteq> 0 then
        let k = (if lastTxTimestamp k = 0 then k\<lparr>lastTxTimestamp := TxTimestamp k\<rparr>
                 else k\<lparr>TxCount := TxCount k + (if TxTimestamp k < lastTxTimestamp k then 1 else 0)\<rparr>)
        in (Some (push_bit 16 (ucast (TxCount k)) + ucast (drop_bit 24 (TxTimestamp k))), k\<lparr>TxTimestamp := 0\<rparr>)
      else if RxTimestamp k \<noteq> 0 then
        let k = (if lastRxTimestamp k = 0 then k\<lparr>lastRxTimestamp := RxTimestamp k\<rparr>
                 else k\<lparr>RxCount := RxCount k + (if RxTimestamp k < lastRxTimestamp k then 1 else 0)\<rparr>)
        in (Some (push_bit 16 (ucast (RxCount k)) + ucast (drop_bit 24 (RxTimestamp k))), k\<lparr>RxTimestamp := 0\<rparr>)
      else (None, k))"

section \<open>The center\<close>

text \<open>
  Where the log thread is: at the head of its loop, at one of the two waits, or handing out the
  messages of the row. And where the thread of a drone is: receiving, at one of its two waits, or
  broadcasting, with the index of the next drone.
\<close>

datatype flight_pc =
  F_Read | F_Alloc log_row | F_Resp log_row | F_Send "(nat \<times> Line_Message) list"

datatype 'm handler_pc =
  H_Recv | H_Bcast "'m Simu_Message" | H_Resp "'m Simu_Message" | H_Send "'m Simu_Message" nat

record ('l, 'm) sim_state =
  st_rows :: "log_row list"
  st_flight :: flight_pc
  st_exited :: bool
  st_alloc :: nat
  st_bcast :: nat
  st_resp :: nat
  st_count :: nat
  st_handler :: "nat \<Rightarrow> 'm handler_pc"
  st_inbox :: "nat \<Rightarrow> 'm Simu_Message list" \<comment> \<open>from the center to a drone\<close>
  st_outbox :: "nat \<Rightarrow> 'm Simu_Message list" \<comment> \<open>and back\<close>
  st_drone :: "nat \<Rightarrow> 'l drone"

text \<open>The messages of a row: the sender's line, then the receivers', each to every drone with the address.\<close>

definition row_lines :: "log_row \<Rightarrow> Line_Message list" where
  "row_lines row =
     \<lparr>lm_address = fst (lr_tx row), lm_status = TX, lm_timestamp = snd (lr_tx row)\<rparr> #
     map (\<lambda>(a, t). \<lparr>lm_address = a, lm_status = RX, lm_timestamp = t\<rparr>) (lr_rx row)"

definition line_targets :: "string list \<Rightarrow> Line_Message \<Rightarrow> (nat \<times> Line_Message) list" where
  "line_targets nodes lm =
     map (\<lambda>i. (i, lm)) (filter (\<lambda>i. node_number (nodes ! i) = lm_address lm) [0..<length nodes])"

definition row_messages :: "string list \<Rightarrow> log_row \<Rightarrow> (nat \<times> Line_Message) list" where
  "row_messages nodes row = concat (map (line_targets nodes) (row_lines row))"

definition deliver :: "nat \<Rightarrow> 'm Simu_Message \<Rightarrow> ('l, 'm) sim_state \<Rightarrow> ('l, 'm) sim_state" where
  "deliver i msg s = s\<lparr>st_inbox := (st_inbox s)(i := st_inbox s i @ [msg])\<rparr>"

definition count_response :: "('l, 'm) sim_state \<Rightarrow> ('l, 'm) sim_state" where
  "count_response s =
     (if st_count s + 1 = NODES_NUM - 1 then s\<lparr>st_resp := st_resp s + 1, st_count := 0\<rparr>
      else s\<lparr>st_count := st_count s + 1\<rparr>)"

text \<open>
  The steps. At the end of the log the center's process exits, whatever its other threads do;
  the drones still receive what has been sent.
\<close>

inductive sim_step ::
    "string list \<Rightarrow> ('l, 'm) ranging_lib \<Rightarrow> ('l, 'm) sim_state \<Rightarrow> ('l, 'm) sim_state \<Rightarrow> bool"
  for nodes L where
  flight_read: "\<not> st_exited s \<Longrightarrow> st_flight s = F_Read \<Longrightarrow> st_rows s = row # rest \<Longrightarrow>
     sim_step nodes L s (s\<lparr>st_rows := rest, st_flight := F_Alloc row\<rparr>)"
| flight_exit: "\<not> st_exited s \<Longrightarrow> st_flight s = F_Read \<Longrightarrow> st_rows s = [] \<Longrightarrow>
     sim_step nodes L s (s\<lparr>st_exited := True\<rparr>)"
| flight_alloc: "\<not> st_exited s \<Longrightarrow> st_flight s = F_Alloc row \<Longrightarrow> 0 < st_alloc s \<Longrightarrow>
     sim_step nodes L s (s\<lparr>st_alloc := st_alloc s - 1, st_flight := F_Resp row\<rparr>)"
| flight_resp: "\<not> st_exited s \<Longrightarrow> st_flight s = F_Resp row \<Longrightarrow> 0 < st_resp s \<Longrightarrow>
     sim_step nodes L s (s\<lparr>st_resp := st_resp s - 1, st_flight := F_Send (row_messages nodes row)\<rparr>)"
| flight_send: "\<not> st_exited s \<Longrightarrow> st_flight s = F_Send ((i, lm) # ms) \<Longrightarrow>
     sim_step nodes L s (deliver i \<lparr>sm_srcAddress = CENTER_ADDRESS, sm_payload = Line lm\<rparr> s\<lparr>st_flight := F_Send ms\<rparr>)"
| flight_post: "\<not> st_exited s \<Longrightarrow> st_flight s = F_Send [] \<Longrightarrow>
     sim_step nodes L s (s\<lparr>st_bcast := st_bcast s + 1, st_flight := F_Read\<rparr>)"
| handler_ranging: "\<not> st_exited s \<Longrightarrow> i < length nodes \<Longrightarrow> st_handler s i = H_Recv \<Longrightarrow>
     st_outbox s i = msg # rest \<Longrightarrow> sm_payload msg = Ranging m \<Longrightarrow>
     sim_step nodes L s (s\<lparr>st_outbox := (st_outbox s)(i := rest), st_handler := (st_handler s)(i := H_Bcast msg)\<rparr>)"
| handler_response: "\<not> st_exited s \<Longrightarrow> i < length nodes \<Longrightarrow> st_handler s i = H_Recv \<Longrightarrow>
     st_outbox s i = msg # rest \<Longrightarrow> \<not> (\<exists>m. sm_payload msg = Ranging m) \<Longrightarrow>
     sim_step nodes L s (count_response s\<lparr>st_outbox := (st_outbox s)(i := rest)\<rparr>)"
| handler_bcast: "\<not> st_exited s \<Longrightarrow> i < length nodes \<Longrightarrow> st_handler s i = H_Bcast msg \<Longrightarrow> 0 < st_bcast s \<Longrightarrow>
     sim_step nodes L s (s\<lparr>st_bcast := st_bcast s - 1, st_handler := (st_handler s)(i := H_Resp msg)\<rparr>)"
| handler_resp: "\<not> st_exited s \<Longrightarrow> i < length nodes \<Longrightarrow> st_handler s i = H_Resp msg \<Longrightarrow> 0 < st_resp s \<Longrightarrow>
     sim_step nodes L s (s\<lparr>st_resp := st_resp s - 1, st_handler := (st_handler s)(i := H_Send msg 0)\<rparr>)"
| handler_send: "\<not> st_exited s \<Longrightarrow> i < length nodes \<Longrightarrow> st_handler s i = H_Send msg k \<Longrightarrow> k < length nodes \<Longrightarrow>
     sim_step nodes L s (deliver k msg s\<lparr>st_handler := (st_handler s)(i := H_Send msg (k + 1))\<rparr>)"
| handler_post: "\<not> st_exited s \<Longrightarrow> i < length nodes \<Longrightarrow> st_handler s i = H_Send msg k \<Longrightarrow> \<not> k < length nodes \<Longrightarrow>
     sim_step nodes L s (s\<lparr>st_alloc := st_alloc s + 1, st_handler := (st_handler s)(i := H_Recv)\<rparr>)"
| drone_receive: "i < length nodes \<Longrightarrow> st_inbox s i = msg # rest \<Longrightarrow> randnum < 10000 \<Longrightarrow>
     receive_from_center L (nodes ! i) randnum (st_drone s i) msg = (d, replies) \<Longrightarrow>
     sim_step nodes L s (s\<lparr>st_inbox := (st_inbox s)(i := rest), st_drone := (st_drone s)(i := d),
       st_outbox := (st_outbox s)(i := st_outbox s i @ replies)\<rparr>)"

text \<open>
  The start, when all drones are connected: \<open>rows\<close> of the log, the libraries initialised, the
  drones' copy of the log.
\<close>

definition sim_start :: "log_row list \<Rightarrow> (nat \<Rightarrow> 'l) \<Rightarrow> string list \<Rightarrow> ('l, 'm) sim_state" where
  "sim_start rows libs csv_lines = \<lparr>st_rows = rows, st_flight = F_Read, st_exited = False,
     st_alloc = 1, st_bcast = 0, st_resp = 1, st_count = 0,
     st_handler = (\<lambda>i. H_Recv), st_inbox = (\<lambda>i. []), st_outbox = (\<lambda>i. []),
     st_drone = (\<lambda>i. \<lparr>dr_lib = libs i, dr_TxTimestamp = 0, dr_RxTimestamp = 0,
       dr_csv_lines = csv_lines, dr_csv_pos = 0\<rparr>)\<rparr>"

inductive sim_reachable ::
    "string list \<Rightarrow> ('l, 'm) ranging_lib \<Rightarrow> ('l, 'm) sim_state \<Rightarrow> ('l, 'm) sim_state \<Rightarrow> bool"
  for nodes L s0 where
  sim_init: "sim_reachable nodes L s0 s0"
| sim_next: "sim_reachable nodes L s0 s \<Longrightarrow> sim_step nodes L s s' \<Longrightarrow> sim_reachable nodes L s0 s'"

end
