(* ===== verification/Simulation_Protocol.thy ===== *)
theory Simulation_Protocol
  imports Simulation
begin

text \<open>
  Why the semaphores of the simulation are enough: every reachable state is between two rows of the
  log, or in one of the two halves of a row, and the drones' states are those of the sequential
  execution of the log. The invariant says for every drone and every thread how far it is in its
  half; the steps move one of them on.
\<close>

section \<open>The sequential execution of the log\<close>

definition wf_nodes :: "string list \<Rightarrow> bool" where
  "wf_nodes nodes \<longleftrightarrow> length nodes = NODES_NUM \<and> distinct (map node_number nodes) \<and>
     (\<forall>a \<in> set nodes. length a < ADDR_SIZE \<and> a \<noteq> CENTER_ADDRESS)"

text \<open>A row names every drone exactly once.\<close>

definition wf_row :: "string list \<Rightarrow> log_row \<Rightarrow> bool" where
  "wf_row nodes row \<longleftrightarrow> distinct (map lm_address (row_lines row)) \<and>
     set (map lm_address (row_lines row)) = set (map node_number nodes)"

text \<open>The documented use of the two clocks: the library can only clear them.\<close>

definition clears_only :: "('l, 'm) ranging_lib \<Rightarrow> bool" where
  "clears_only L \<longleftrightarrow>
     (\<forall>l tx rx m l' tx' rx'. rl_generateDSRMessage L (l, tx, rx) = (m, l', tx', rx') \<longrightarrow>
        tx' \<in> {tx, 0} \<and> rx' \<in> {rx, 0}) \<and>
     (\<forall>l tx rx m l' tx' rx'. rl_processDSRMessage L (l, tx, rx) m = (l', tx', rx') \<longrightarrow>
        tx' \<in> {tx, 0} \<and> rx' \<in> {rx, 0})"

definition sender :: "string list \<Rightarrow> log_row \<Rightarrow> nat" where
  "sender nodes row = fst (hd (row_messages nodes row))"

definition line_for :: "string list \<Rightarrow> log_row \<Rightarrow> nat \<Rightarrow> Line_Message" where
  "line_for nodes row i = the (map_of (row_messages nodes row) i)"

abbreviation time_for :: "string list \<Rightarrow> log_row \<Rightarrow> nat \<Rightarrow> u64" where
  "time_for nodes row i \<equiv> lm_timestamp (line_for nodes row i)"

text \<open>A transmission: the message and the sender's library. A reception at a time; 0 is no reception.\<close>

definition tx_result :: "('l, 'm) ranging_lib \<Rightarrow> 'l \<Rightarrow> u64 \<Rightarrow> 'm \<times> 'l" where
  "tx_result L l t = (case rl_generateDSRMessage L (l, t, 0) of (m, l', _, _) \<Rightarrow>
     (m, rl_updateSendList L l' (t, rl_msgSequence L m)))"

definition rx_result :: "('l, 'm) ranging_lib \<Rightarrow> 'l \<Rightarrow> 'm \<Rightarrow> u64 \<Rightarrow> 'l" where
  "rx_result L l m t = (if t = 0 then l else fst (rl_processDSRMessage L (l, 0, t) (m, t)))"

definition row_message :: "string list \<Rightarrow> ('l, 'm) ranging_lib \<Rightarrow> log_row \<Rightarrow> (nat \<Rightarrow> 'l) \<Rightarrow> 'm" where
  "row_message nodes L row S = fst (tx_result L (S (sender nodes row)) (time_for nodes row (sender nodes row)))"

definition row_effect :: "string list \<Rightarrow> ('l, 'm) ranging_lib \<Rightarrow> log_row \<Rightarrow> (nat \<Rightarrow> 'l) \<Rightarrow> nat \<Rightarrow> 'l" where
  "row_effect nodes L row S = (\<lambda>i.
     if i = sender nodes row then snd (tx_result L (S i) (time_for nodes row i))
     else rx_result L (S i) (row_message nodes L row S) (time_for nodes row i))"

definition after_rows :: "string list \<Rightarrow> ('l, 'm) ranging_lib \<Rightarrow> log_row list \<Rightarrow> (nat \<Rightarrow> 'l) \<Rightarrow> nat \<Rightarrow> 'l" where
  "after_rows nodes L rows S = fold (row_effect nodes L) rows S"

lemma after_rows_Suc:
  "k < length rows \<Longrightarrow> after_rows nodes L (take (Suc k) rows) S = row_effect nodes L (rows ! k) (after_rows nodes L (take k rows) S)"
  by (simp add: after_rows_def take_Suc_conv_app_nth)

section \<open>The messages of a row\<close>

lemma wf_nodes_unique:
  assumes "wf_nodes nodes" "i < length nodes" "j < length nodes" "node_number (nodes ! i) = node_number (nodes ! j)"
  shows "i = j"
  using assms nth_eq_iff_index_eq [of "map node_number nodes" i j] by (simp add: wf_nodes_def)

lemma filter_upt_single: "i < n \<Longrightarrow> filter (\<lambda>j. j = i) [0..<n] = [i]"
  by (induction n) (auto simp: filter_empty_conv less_Suc_eq)

lemma line_targets_single:
  assumes "wf_nodes nodes" "lm_address lm \<in> set (map node_number nodes)"
  obtains i where "i < length nodes" "node_number (nodes ! i) = lm_address lm" "line_targets nodes lm = [(i, lm)]"
proof -
  obtain i where i: "i < length nodes" "node_number (nodes ! i) = lm_address lm"
    using assms(2) by (auto simp: in_set_conv_nth)
  have "filter (\<lambda>j. node_number (nodes ! j) = lm_address lm) [0..<length nodes] = filter (\<lambda>j. j = i) [0..<length nodes]"
  proof (rule filter_cong [OF refl])
    fix j assume "j \<in> set [0..<length nodes]"
    then show "(node_number (nodes ! j) = lm_address lm) = (j = i)"
      using wf_nodes_unique [OF assms(1) _ i(1), of j] i(2) by auto
  qed
  also have "\<dots> = [i]" by (rule filter_upt_single [OF i(1)])
  finally show thesis using that i by (simp add: line_targets_def)
qed

lemma row_messages_shape:
  assumes "wf_nodes nodes" "set (map lm_address lms) \<subseteq> set (map node_number nodes)"
  shows "map snd (concat (map (line_targets nodes) lms)) = lms \<and>
    (\<forall>(i, lm) \<in> set (concat (map (line_targets nodes) lms)). i < length nodes \<and> lm_address lm = node_number (nodes ! i))"
  using assms(2)
proof (induction lms)
  case (Cons lm lms)
  then obtain i where "i < length nodes" "node_number (nodes ! i) = lm_address lm" "line_targets nodes lm = [(i, lm)]"
    using line_targets_single [OF assms(1), of lm] by auto
  then show ?case using Cons by auto
qed simp

text \<open>What the proofs need of a row: whom its messages go to, in which order.\<close>

lemma row_facts:
  assumes "wf_nodes nodes" "wf_row nodes row"
  shows "distinct (map fst (row_messages nodes row))" "set (map fst (row_messages nodes row)) = {..<length nodes}"
    and "sender nodes row < length nodes"
    and "\<And>i lm. (i, lm) \<in> set (row_messages nodes row) \<Longrightarrow> lm = line_for nodes row i"
    and "\<And>i. i < length nodes \<Longrightarrow> lm_address (line_for nodes row i) = node_number (nodes ! i)"
    and "\<And>i. i < length nodes \<Longrightarrow> lm_status (line_for nodes row i) = (if i = sender nodes row then TX else RX)"
proof -
  let ?ms = "row_messages nodes row" and ?number = "\<lambda>i. node_number (nodes ! i)"
  have lines: "map snd ?ms = row_lines row"
    and ok: "\<And>i lm. (i, lm) \<in> set ?ms \<Longrightarrow> i < length nodes \<and> lm_address lm = ?number i"
    using row_messages_shape [OF assms(1), of "row_lines row"] assms(2)
    unfolding row_messages_def wf_row_def by auto
  have addr: "map lm_address (map snd ?ms) = map ?number (map fst ?ms)" using ok by auto
  have wf: "distinct (map ?number (map fst ?ms))" "set (map ?number (map fst ?ms)) = set (map node_number nodes)"
    using assms(2) unfolding wf_row_def addr [symmetric] lines by auto
  show dist: "distinct (map fst ?ms)" using wf(1) by (simp only: distinct_map [of _ "map fst ?ms"])
  show idx: "set (map fst ?ms) = {..<length nodes}"
  proof
    show "set (map fst ?ms) \<subseteq> {..<length nodes}" using ok by force
    show "{..<length nodes} \<subseteq> set (map fst ?ms)"
    proof
      fix i assume i: "i \<in> {..<length nodes}"
      then have "?number i \<in> set (map ?number (map fst ?ms))" unfolding wf(2) by simp
      then obtain j lm where "(j, lm) \<in> set ?ms" "?number j = ?number i" by auto
      with wf_nodes_unique [OF assms(1), of j i] ok [of j lm] i show "i \<in> set (map fst ?ms)" by force
    qed
  qed
  have "?ms \<noteq> []" using lines by (auto simp: row_lines_def)
  then obtain x lm0 rest where ms: "?ms = (x, lm0) # rest" by (cases ?ms) auto
  then have x: "sender nodes row = x" "lm_status lm0 = TX" and rx: "\<forall>lm \<in> set (map snd rest). lm_status lm = RX"
    using lines by (auto simp: sender_def row_lines_def)
  show "sender nodes row < length nodes" using ok [of x lm0] by (simp add: x ms)
  show look: "lm = line_for nodes row i" if "(i, lm) \<in> set ?ms" for i lm
    using that dist by (simp add: line_for_def)
  have at: "(i, line_for nodes row i) \<in> set ?ms" if "i < length nodes" for i
  proof -
    have "i \<in> set (map fst ?ms)" using that idx by simp
    then show ?thesis using look by force
  qed
  show "lm_address (line_for nodes row i) = ?number i" if "i < length nodes" for i
    using ok [OF at [OF that]] by simp
  show "lm_status (line_for nodes row i) = (if i = sender nodes row then TX else RX)" if "i < length nodes" for i
  proof (cases "i = x")
    case True
    then show ?thesis using look [of x lm0] x ms by simp
  next
    case False
    then have "(i, line_for nodes row i) \<in> set rest" using at [OF that] ms by simp
    then show ?thesis using rx False x by force
  qed
qed

section \<open>What a drone does with a message\<close>

definition drone_at :: "'l \<Rightarrow> u64 \<Rightarrow> 'l drone \<Rightarrow> bool" where
  "drone_at l rx d \<longleftrightarrow> dr_lib d = l \<and> dr_TxTimestamp d = 0 \<and> dr_RxTimestamp d = rx"

definition center_line :: "Line_Message \<Rightarrow> 'm Simu_Message" where
  "center_line lm = \<lparr>sm_srcAddress = CENTER_ADDRESS, sm_payload = Line lm\<rparr>"

lemma receive_own: "sm_srcAddress msg = a \<Longrightarrow> receive_from_center L a r d msg = (d, [])"
  by (simp add: receive_from_center_def)

lemma receive_rx:
  assumes "a \<noteq> CENTER_ADDRESS" "lm_address lm = node_number a" "lm_status lm = RX" "drone_at l rx d"
  obtains d' where "receive_from_center L a r d (center_line lm) = (d', [response_to_center a])"
    "drone_at l (lm_timestamp lm) d'"
  using assms by (auto simp: receive_from_center_def center_line_def drone_at_def)

lemma receive_tx:
  assumes "clears_only L" "a \<noteq> CENTER_ADDRESS" "lm_address lm = node_number a" "lm_status lm = TX" "drone_at l 0 d"
  obtains d' where "receive_from_center L a r d (center_line lm) =
      (d', [send_to_center a (fst (tx_result L l (lm_timestamp lm)))])"
    "drone_at (snd (tx_result L l (lm_timestamp lm))) 0 d'"
proof -
  obtain m l' tx' rx' where g: "rl_generateDSRMessage L (l, lm_timestamp lm, 0) = (m, l', tx', rx')"
    by (metis prod_cases4)
  with assms(1) have "rx' = 0" unfolding clears_only_def by blast
  with g assms show thesis
    by (intro that [of "d\<lparr>dr_lib := rl_updateSendList L l' (lm_timestamp lm, rl_msgSequence L m),
         dr_TxTimestamp := 0, dr_RxTimestamp := 0\<rparr>"])
       (simp_all add: receive_from_center_def center_line_def drone_at_def TxCallBack_def tx_result_def)
qed

lemma receive_ranging:
  assumes "clears_only L" "b \<noteq> a" "length b < ADDR_SIZE" "drone_at l t d"
  obtains d' where "receive_from_center L a r d (send_to_center b m) = (d', [response_to_center a])"
    "drone_at (rx_result L l m t) 0 d'"
proof -
  have b: "sm_srcAddress (send_to_center b m) = b" using assms(3) by (simp add: send_to_center_def)
  obtain l' tx' rx' where g: "rl_processDSRMessage L (l, 0, t) (m, t) = (l', tx', rx')" by (metis prod_cases3)
  with assms(1) have "tx' = 0" unfolding clears_only_def by blast
  with g assms b show thesis
    by (cases "t = 0")
       (auto intro: that simp: receive_from_center_def RxCallBack_def PACKET_LOSS_def rx_result_def drone_at_def
          send_to_center_def Let_def)
qed

end
