(* ===== verification/Simulation_Invariant.thy ===== *)
theory Simulation_Invariant
  imports Simulation_Protocol
begin

text \<open>
  The invariant of the simulation and its preservation. A row runs in two halves. In the first the
  center hands out the lines, the receivers note their times and reply, and the sender's ranging
  message arrives; in the second that message is broadcast and the receivers process it and reply.
  Both halves are the same for a receiver: it is sent one message, handles it and replies.
\<close>

section \<open>The invariant\<close>

datatype stage = Unsent | Told | Replied | Counted
datatype tx_stage = T_Unsent | T_Told | T_Sent | T_Bcast | T_Resp

text \<open>An inbox holds at most what is current, behind messages of the drone itself, which it ignores.\<close>

definition pends :: "string list \<Rightarrow> nat \<Rightarrow> 'm Simu_Message list \<Rightarrow> 'm Simu_Message list \<Rightarrow> bool" where
  "pends nodes i cur inbox \<longleftrightarrow> (\<exists>own. inbox = own @ cur \<and> (\<forall>q \<in> set own. sm_srcAddress q = nodes ! i))"

text \<open>A receiver that is to handle \<open>msg\<close>, with its library and its time before and after.\<close>

definition receiver_at ::
    "string list \<Rightarrow> nat \<Rightarrow> 'm Simu_Message \<Rightarrow> 'l \<times> u64 \<Rightarrow> 'l \<times> u64 \<Rightarrow> stage \<Rightarrow> ('l, 'm) sim_state \<Rightarrow> bool" where
  "receiver_at nodes i msg before after g s \<longleftrightarrow>
     pends nodes i (if g = Told then [msg] else []) (st_inbox s i) \<and>
     st_outbox s i = (if g = Replied then [response_to_center (nodes ! i)] else []) \<and>
     st_handler s i = H_Recv \<and>
     (if g = Unsent \<or> g = Told then drone_at (fst before) (snd before) (st_drone s i)
      else drone_at (fst after) (snd after) (st_drone s i))"

definition sender_at ::
    "string list \<Rightarrow> nat \<Rightarrow> 'm Simu_Message \<Rightarrow> 'm Simu_Message \<Rightarrow> 'l \<Rightarrow> 'l \<Rightarrow> tx_stage \<Rightarrow> ('l, 'm) sim_state \<Rightarrow> bool" where
  "sender_at nodes x line msg l0 l1 g s \<longleftrightarrow>
     pends nodes x (if g = T_Told then [line] else []) (st_inbox s x) \<and>
     st_outbox s x = (if g = T_Sent then [msg] else []) \<and>
     st_handler s x = (case g of T_Bcast \<Rightarrow> H_Bcast msg | T_Resp \<Rightarrow> H_Resp msg | _ \<Rightarrow> H_Recv) \<and>
     drone_at (if g = T_Unsent \<or> g = T_Told then l0 else l1) 0 (st_drone s x)"

definition receivers :: "string list \<Rightarrow> log_row \<Rightarrow> nat set" where
  "receivers nodes row = {..<length nodes} - {sender nodes row}"

text \<open>The response semaphore is posted when the last receiver has been counted.\<close>

definition acked :: "nat set \<Rightarrow> (nat \<Rightarrow> stage) \<Rightarrow> ('l, 'm) sim_state \<Rightarrow> bool" where
  "acked R st s \<longleftrightarrow>
     (if \<forall>i \<in> R. st i = Counted then st_resp s = 1 \<and> st_count s = 0
      else st_resp s = 0 \<and> st_count s = card {i \<in> R. st i = Counted})"

abbreviation row_msg :: "string list \<Rightarrow> ('l, 'm) ranging_lib \<Rightarrow> log_row \<Rightarrow> (nat \<Rightarrow> 'l) \<Rightarrow> 'm Simu_Message" where
  "row_msg nodes L row S \<equiv> send_to_center (nodes ! sender nodes row) (row_message nodes L row S)"

text \<open>Where the log thread is in the first half: handing out lines, or waiting for the next row.\<close>

definition line_flight :: "string list \<Rightarrow> log_row \<Rightarrow> (nat \<Rightarrow> stage) \<Rightarrow> tx_stage \<Rightarrow> ('l, 'm) sim_state \<Rightarrow> bool" where
  "line_flight nodes row st g s \<longleftrightarrow>
     (case st_flight s of
        F_Send ms \<Rightarrow> (\<exists>pre. row_messages nodes row = pre @ ms) \<and>
          (\<forall>i \<in> receivers nodes row. st i = Unsent \<longleftrightarrow> i \<in> fst ` set ms) \<and>
          (g = T_Unsent \<longleftrightarrow> sender nodes row \<in> fst ` set ms) \<and> g \<noteq> T_Resp \<and> st_bcast s = 0
      | F_Resp r \<Rightarrow> False
      | _ \<Rightarrow> (\<forall>i \<in> receivers nodes row. st i \<noteq> Unsent) \<and> g \<noteq> T_Unsent \<and>
          st_bcast s = (if g = T_Resp then 0 else 1))"

definition line_phase ::
    "string list \<Rightarrow> ('l, 'm) ranging_lib \<Rightarrow> (nat \<Rightarrow> 'l) \<Rightarrow> log_row \<Rightarrow> (nat \<Rightarrow> stage) \<Rightarrow> tx_stage \<Rightarrow>
     ('l, 'm) sim_state \<Rightarrow> bool" where
  "line_phase nodes L S row st g s \<longleftrightarrow>
     acked (receivers nodes row) st s \<and> st_alloc s = 0 \<and> line_flight nodes row st g s \<and>
     (\<forall>i \<in> receivers nodes row. receiver_at nodes i (center_line (line_for nodes row i))
        (S i, 0) (S i, time_for nodes row i) (st i) s) \<and>
     sender_at nodes (sender nodes row) (center_line (line_for nodes row (sender nodes row)))
       (row_msg nodes L row S) (S (sender nodes row)) (row_effect nodes L row S (sender nodes row)) g s"

text \<open>The second half; \<open>k\<close> is the next drone of the broadcast, \<open>None\<close> when it is over.\<close>

definition ranging_flight :: "nat option \<Rightarrow> ('l, 'm) sim_state \<Rightarrow> bool" where
  "ranging_flight k s \<longleftrightarrow> st_bcast s = 0 \<and>
     (case st_flight s of
        F_Send ms \<Rightarrow> False
      | F_Resp r \<Rightarrow> k = None \<and> st_alloc s = 0
      | _ \<Rightarrow> st_alloc s = (if k = None then 1 else 0))"

definition ranging_phase ::
    "string list \<Rightarrow> ('l, 'm) ranging_lib \<Rightarrow> (nat \<Rightarrow> 'l) \<Rightarrow> log_row \<Rightarrow> (nat \<Rightarrow> stage) \<Rightarrow> nat option \<Rightarrow>
     ('l, 'm) sim_state \<Rightarrow> bool" where
  "ranging_phase nodes L S row st k s \<longleftrightarrow>
     acked (receivers nodes row) st s \<and> ranging_flight k s \<and>
     (\<forall>i \<in> receivers nodes row. receiver_at nodes i (row_msg nodes L row S)
        (S i, time_for nodes row i) (row_effect nodes L row S i, 0) (st i) s \<and>
        (st i = Unsent \<longleftrightarrow> (case k of Some j \<Rightarrow> j \<le> i | None \<Rightarrow> False))) \<and>
     pends nodes (sender nodes row) [] (st_inbox s (sender nodes row)) \<and> st_outbox s (sender nodes row) = [] \<and>
     drone_at (row_effect nodes L row S (sender nodes row)) 0 (st_drone s (sender nodes row)) \<and>
     st_handler s (sender nodes row) = (case k of Some j \<Rightarrow> H_Send (row_msg nodes L row S) j | None \<Rightarrow> H_Recv)"

text \<open>Between two rows.\<close>

definition quiet_at :: "string list \<Rightarrow> (nat \<Rightarrow> 'l) \<Rightarrow> nat \<Rightarrow> ('l, 'm) sim_state \<Rightarrow> bool" where
  "quiet_at nodes S i s \<longleftrightarrow> pends nodes i [] (st_inbox s i) \<and> st_outbox s i = [] \<and> st_handler s i = H_Recv \<and>
     drone_at (S i) 0 (st_drone s i)"

definition quiet :: "string list \<Rightarrow> (nat \<Rightarrow> 'l) \<Rightarrow> ('l, 'm) sim_state \<Rightarrow> bool" where
  "quiet nodes S s \<longleftrightarrow> st_resp s = 1 \<and> st_count s = 0 \<and> ranging_flight None s \<and>
     (\<forall>i < length nodes. quiet_at nodes S i s)"

text \<open>The rows that have not been started.\<close>

definition waiting :: "('l, 'm) sim_state \<Rightarrow> log_row list" where
  "waiting s = (case st_flight s of F_Alloc r \<Rightarrow> r # st_rows s | F_Resp r \<Rightarrow> r # st_rows s | _ \<Rightarrow> st_rows s)"

definition sim_inv ::
    "string list \<Rightarrow> ('l, 'm) ranging_lib \<Rightarrow> log_row list \<Rightarrow> (nat \<Rightarrow> 'l) \<Rightarrow> ('l, 'm) sim_state \<Rightarrow> bool" where
  "sim_inv nodes L rows libs s \<longleftrightarrow>
     (st_exited s \<longrightarrow> st_flight s = F_Read \<and> st_rows s = []) \<and>
     ((\<exists>k \<le> length rows. waiting s = drop k rows \<and> quiet nodes (after_rows nodes L (take k rows) libs) s) \<or>
      (\<exists>k < length rows. waiting s = drop (Suc k) rows \<and>
         ((\<exists>st g. line_phase nodes L (after_rows nodes L (take k rows) libs) (rows ! k) st g s) \<or>
          (\<exists>st j. ranging_phase nodes L (after_rows nodes L (take k rows) libs) (rows ! k) st j s))))"

section \<open>Parts of a state\<close>

lemma pends_cases:
  assumes "pends nodes i cur (q # rest)"
  shows "sm_srcAddress q = nodes ! i \<and> pends nodes i cur rest \<or> cur = q # rest"
proof -
  obtain own where own: "q # rest = own @ cur" "\<forall>q \<in> set own. sm_srcAddress q = nodes ! i"
    using assms unfolding pends_def by blast
  then show ?thesis by (cases own) (auto simp: pends_def)
qed

lemma pends_send: "pends nodes i [] inbox \<Longrightarrow> pends nodes i [msg] (inbox @ [msg])"
  by (auto simp: pends_def)

lemma pends_send_own: "pends nodes i [] inbox \<Longrightarrow> sm_srcAddress msg = nodes ! i \<Longrightarrow> pends nodes i [] (inbox @ [msg])"
  by (auto simp: pends_def)

lemma pends_Nil [simp]: "pends nodes i [] []"
  by (simp add: pends_def)

lemma receiver_at_frame:
  assumes "st_inbox s' i = st_inbox s i" "st_outbox s' i = st_outbox s i" "st_handler s' i = st_handler s i"
    "st_drone s' i = st_drone s i"
  shows "receiver_at nodes i msg b a g s' = receiver_at nodes i msg b a g s"
  by (simp add: receiver_at_def assms)

lemma sender_at_frame:
  assumes "st_inbox s' x = st_inbox s x" "st_outbox s' x = st_outbox s x" "st_handler s' x = st_handler s x"
    "st_drone s' x = st_drone s x"
  shows "sender_at nodes x line msg l0 l1 g s' = sender_at nodes x line msg l0 l1 g s"
  by (simp add: sender_at_def assms)

lemma quiet_at_frame:
  assumes "st_inbox s' i = st_inbox s i" "st_outbox s' i = st_outbox s i" "st_handler s' i = st_handler s i"
    "st_drone s' i = st_drone s i"
  shows "quiet_at nodes S i s' = quiet_at nodes S i s"
  by (simp add: quiet_at_def assms)

lemma waiting_frame: "st_flight s' = st_flight s \<Longrightarrow> st_rows s' = st_rows s \<Longrightarrow> waiting s' = waiting s"
  by (simp add: waiting_def split: flight_pc.split)

lemma ranging_flight_frame:
  "st_flight s' = st_flight s \<Longrightarrow> st_alloc s' = st_alloc s \<Longrightarrow> st_bcast s' = st_bcast s \<Longrightarrow>
     ranging_flight k s' = ranging_flight k s"
  by (simp add: ranging_flight_def split: flight_pc.split)

lemma acked_frame:
  "st_resp s' = st_resp s \<Longrightarrow> st_count s' = st_count s \<Longrightarrow> \<forall>i \<in> R. st' i = Counted \<longleftrightarrow> st i = Counted \<Longrightarrow>
     acked R st' s' = acked R st s"
  unfolding acked_def by (simp cong: conj_cong)

lemma acked_same: "acked R st s \<Longrightarrow> st_resp s' = st_resp s \<Longrightarrow> st_count s' = st_count s \<Longrightarrow> acked R st s'"
  by (simp add: acked_def)

text \<open>The count of a response.\<close>

lemma acked_count:
  assumes "acked R st s" "i \<in> R" "st i \<noteq> Counted" "finite R" "card R = NODES_NUM - 1"
    and "st_resp s' = st_resp (count_response s)" "st_count s' = st_count (count_response s)"
  shows "acked R (st(i := Counted)) s'"
proof -
  let ?C = "{j \<in> R. st j = Counted}" and ?C' = "{j \<in> R. (st(i := Counted)) j = Counted}"
  have c: "st_resp s = 0" "st_count s = card ?C" using assms(1-3) by (auto simp: acked_def split: if_splits)
  have "?C' = insert i ?C" using assms(2) by auto
  then have card: "card ?C' = card ?C + 1" using assms(3,4) by simp
  have all: "(\<forall>j \<in> R. (st(i := Counted)) j = Counted) \<longleftrightarrow> card ?C' = card R"
  proof
    assume "card ?C' = card R"
    then have "?C' = R" using assms(4) by (intro card_subset_eq) auto
    then show "\<forall>j \<in> R. (st(i := Counted)) j = Counted" by blast
  next
    assume "\<forall>j \<in> R. (st(i := Counted)) j = Counted"
    then have "?C' = R" by blast
    then show "card ?C' = card R" by simp
  qed
  show ?thesis
    using card c assms(5-7) unfolding acked_def all by (auto simp: count_response_def)
qed

text \<open>A receiver that takes a message from its inbox.\<close>

lemma receiver_receives:
  assumes "receiver_at nodes i msg (l0, t0) (l1, t1) g s" "st_inbox s i = q # rest"
    and "receive_from_center L (nodes ! i) r (st_drone s i) q = (d, replies)"
    and handles: "\<And>d. drone_at l0 t0 d \<Longrightarrow>
      \<exists>d'. receive_from_center L (nodes ! i) r d msg = (d', [response_to_center (nodes ! i)]) \<and> drone_at l1 t1 d'"
    and s': "st_inbox s' i = rest" "st_outbox s' i = st_outbox s i @ replies" "st_handler s' i = st_handler s i"
      "st_drone s' i = d"
  obtains g' where "receiver_at nodes i msg (l0, t0) (l1, t1) g' s'"
    "g' = g \<or> g = Told \<and> g' = Replied"
proof -
  have p: "pends nodes i (if g = Told then [msg] else []) (q # rest)" using assms(1,2) by (simp add: receiver_at_def)
  from pends_cases [OF p] show thesis
  proof
    assume own: "sm_srcAddress q = nodes ! i \<and> pends nodes i (if g = Told then [msg] else []) rest"
    then have "d = st_drone s i" "replies = []" using assms(3) by (simp_all add: receive_own)
    then show thesis using own assms(1) s' by (intro that [of g]) (auto simp: receiver_at_def)
  next
    assume cur: "(if g = Told then [msg] else []) = q # rest"
    then have g: "g = Told" "q = msg" "rest = []" by (simp_all split: if_splits)
    have "drone_at l0 t0 (st_drone s i)" using assms(1) g by (simp add: receiver_at_def)
    from handles [OF this] have "replies = [response_to_center (nodes ! i)]" "drone_at l1 t1 d" using assms(3) g by auto
    then show thesis using g assms(1) s' by (intro that [of Replied]) (auto simp: receiver_at_def)
  qed
qed

section \<open>The steps\<close>

text \<open>What all step lemmas assume of the drones and the library, and the facts on the rows.\<close>

definition swarm :: "string list \<Rightarrow> ('l, 'm) ranging_lib \<Rightarrow> bool" where
  "swarm nodes L \<longleftrightarrow> wf_nodes nodes \<and> clears_only L"

lemma receivers_facts:
  assumes "swarm nodes L" "wf_row nodes row"
  shows "finite (receivers nodes row)" "card (receivers nodes row) = NODES_NUM - 1" "receivers nodes row \<noteq> {}"
    and "\<And>i. i < length nodes \<Longrightarrow> i = sender nodes row \<or> i \<in> receivers nodes row"
    and "sender nodes row \<notin> receivers nodes row"
    and "\<And>i. i \<in> receivers nodes row \<Longrightarrow> i < length nodes \<and> i \<noteq> sender nodes row"
proof -
  have wf: "wf_nodes nodes" "length nodes = NODES_NUM" using assms(1) by (simp_all add: swarm_def wf_nodes_def)
  note x = row_facts(3) [OF wf(1) assms(2)]
  show "finite (receivers nodes row)" by (simp add: receivers_def)
  show card: "card (receivers nodes row) = NODES_NUM - 1" using x wf(2) by (simp add: receivers_def)
  then show "receivers nodes row \<noteq> {}" by (auto simp: NODES_NUM_def)
qed (auto simp: receivers_def)

text \<open>The three messages a drone handles in a row, and the change they make.\<close>

lemma handles_line:
  assumes "swarm nodes L" "wf_row nodes row" "i \<in> receivers nodes row" "drone_at l t0 d"
  shows "\<exists>d'. receive_from_center L (nodes ! i) r d (center_line (line_for nodes row i)) =
      (d', [response_to_center (nodes ! i)]) \<and> drone_at l (time_for nodes row i) d'"
proof -
  have wf: "wf_nodes nodes" using assms(1) by (simp add: swarm_def)
  note i = receivers_facts(6) [OF assms(1,2,3)]
  have "nodes ! i \<noteq> CENTER_ADDRESS" using wf i by (simp add: wf_nodes_def)
  then show ?thesis
    using receive_rx [of "nodes ! i" "line_for nodes row i" l t0 d L r] row_facts(5,6) [OF wf assms(2), of i] i assms(4)
    by metis
qed

lemma handles_tx:
  assumes "swarm nodes L" "wf_row nodes row" "x = sender nodes row" "drone_at (S x) 0 d"
  shows "\<exists>d'. receive_from_center L (nodes ! x) r d (center_line (line_for nodes row x)) =
      (d', [row_msg nodes L row S]) \<and> drone_at (row_effect nodes L row S x) 0 d'"
proof -
  have wf: "wf_nodes nodes" "clears_only L" using assms(1) by (simp_all add: swarm_def)
  have x: "x < length nodes" using row_facts(3) [OF wf(1) assms(2)] assms(3) by simp
  then have "nodes ! x \<noteq> CENTER_ADDRESS" using wf(1) by (simp add: wf_nodes_def)
  then obtain d' where "receive_from_center L (nodes ! x) r d (center_line (line_for nodes row x)) =
      (d', [send_to_center (nodes ! x) (fst (tx_result L (S x) (time_for nodes row x)))])"
    "drone_at (snd (tx_result L (S x) (time_for nodes row x))) 0 d'"
    using receive_tx [OF wf(2), of "nodes ! x" "line_for nodes row x" "S x" d r]
      row_facts(5,6) [OF wf(1) assms(2) x] assms(3,4) by metis
  then show ?thesis using assms(3) by (simp add: row_effect_def row_message_def)
qed

lemma handles_ranging:
  assumes "swarm nodes L" "wf_row nodes row" "i \<in> receivers nodes row" "drone_at (S i) (time_for nodes row i) d"
  shows "\<exists>d'. receive_from_center L (nodes ! i) r d (row_msg nodes L row S) =
      (d', [response_to_center (nodes ! i)]) \<and> drone_at (row_effect nodes L row S i) 0 d'"
proof -
  have wf: "wf_nodes nodes" "clears_only L" using assms(1) by (simp_all add: swarm_def)
  note i = receivers_facts(6) [OF assms(1,2,3)] and x = row_facts(3) [OF wf(1) assms(2)]
  have "nodes ! sender nodes row \<noteq> nodes ! i" using wf_nodes_unique [OF wf(1) x, of i] i by auto
  moreover have "length (nodes ! sender nodes row) < ADDR_SIZE" using wf(1) x by (simp add: wf_nodes_def)
  ultimately show ?thesis
    using receive_ranging [OF wf(2), of "nodes ! sender nodes row" "nodes ! i" "S i" "time_for nodes row i" d r
        "row_message nodes L row S"] i assms(4)
    by (simp add: row_effect_def) metis
qed

text \<open>From between two rows.\<close>

lemma line_phase_start:
  assumes sw: "swarm nodes L" "wf_row nodes row" and q: "quiet nodes S s"
    and s': "s' = s\<lparr>st_resp := 0, st_flight := F_Send (row_messages nodes row)\<rparr>" "st_alloc s = 0"
  shows "line_phase nodes L S row (\<lambda>i. Unsent) T_Unsent s'"
proof -
  have wf: "wf_nodes nodes" using sw(1) by (simp add: swarm_def)
  note R = receivers_facts [OF sw] and idx = row_facts(2) [OF wf sw(2)] and x = row_facts(3) [OF wf sw(2)]
  have at: "quiet_at nodes S i s'" if "i < length nodes" for i
    using q that by (simp add: quiet_def s' quiet_at_def)
  have "acked (receivers nodes row) (\<lambda>i. Unsent) s'" using R(3) q by (simp add: acked_def s' quiet_def)
  moreover have "line_flight nodes row (\<lambda>i. Unsent) T_Unsent s'"
    using idx x R(6) q by (auto simp: line_flight_def s' quiet_def ranging_flight_def)
  moreover have "receiver_at nodes i m (S i, 0) a Unsent s'" if "i \<in> receivers nodes row" for i m a
    using at [of i] R(6) [OF that] by (simp add: receiver_at_def quiet_at_def)
  moreover have "sender_at nodes (sender nodes row) m m' (S (sender nodes row)) l T_Unsent s'" for m m' l
    using at [OF x] by (simp add: sender_at_def quiet_at_def)
  moreover have "st_alloc s' = 0" using s' by simp
  ultimately show ?thesis unfolding line_phase_def by blast
qed

lemma quiet_step:
  assumes "swarm nodes L" "quiet nodes S s" "sim_step nodes L s s'" "\<forall>row \<in> set (waiting s). wf_row nodes row"
  shows "quiet nodes S s' \<and> waiting s' = waiting s \<or>
    (\<exists>row. waiting s = row # waiting s' \<and> line_phase nodes L S row (\<lambda>i. Unsent) T_Unsent s')"
proof -
  have fl: "ranging_flight None s" and at: "\<And>i. i < length nodes \<Longrightarrow> quiet_at nodes S i s"
    using assms(2) by (simp_all add: quiet_def)
  from assms(3) show ?thesis
  proof cases
    case (flight_read row rest)
    then show ?thesis using assms(2) by (auto simp: quiet_def quiet_at_def ranging_flight_def waiting_def)
  next
    case flight_exit
    then show ?thesis using assms(2) by (auto simp: quiet_def quiet_at_def ranging_flight_def waiting_def)
  next
    case (flight_alloc row)
    then show ?thesis using assms(2) by (auto simp: quiet_def quiet_at_def ranging_flight_def waiting_def)
  next
    case (flight_resp row)
    have "wf_row nodes row" using assms(4) flight_resp by (simp add: waiting_def)
    moreover have "s' = s\<lparr>st_resp := 0, st_flight := F_Send (row_messages nodes row)\<rparr>"
      using flight_resp assms(2) by (simp add: quiet_def)
    moreover have "st_alloc s = 0" using fl flight_resp by (simp add: ranging_flight_def)
    ultimately have "line_phase nodes L S row (\<lambda>i. Unsent) T_Unsent s'"
      using line_phase_start [OF assms(1) _ assms(2)] by blast
    then show ?thesis using flight_resp by (intro disjI2 exI [of _ row]) (simp add: waiting_def)
  next
    case (drone_receive i msg rest r d replies)
    have i: "quiet_at nodes S i s" using at drone_receive by simp
    then have own: "sm_srcAddress msg = nodes ! i" "pends nodes i [] rest"
      using pends_cases [of nodes i "[]" msg rest] drone_receive by (auto simp: quiet_at_def)
    then have "d = st_drone s i" "replies = []" using drone_receive by (simp_all add: receive_own)
    then have "quiet_at nodes S j s'" if "j < length nodes" for j
      using at [OF that] own drone_receive by (auto simp: quiet_at_def)
    moreover have "waiting s' = waiting s" "ranging_flight None s'"
      using drone_receive fl by (simp_all cong: waiting_frame ranging_flight_frame)
    ultimately show ?thesis using assms(2) drone_receive by (auto simp: quiet_def)
  qed (use fl at in \<open>auto simp: ranging_flight_def quiet_at_def\<close>)
qed

text \<open>In the first half of a row. A step moves one receiver or the sender on.\<close>

definition same_at :: "('l, 'm) sim_state \<Rightarrow> ('l, 'm) sim_state \<Rightarrow> nat \<Rightarrow> bool" where
  "same_at s s' i \<longleftrightarrow> st_inbox s' i = st_inbox s i \<and> st_outbox s' i = st_outbox s i \<and>
     st_handler s' i = st_handler s i \<and> st_drone s' i = st_drone s i"

lemma line_moves_receiver:
  assumes "line_phase nodes L S row st g s" "i \<in> receivers nodes row" "\<And>j. j \<noteq> i \<Longrightarrow> same_at s s' j"
    and "receiver_at nodes i (center_line (line_for nodes row i)) (S i, 0) (S i, time_for nodes row i) h s'"
    and "acked (receivers nodes row) (st(i := h)) s'" "st_alloc s' = 0" "line_flight nodes row (st(i := h)) g s'"
  shows "line_phase nodes L S row (st(i := h)) g s'"
proof -
  have "sender nodes row \<noteq> i" using assms(2) by (auto simp: receivers_def)
  then have "sender_at nodes (sender nodes row) a b l l' g s' = sender_at nodes (sender nodes row) a b l l' g s" for a b l l'
    using assms(3) by (intro sender_at_frame) (simp_all add: same_at_def)
  moreover have "receiver_at nodes j a b c e s' = receiver_at nodes j a b c e s" if "j \<noteq> i" for j a b c e
    using assms(3) [OF that] by (intro receiver_at_frame) (simp_all add: same_at_def)
  ultimately show ?thesis using assms unfolding line_phase_def by auto
qed

lemma line_moves_sender:
  assumes "line_phase nodes L S row st g s" "\<And>j. j \<noteq> sender nodes row \<Longrightarrow> same_at s s' j"
    and "sender_at nodes (sender nodes row) (center_line (line_for nodes row (sender nodes row)))
       (row_msg nodes L row S) (S (sender nodes row)) (row_effect nodes L row S (sender nodes row)) h s'"
    and "acked (receivers nodes row) st s'" "st_alloc s' = 0" "line_flight nodes row st h s'"
  shows "line_phase nodes L S row st h s'"
proof -
  have "receiver_at nodes j a b c e s' = receiver_at nodes j a b c e s" if "j \<in> receivers nodes row" for j a b c e
    using assms(2) [of j] that by (intro receiver_at_frame) (auto simp: same_at_def receivers_def)
  then show ?thesis using assms unfolding line_phase_def by auto
qed

lemma line_flight_frame:
  "st_flight s' = st_flight s \<Longrightarrow> st_bcast s' = st_bcast s \<Longrightarrow>
   \<forall>i \<in> receivers nodes row. st' i = Unsent \<longleftrightarrow> st i = Unsent \<Longrightarrow>
   (g' = T_Unsent \<longleftrightarrow> g = T_Unsent) \<Longrightarrow> (g' = T_Resp \<longleftrightarrow> g = T_Resp) \<Longrightarrow>
     line_flight nodes row st' g' s' = line_flight nodes row st g s"
  by (auto simp: line_flight_def split: flight_pc.split)

text \<open>A line is handed out.\<close>

lemma line_send:
  assumes sw: "swarm nodes L" "wf_row nodes row" and ph: "line_phase nodes L S row st g s"
    and fl: "st_flight s = F_Send ((i, lm) # ms)"
    and s': "s' = deliver i \<lparr>sm_srcAddress = CENTER_ADDRESS, sm_payload = Line lm\<rparr> s\<lparr>st_flight := F_Send ms\<rparr>"
  shows "\<exists>st' g'. line_phase nodes L S row st' g' s'"
proof -
  have wf: "wf_nodes nodes" using sw(1) by (simp add: swarm_def)
  note R = receivers_facts [OF sw]
  have lf: "line_flight nodes row st g s" and ack: "acked (receivers nodes row) st s" and al: "st_alloc s = 0"
    using ph by (simp_all add: line_phase_def)
  from lf fl obtain pre where pre: "row_messages nodes row = pre @ (i, lm) # ms"
    and un: "\<forall>j \<in> receivers nodes row. st j = Unsent \<longleftrightarrow> j \<in> fst ` set ((i, lm) # ms)"
    and gx: "g = T_Unsent \<longleftrightarrow> sender nodes row \<in> fst ` set ((i, lm) # ms)" "g \<noteq> T_Resp" "st_bcast s = 0"
    by (auto simp: line_flight_def)
  have fresh: "i \<notin> fst ` set ms" using row_facts(1) [OF wf sw(2)] unfolding pre by auto
  have lm: "lm = line_for nodes row i" using row_facts(4) [OF wf sw(2), of i lm] pre by simp
  have "i < length nodes" using row_facts(2) [OF wf sw(2)] unfolding pre by auto
  have pre': "\<exists>pre. row_messages nodes row = pre @ ms" using pre by (intro exI [of _ "pre @ [(i, lm)]"]) simp
  have same: "same_at s s' j" if "j \<noteq> i" for j using that by (simp add: same_at_def s' deliver_def)
  from R(4) [OF \<open>i < length nodes\<close>] show ?thesis
  proof
    assume x: "i = sender nodes row"
    then have "g = T_Unsent" using gx by simp
    moreover have "sender_at nodes (sender nodes row) (center_line (line_for nodes row (sender nodes row)))
       (row_msg nodes L row S) (S (sender nodes row)) (row_effect nodes L row S (sender nodes row)) T_Told s'"
      using ph \<open>g = T_Unsent\<close> x lm by (simp add: line_phase_def sender_at_def s' deliver_def center_line_def pends_send)
    moreover have "acked (receivers nodes row) st s'" by (rule acked_same [OF ack]) (simp_all add: s' deliver_def)
    moreover have "line_flight nodes row st T_Told s'"
      using pre' un gx fresh x R(5) by (auto simp: line_flight_def s' deliver_def)
    ultimately have "line_phase nodes L S row st T_Told s'"
      using line_moves_sender [OF ph] same x al by (simp add: s' deliver_def)
    then show ?thesis by blast
  next
    assume i: "i \<in> receivers nodes row"
    then have "st i = Unsent" using un by simp
    moreover have "receiver_at nodes i (center_line (line_for nodes row i)) (S i, 0) (S i, time_for nodes row i) (st i) s"
      using ph i by (simp add: line_phase_def)
    then have "receiver_at nodes i (center_line (line_for nodes row i)) (S i, 0) (S i, time_for nodes row i) Told s'"
      using \<open>st i = Unsent\<close> lm by (simp add: receiver_at_def s' deliver_def center_line_def pends_send)
    moreover have "acked (receivers nodes row) (st(i := Told)) s'"
      using ack \<open>st i = Unsent\<close> by (subst acked_frame [where s = s and st = st]) (auto simp: s' deliver_def)
    moreover have "line_flight nodes row (st(i := Told)) g s'"
      using pre' un gx fresh i R(5) by (auto simp: line_flight_def s' deliver_def)
    ultimately have "line_phase nodes L S row (st(i := Told)) g s'"
      using line_moves_receiver [OF ph i] same al by (simp add: s' deliver_def)
    then show ?thesis by blast
  qed
qed

text \<open>The sender takes a message from its inbox.\<close>

lemma sender_receives:
  assumes "sender_at nodes x line msg l0 l1 g s" "st_inbox s x = q # rest"
    and "receive_from_center L (nodes ! x) r (st_drone s x) q = (d, replies)"
    and handles: "\<And>d. drone_at l0 0 d \<Longrightarrow>
      \<exists>d'. receive_from_center L (nodes ! x) r d line = (d', [msg]) \<and> drone_at l1 0 d'"
    and s': "st_inbox s' x = rest" "st_outbox s' x = st_outbox s x @ replies" "st_handler s' x = st_handler s x"
      "st_drone s' x = d"
  obtains g' where "sender_at nodes x line msg l0 l1 g' s'" "g' = g \<or> g = T_Told \<and> g' = T_Sent"
proof -
  have p: "pends nodes x (if g = T_Told then [line] else []) (q # rest)" using assms(1,2) by (simp add: sender_at_def)
  from pends_cases [OF p] show thesis
  proof
    assume own: "sm_srcAddress q = nodes ! x \<and> pends nodes x (if g = T_Told then [line] else []) rest"
    then have "d = st_drone s x" "replies = []" using assms(3) by (simp_all add: receive_own)
    then show thesis using own assms(1) s' by (intro that [of g]) (auto simp: sender_at_def)
  next
    assume cur: "(if g = T_Told then [line] else []) = q # rest"
    then have g: "g = T_Told" "q = line" "rest = []" by (simp_all split: if_splits)
    have "drone_at l0 0 (st_drone s x)" using assms(1) g by (simp add: sender_at_def)
    from handles [OF this] have "replies = [msg]" "drone_at l1 0 d" using assms(3) g by auto
    then show thesis using g assms(1) s' by (intro that [of T_Sent]) (auto simp: sender_at_def)
  qed
qed

text \<open>A drone takes a message from its inbox in the first half.\<close>

lemma line_receive:
  assumes sw: "swarm nodes L" "wf_row nodes row" and ph: "line_phase nodes L S row st g s"
    and i: "i < length nodes" "st_inbox s i = q # rest"
    and rc: "receive_from_center L (nodes ! i) r (st_drone s i) q = (d, replies)"
    and s': "s' = s\<lparr>st_inbox := (st_inbox s)(i := rest), st_drone := (st_drone s)(i := d),
       st_outbox := (st_outbox s)(i := st_outbox s i @ replies)\<rparr>"
  shows "\<exists>st' g'. line_phase nodes L S row st' g' s'"
proof -
  note R = receivers_facts [OF sw]
  have lf: "line_flight nodes row st g s" and ack: "acked (receivers nodes row) st s" and al: "st_alloc s = 0"
    using ph by (simp_all add: line_phase_def)
  have same: "same_at s s' j" if "j \<noteq> i" for j using that by (simp add: same_at_def s')
  have here: "st_inbox s' i = rest" "st_outbox s' i = st_outbox s i @ replies" "st_handler s' i = st_handler s i"
    "st_drone s' i = d" by (simp_all add: s')
  from R(4) [OF i(1)] show ?thesis
  proof
    assume x: "i = sender nodes row"
    have sa: "sender_at nodes i (center_line (line_for nodes row i)) (row_msg nodes L row S) (S i)
        (row_effect nodes L row S i) g s" using ph x by (simp add: line_phase_def)
    obtain h where h: "sender_at nodes i (center_line (line_for nodes row i)) (row_msg nodes L row S) (S i)
        (row_effect nodes L row S i) h s'" "h = g \<or> g = T_Told \<and> h = T_Sent"
      by (rule sender_receives [OF sa i(2) rc handles_tx [OF sw x] here])
    have "acked (receivers nodes row) st s'" by (rule acked_same [OF ack]) (simp_all add: s')
    moreover have "line_flight nodes row st h s'"
      using lf h(2) by (subst line_flight_frame [where s = s and st = st and g = g]) (auto simp: s')
    ultimately have "line_phase nodes L S row st h s'"
      using line_moves_sender [OF ph] same x h(1) al by (simp add: s')
    then show ?thesis by blast
  next
    assume ir: "i \<in> receivers nodes row"
    have ra: "receiver_at nodes i (center_line (line_for nodes row i)) (S i, 0) (S i, time_for nodes row i) (st i) s"
      using ph ir by (simp add: line_phase_def)
    obtain h where h: "receiver_at nodes i (center_line (line_for nodes row i)) (S i, 0) (S i, time_for nodes row i) h s'"
      "h = st i \<or> st i = Told \<and> h = Replied"
      by (rule receiver_receives [OF ra i(2) rc handles_line [OF sw ir] here])
    have "acked (receivers nodes row) (st(i := h)) s'"
      using ack h(2) by (subst acked_frame [where s = s and st = st]) (auto simp: s')
    moreover have "line_flight nodes row (st(i := h)) g s'"
      using lf h(2) by (subst line_flight_frame [where s = s and st = st and g = g]) (auto simp: s')
    ultimately have "line_phase nodes L S row (st(i := h)) g s'"
      using line_moves_receiver [OF ph ir] same h(1) al by (simp add: s')
    then show ?thesis by blast
  qed
qed

text \<open>The thread of a drone that receives from it or waits, in the first half.\<close>

lemma line_response:
  assumes sw: "swarm nodes L" "wf_row nodes row" and ph: "line_phase nodes L S row st g s"
    and i: "i < length nodes" "st_outbox s i = q # rest" "\<not> (\<exists>m. sm_payload q = Ranging m)"
    and s': "s' = count_response s\<lparr>st_outbox := (st_outbox s)(i := rest)\<rparr>"
  shows "\<exists>st' g'. line_phase nodes L S row st' g' s'"
proof -
  note R = receivers_facts [OF sw]
  have lf: "line_flight nodes row st g s" and ack: "acked (receivers nodes row) st s" and al: "st_alloc s = 0"
    and sa: "st_outbox s (sender nodes row) = (if g = T_Sent then [row_msg nodes L row S] else [])"
    using ph by (simp_all add: line_phase_def sender_at_def)
  have "i \<noteq> sender nodes row" using sa i(2,3) by (auto simp: send_to_center_def split: if_splits)
  then have ir: "i \<in> receivers nodes row" using R(4) [OF i(1)] by blast
  have ra: "receiver_at nodes i (center_line (line_for nodes row i)) (S i, 0) (S i, time_for nodes row i) (st i) s"
    using ph ir by (simp add: line_phase_def)
  then have st: "st i = Replied" "rest = []" using i(2) by (auto simp: receiver_at_def split: if_splits)
  have c: "st_flight (count_response s) = st_flight s" "st_bcast (count_response s) = st_bcast s"
    "st_alloc (count_response s) = st_alloc s" "st_inbox (count_response s) = st_inbox s"
    "st_handler (count_response s) = st_handler s" "st_drone (count_response s) = st_drone s"
    by (simp_all add: count_response_def)
  have "receiver_at nodes i (center_line (line_for nodes row i)) (S i, 0) (S i, time_for nodes row i) Counted s'"
    using ra st c by (simp add: receiver_at_def s')
  moreover have "acked (receivers nodes row) (st(i := Counted)) s'"
    by (rule acked_count [OF ack ir _ R(1,2)]) (simp_all add: st s')
  moreover have "line_flight nodes row (st(i := Counted)) g s'"
    using lf st by (subst line_flight_frame [where s = s and st = st and g = g]) (auto simp: s' c)
  moreover have "same_at s s' j" if "j \<noteq> i" for j using that c by (simp add: same_at_def s' count_response_def)
  ultimately have "line_phase nodes L S row (st(i := Counted)) g s'"
    using line_moves_receiver [OF ph ir] al c by (simp add: s')
  then show ?thesis by blast
qed

lemma line_step:
  assumes sw: "swarm nodes L" "wf_row nodes row" and ph: "line_phase nodes L S row st g s"
    and step: "sim_step nodes L s s'"
  shows "waiting s' = waiting s \<and> ((\<exists>st' g'. line_phase nodes L S row st' g' s') \<or>
    ranging_phase nodes L S row (\<lambda>i. Unsent) (Some 0) s')"
proof -
  let ?x = "sender nodes row"
  note R = receivers_facts [OF sw]
  have lf: "line_flight nodes row st g s" and ack: "acked (receivers nodes row) st s" and al: "st_alloc s = 0"
    and ra: "\<And>i. i \<in> receivers nodes row \<Longrightarrow> receiver_at nodes i (center_line (line_for nodes row i))
      (S i, 0) (S i, time_for nodes row i) (st i) s"
    and sa: "sender_at nodes ?x (center_line (line_for nodes row ?x)) (row_msg nodes L row S) (S ?x)
      (row_effect nodes L row S ?x) g s"
    using ph by (simp_all add: line_phase_def)
  text \<open>A thread that is not receiving is the sender's.\<close>
  have busy: "i = ?x" if "i < length nodes" "st_handler s i \<noteq> H_Recv" for i
    using R(4) [OF that(1)] ra that(2) by (auto simp: receiver_at_def)
  have reply: "q = response_to_center (nodes ! i)" if "i \<in> receivers nodes row" "st_outbox s i = q # rest" for i q rest
    using ra [OF that(1)] that(2) by (simp add: receiver_at_def split: if_splits)
  have flight: "line_phase nodes L S row st g s'"
    if "st_inbox s' = st_inbox s" "st_outbox s' = st_outbox s" "st_handler s' = st_handler s" "st_drone s' = st_drone s"
      "st_resp s' = st_resp s" "st_count s' = st_count s" "st_alloc s' = 0" "line_flight nodes row st g s'"
    using line_moves_sender [OF ph, of s' g] sa that acked_same [OF ack, of s']
    by (simp add: same_at_def sender_at_def)
  from step show ?thesis
  proof cases
    case (flight_read r rest)
    then have "line_phase nodes L S row st g s'" using lf al by (intro flight) (simp_all add: line_flight_def)
    then show ?thesis using flight_read by (auto simp: waiting_def)
  next
    case flight_exit
    then have "line_phase nodes L S row st g s'" using lf al by (intro flight) (simp_all add: line_flight_def)
    then show ?thesis using flight_exit by (auto simp: waiting_def)
  next
    case (flight_alloc r)
    then show ?thesis using al by simp
  next
    case (flight_resp r)
    then show ?thesis using lf by (simp add: line_flight_def)
  next
    case (flight_send i lm ms)
    then show ?thesis using line_send [OF sw ph] by (simp add: waiting_def deliver_def)
  next
    case flight_post
    then have "line_phase nodes L S row st g s'" using lf al by (intro flight) (simp_all add: line_flight_def)
    then show ?thesis using flight_post by (auto simp: waiting_def)
  next
    case (handler_ranging i msg rest m)
    then have "i \<notin> receivers nodes row" using reply [of i msg rest] by (auto simp: response_to_center_def)
    then have x: "i = ?x" using R(4) handler_ranging by blast
    then have g: "g = T_Sent" "rest = []" "msg = row_msg nodes L row S"
      using sa handler_ranging by (auto simp: sender_at_def split: if_splits)
    have "line_phase nodes L S row st T_Bcast s'"
    proof (rule line_moves_sender [OF ph])
      show "line_flight nodes row st T_Bcast s'"
        using lf g handler_ranging by (subst line_flight_frame [where s = s and st = st and g = g]) auto
    qed (use sa g x handler_ranging al acked_same [OF ack, of s'] in \<open>auto simp: same_at_def sender_at_def\<close>)
    moreover have "waiting s' = waiting s" by (rule waiting_frame) (simp_all add: handler_ranging)
    ultimately show ?thesis by blast
  next
    case (handler_response i msg rest)
    then have "\<exists>st' g'. line_phase nodes L S row st' g' s'" using line_response [OF sw ph] by blast
    moreover have "waiting s' = waiting s" by (rule waiting_frame) (simp_all add: handler_response count_response_def)
    ultimately show ?thesis by blast
  next
    case (handler_bcast i msg)
    then have x: "i = ?x" using busy by simp
    then have g: "g = T_Bcast" "msg = row_msg nodes L row S"
      using sa handler_bcast by (auto simp: sender_at_def split: tx_stage.splits)
    have "line_phase nodes L S row st T_Resp s'"
    proof (rule line_moves_sender [OF ph])
      show "line_flight nodes row st T_Resp s'"
        using lf g handler_bcast by (auto simp: line_flight_def split: flight_pc.splits)
    qed (use sa g x handler_bcast al acked_same [OF ack, of s'] in \<open>auto simp: same_at_def sender_at_def\<close>)
    moreover have "waiting s' = waiting s" by (rule waiting_frame) (simp_all add: handler_bcast)
    ultimately show ?thesis by blast
  next
    case (handler_resp i msg)
    then have x: "i = ?x" using busy by simp
    then have g: "g = T_Resp" "msg = row_msg nodes L row S"
      using sa handler_resp by (auto simp: sender_at_def split: tx_stage.splits)
    have all: "\<forall>i \<in> receivers nodes row. st i = Counted" and one: "st_resp s = 1" "st_count s = 0"
      using ack handler_resp by (auto simp: acked_def split: if_splits)
    have "ranging_phase nodes L S row (\<lambda>i. Unsent) (Some 0) s'"
      unfolding ranging_phase_def
    proof (intro conjI ballI)
      show "acked (receivers nodes row) (\<lambda>i. Unsent) s'" using R(3) one handler_resp by (simp add: acked_def)
      show "ranging_flight (Some 0) s'" using lf g al handler_resp
        by (auto simp: line_flight_def ranging_flight_def split: flight_pc.splits)
      show "receiver_at nodes i (row_msg nodes L row S) (S i, time_for nodes row i) (row_effect nodes L row S i, 0) Unsent s'"
        if "i \<in> receivers nodes row" for i
        using ra [OF that] all that x R(5) handler_resp by (auto simp: receiver_at_def)
    qed (use sa g x handler_resp in \<open>simp_all add: sender_at_def\<close>)
    moreover have "waiting s' = waiting s" by (rule waiting_frame) (simp_all add: handler_resp)
    ultimately show ?thesis by blast
  next
    case (handler_send i msg k)
    then show ?thesis using busy [of i] sa by (auto simp: sender_at_def split: tx_stage.splits)
  next
    case (handler_post i msg k)
    then show ?thesis using busy [of i] sa by (auto simp: sender_at_def split: tx_stage.splits)
  next
    case (drone_receive i msg rest r d replies)
    then have "\<exists>st' g'. line_phase nodes L S row st' g' s'" using line_receive [OF sw ph] by blast
    moreover have "waiting s' = waiting s" by (rule waiting_frame) (simp_all add: drone_receive)
    ultimately show ?thesis by blast
  qed
qed

text \<open>In the second half.\<close>

lemma ranging_moves_receiver:
  assumes "ranging_phase nodes L S row st k s" "i \<in> receivers nodes row" "\<And>j. j \<noteq> i \<Longrightarrow> same_at s s' j"
    and "receiver_at nodes i (row_msg nodes L row S) (S i, time_for nodes row i) (row_effect nodes L row S i, 0) h s'"
    and "h = Unsent \<longleftrightarrow> st i = Unsent" "acked (receivers nodes row) (st(i := h)) s'" "ranging_flight k s'"
  shows "ranging_phase nodes L S row (st(i := h)) k s'"
proof -
  have "same_at s s' (sender nodes row)" using assms(2) by (intro assms(3)) (auto simp: receivers_def)
  moreover have "receiver_at nodes j a b c e s' = receiver_at nodes j a b c e s" if "j \<noteq> i" for j a b c e
    using assms(3) [OF that] by (intro receiver_at_frame) (simp_all add: same_at_def)
  ultimately show ?thesis using assms unfolding ranging_phase_def by (auto simp: same_at_def)
qed

text \<open>A step at the sender, or of the log thread, leaves the receivers alone.\<close>

lemma ranging_moves_sender:
  assumes "ranging_phase nodes L S row st k s" "\<And>j. j \<noteq> sender nodes row \<Longrightarrow> same_at s s' j"
    and "\<And>i. i \<in> receivers nodes row \<Longrightarrow> (case k of Some j \<Rightarrow> j \<le> i | None \<Rightarrow> False) =
      (case k' of Some j \<Rightarrow> j \<le> i | None \<Rightarrow> False)"
    and "st_resp s' = st_resp s" "st_count s' = st_count s" "ranging_flight k' s'"
    and "pends nodes (sender nodes row) [] (st_inbox s' (sender nodes row))" "st_outbox s' (sender nodes row) = []"
      "drone_at (row_effect nodes L row S (sender nodes row)) 0 (st_drone s' (sender nodes row))"
      "st_handler s' (sender nodes row) = (case k' of Some j \<Rightarrow> H_Send (row_msg nodes L row S) j | None \<Rightarrow> H_Recv)"
  shows "ranging_phase nodes L S row st k' s'"
proof -
  have "receiver_at nodes j a b c e s' = receiver_at nodes j a b c e s" if "j \<in> receivers nodes row" for j a b c e
    using assms(2) [of j] that by (intro receiver_at_frame) (auto simp: same_at_def receivers_def)
  then show ?thesis using assms acked_same [of _ st s s'] unfolding ranging_phase_def by auto
qed

lemma ranging_done:
  assumes "swarm nodes L" "wf_row nodes row" "ranging_phase nodes L S row st None s" "\<forall>i \<in> receivers nodes row. st i = Counted"
  shows "quiet nodes (row_effect nodes L row S) s"
proof -
  have "quiet_at nodes (row_effect nodes L row S) i s" if "i < length nodes" for i
    using receivers_facts(4) [OF assms(1,2) that]
  proof
    assume "i \<in> receivers nodes row"
    then have "receiver_at nodes i (row_msg nodes L row S) (S i, time_for nodes row i) (row_effect nodes L row S i, 0) Counted s"
      using assms(3,4) by (auto simp: ranging_phase_def)
    then show ?thesis by (simp add: receiver_at_def quiet_at_def)
  qed (use assms(3) in \<open>simp add: ranging_phase_def quiet_at_def\<close>)
  then show ?thesis using assms(3,4) by (auto simp: quiet_def ranging_phase_def acked_def)
qed

text \<open>The broadcast reaches one more drone.\<close>

lemma ranging_send:
  assumes sw: "swarm nodes L" "wf_row nodes row" and ph: "ranging_phase nodes L S row st (Some k) s" and k: "k < length nodes"
    and s': "s' = deliver k (row_msg nodes L row S) s\<lparr>st_handler := (st_handler s)
       (sender nodes row := H_Send (row_msg nodes L row S) (k + 1))\<rparr>"
  shows "\<exists>st'. ranging_phase nodes L S row st' (Some (k + 1)) s'"
proof -
  let ?x = "sender nodes row" and ?msg = "row_msg nodes L row S"
  have wf: "wf_nodes nodes" using sw(1) by (simp add: swarm_def)
  note R = receivers_facts [OF sw]
  have ack: "acked (receivers nodes row) st s" and fl: "ranging_flight (Some k) s"
    and xs: "pends nodes ?x [] (st_inbox s ?x)" "st_outbox s ?x = []" "drone_at (row_effect nodes L row S ?x) 0 (st_drone s ?x)"
    using ph by (simp_all add: ranging_phase_def)
  have fl': "ranging_flight (Some (k + 1)) s'"
    using fl by (simp add: ranging_flight_def s' deliver_def split: flight_pc.splits)
  have "length (nodes ! ?x) < ADDR_SIZE" using wf row_facts(3) [OF wf sw(2)] by (simp add: wf_nodes_def)
  then have src: "sm_srcAddress ?msg = nodes ! ?x" by (simp add: send_to_center_def)
  from R(4) [OF k] show ?thesis
  proof
    assume x: "k = ?x"
    have "ranging_phase nodes L S row st (Some (k + 1)) s'"
    proof (rule ranging_moves_sender [OF ph])
      show "pends nodes ?x [] (st_inbox s' ?x)" using pends_send_own [OF xs(1) src] x by (simp add: s' deliver_def)
      show "(case Some k of Some j \<Rightarrow> j \<le> i | None \<Rightarrow> False) = (case Some (k + 1) of Some j \<Rightarrow> j \<le> i | None \<Rightarrow> False)"
        if "i \<in> receivers nodes row" for i using R(6) [OF that] x by auto
    qed (use xs x fl' in \<open>simp_all add: s' deliver_def same_at_def\<close>)
    then show ?thesis by blast
  next
    assume kr: "k \<in> receivers nodes row"
    let ?st = "st(k := Told)"
    have st: "st k = Unsent" using ph kr by (auto simp: ranging_phase_def)
    have old: "receiver_at nodes i ?msg (S i, time_for nodes row i) (row_effect nodes L row S i, 0) (st i) s \<and>
      (st i = Unsent \<longleftrightarrow> k \<le> i)" if "i \<in> receivers nodes row" for i
      using ph that by (simp add: ranging_phase_def)
    have rec: "receiver_at nodes i ?msg (S i, time_for nodes row i) (row_effect nodes L row S i, 0) (?st i) s' \<and>
      (?st i = Unsent \<longleftrightarrow> k + 1 \<le> i)" if ir: "i \<in> receivers nodes row" for i
    proof (cases "i = k")
      case True
      then show ?thesis using old [OF kr] st R(6) [OF kr]
        by (simp add: receiver_at_def s' deliver_def pends_send)
    next
      case False
      have "receiver_at nodes i a b c e s' = receiver_at nodes i a b c e s" for a b c e
        using False R(6) [OF ir] by (intro receiver_at_frame) (auto simp: s' deliver_def)
      then show ?thesis using old [OF ir] False by auto
    qed
    have "acked (receivers nodes row) ?st s'"
      using ack st by (subst acked_frame [where s = s and st = st]) (auto simp: s' deliver_def)
    then have "ranging_phase nodes L S row ?st (Some (k + 1)) s'"
      using rec fl' xs R(6) [OF kr] by (simp add: ranging_phase_def s' deliver_def)
    then show ?thesis by blast
  qed
qed

lemma ranging_receive:
  assumes sw: "swarm nodes L" "wf_row nodes row" and ph: "ranging_phase nodes L S row st k s"
    and i: "i < length nodes" "st_inbox s i = q # rest"
    and rc: "receive_from_center L (nodes ! i) r (st_drone s i) q = (d, replies)"
    and s': "s' = s\<lparr>st_inbox := (st_inbox s)(i := rest), st_drone := (st_drone s)(i := d),
       st_outbox := (st_outbox s)(i := st_outbox s i @ replies)\<rparr>"
  shows "\<exists>st'. ranging_phase nodes L S row st' k s'"
proof -
  let ?x = "sender nodes row"
  note R = receivers_facts [OF sw]
  have ack: "acked (receivers nodes row) st s" and fl: "ranging_flight k s"
    using ph by (simp_all add: ranging_phase_def)
  have fl': "ranging_flight k s'" using fl by (subst ranging_flight_frame [where s = s]) (simp_all add: s')
  have same: "same_at s s' j" if "j \<noteq> i" for j using that by (simp add: same_at_def s')
  have here: "st_inbox s' i = rest" "st_outbox s' i = st_outbox s i @ replies" "st_handler s' i = st_handler s i"
    "st_drone s' i = d" by (simp_all add: s')
  from R(4) [OF i(1)] show ?thesis
  proof
    assume x: "i = ?x"
    then have "sm_srcAddress q = nodes ! i" "pends nodes i [] rest"
      using ph i(2) pends_cases [of nodes i "[]" q rest] by (auto simp: ranging_phase_def)
    moreover from this(1) rc have "d = st_drone s i" "replies = []" by (simp_all add: receive_own)
    ultimately have "ranging_phase nodes L S row st k s'"
      using ph x fl' same by (intro ranging_moves_sender [OF ph]) (simp_all add: ranging_phase_def s')
    then show ?thesis by blast
  next
    assume ir: "i \<in> receivers nodes row"
    then have ra: "receiver_at nodes i (row_msg nodes L row S) (S i, time_for nodes row i) (row_effect nodes L row S i, 0) (st i) s"
      using ph by (simp add: ranging_phase_def)
    obtain h where h: "receiver_at nodes i (row_msg nodes L row S) (S i, time_for nodes row i) (row_effect nodes L row S i, 0) h s'"
      "h = st i \<or> st i = Told \<and> h = Replied"
      by (rule receiver_receives [OF ra i(2) rc handles_ranging [OF sw ir] here])
    have "acked (receivers nodes row) (st(i := h)) s'"
      using ack h(2) by (subst acked_frame [where s = s and st = st]) (auto simp: s')
    then have "ranging_phase nodes L S row (st(i := h)) k s'"
      using ranging_moves_receiver [OF ph ir same h(1)] h(2) fl' by auto
    then show ?thesis by blast
  qed
qed

lemma ranging_response:
  assumes sw: "swarm nodes L" "wf_row nodes row" and ph: "ranging_phase nodes L S row st k s"
    and i: "i < length nodes" "st_outbox s i = q # rest"
    and s': "s' = count_response s\<lparr>st_outbox := (st_outbox s)(i := rest)\<rparr>"
  shows "\<exists>st'. ranging_phase nodes L S row st' k s'"
proof -
  note R = receivers_facts [OF sw]
  have ack: "acked (receivers nodes row) st s" and fl: "ranging_flight k s"
    using ph by (simp_all add: ranging_phase_def)
  have ir: "i \<in> receivers nodes row" using R(4) [OF i(1)] ph i(2) by (auto simp: ranging_phase_def)
  then have ra: "receiver_at nodes i (row_msg nodes L row S) (S i, time_for nodes row i) (row_effect nodes L row S i, 0) (st i) s"
    using ph by (simp add: ranging_phase_def)
  then have st: "st i = Replied" "rest = []" using i(2) by (auto simp: receiver_at_def split: if_splits)
  have c: "st_flight (count_response s) = st_flight s" "st_bcast (count_response s) = st_bcast s"
    "st_alloc (count_response s) = st_alloc s" "st_inbox (count_response s) = st_inbox s"
    "st_handler (count_response s) = st_handler s" "st_drone (count_response s) = st_drone s"
    "st_outbox (count_response s) = st_outbox s"
    by (simp_all add: count_response_def)
  have "receiver_at nodes i (row_msg nodes L row S) (S i, time_for nodes row i) (row_effect nodes L row S i, 0) Counted s'"
    using ra st c by (simp add: receiver_at_def s')
  moreover have "acked (receivers nodes row) (st(i := Counted)) s'"
    by (rule acked_count [OF ack ir _ R(1,2)]) (simp_all add: st s')
  moreover have "ranging_flight k s'" using fl by (subst ranging_flight_frame [where s = s]) (simp_all add: s' c)
  moreover have "same_at s s' j" if "j \<noteq> i" for j using that c by (simp add: same_at_def s')
  ultimately have "ranging_phase nodes L S row (st(i := Counted)) k s'"
    using st by (intro ranging_moves_receiver [OF ph ir]) simp_all
  then show ?thesis by blast
qed

lemma ranging_step:
  assumes sw: "swarm nodes L" "wf_row nodes row" and ph: "ranging_phase nodes L S row st k s"
    and step: "sim_step nodes L s s'" and wf: "\<forall>row \<in> set (waiting s). wf_row nodes row"
  shows "waiting s' = waiting s \<and> ((\<exists>st' k'. ranging_phase nodes L S row st' k' s') \<or>
      quiet nodes (row_effect nodes L row S) s') \<or>
    (\<exists>r. waiting s = r # waiting s' \<and> line_phase nodes L (row_effect nodes L row S) r (\<lambda>i. Unsent) T_Unsent s')"
proof -
  let ?x = "sender nodes row"
  note R = receivers_facts [OF sw]
  have ack: "acked (receivers nodes row) st s" and fl: "ranging_flight k s"
    and ra: "\<And>i. i \<in> receivers nodes row \<Longrightarrow> receiver_at nodes i (row_msg nodes L row S)
        (S i, time_for nodes row i) (row_effect nodes L row S i, 0) (st i) s"
    and xs: "pends nodes ?x [] (st_inbox s ?x)" "st_outbox s ?x = []" "drone_at (row_effect nodes L row S ?x) 0 (st_drone s ?x)"
      "st_handler s ?x = (case k of Some j \<Rightarrow> H_Send (row_msg nodes L row S) j | None \<Rightarrow> H_Recv)"
    using ph by (simp_all add: ranging_phase_def)
  have busy: "i = ?x" if "i < length nodes" "st_handler s i \<noteq> H_Recv" for i
    using R(4) [OF that(1)] ra that(2) by (auto simp: receiver_at_def)
  have flight: "ranging_phase nodes L S row st k s'"
    if "st_inbox s' = st_inbox s" "st_outbox s' = st_outbox s" "st_handler s' = st_handler s" "st_drone s' = st_drone s"
      "st_resp s' = st_resp s" "st_count s' = st_count s" "ranging_flight k s'"
    using xs that by (intro ranging_moves_sender [OF ph]) (simp_all add: same_at_def)
  from step show ?thesis
  proof cases
    case (flight_read r rest)
    then have "ranging_phase nodes L S row st k s'" using fl by (intro flight) (simp_all add: ranging_flight_def)
    moreover have "waiting s' = waiting s" using flight_read by (simp add: waiting_def)
    ultimately show ?thesis by blast
  next
    case flight_exit
    then have "ranging_phase nodes L S row st k s'" using fl by (intro flight) (simp_all add: ranging_flight_def)
    moreover have "waiting s' = waiting s" using flight_exit by (simp add: waiting_def)
    ultimately show ?thesis by blast
  next
    case (flight_alloc r)
    then have "ranging_phase nodes L S row st k s'" using fl
      by (intro flight) (auto simp: ranging_flight_def split: if_splits)
    moreover have "waiting s' = waiting s" using flight_alloc by (simp add: waiting_def)
    ultimately show ?thesis by blast
  next
    case (flight_resp r)
    have k: "k = None" using fl flight_resp by (simp add: ranging_flight_def)
    have "\<forall>i \<in> receivers nodes row. st i = Counted" using ack flight_resp by (auto simp: acked_def split: if_splits)
    then have "quiet nodes (row_effect nodes L row S) s" using ranging_done [OF sw] ph k by blast
    from quiet_step [OF sw(1) this step wf] show ?thesis by blast
  next
    case (flight_send i lm ms)
    then show ?thesis using fl by (simp add: ranging_flight_def)
  next
    case flight_post
    then show ?thesis using fl by (simp add: ranging_flight_def)
  next
    case (handler_ranging i msg rest m)
    then have "i \<in> receivers nodes row" using R(4) xs(2) by fastforce
    from ra [OF this] handler_ranging show ?thesis
      by (simp add: receiver_at_def response_to_center_def split: if_splits)
  next
    case (handler_response i msg rest)
    then have "\<exists>st'. ranging_phase nodes L S row st' k s'" using ranging_response [OF sw ph] by blast
    moreover have "waiting s' = waiting s" by (rule waiting_frame) (simp_all add: handler_response count_response_def)
    ultimately show ?thesis by blast
  next
    case (handler_bcast i msg)
    then have "i = ?x" using busy by simp
    then show ?thesis using xs(4) handler_bcast by (simp split: option.splits)
  next
    case (handler_resp i msg)
    then have "i = ?x" using busy by simp
    then show ?thesis using xs(4) handler_resp by (simp split: option.splits)
  next
    case (handler_send i msg j)
    then have x: "i = ?x" using busy by simp
    then have k: "k = Some j" "msg = row_msg nodes L row S" using xs(4) handler_send by (simp_all split: option.splits)
    have "\<exists>st'. ranging_phase nodes L S row st' (Some (j + 1)) s'"
      using ranging_send [OF sw ph [unfolded k(1)]] handler_send x k(2) by blast
    moreover have "waiting s' = waiting s" by (rule waiting_frame) (simp_all add: handler_send deliver_def)
    ultimately show ?thesis by blast
  next
    case (handler_post i msg j)
    then have x: "i = ?x" using busy by simp
    then have k: "k = Some j" using xs(4) handler_post by (simp split: option.splits)
    have "ranging_phase nodes L S row st None s'"
    proof (rule ranging_moves_sender [OF ph])
      show "ranging_flight None s'" using fl k handler_post by (simp add: ranging_flight_def split: flight_pc.splits)
      show "(case k of Some j \<Rightarrow> j \<le> i | None \<Rightarrow> False) = (case None of Some j \<Rightarrow> j \<le> i | None \<Rightarrow> False)"
        if "i \<in> receivers nodes row" for i using R(6) [OF that] k handler_post(5) by auto
    qed (use xs x handler_post in \<open>simp_all add: same_at_def\<close>)
    moreover have "waiting s' = waiting s" by (rule waiting_frame) (simp_all add: handler_post)
    ultimately show ?thesis by blast
  next
    case (drone_receive i msg rest r d replies)
    then have "\<exists>st'. ranging_phase nodes L S row st' k s'" using ranging_receive [OF sw ph] by blast
    moreover have "waiting s' = waiting s" by (rule waiting_frame) (simp_all add: drone_receive)
    ultimately show ?thesis by blast
  qed
qed

section \<open>Reachable states\<close>

lemma sim_inv_start: "sim_inv nodes L rows libs (sim_start rows libs csv)"
  by (auto simp: sim_inv_def sim_start_def quiet_def quiet_at_def ranging_flight_def waiting_def drone_at_def
      after_rows_def intro!: exI [of _ 0])

lemma exited_step:
  assumes "sim_step nodes L s s'" "st_exited s \<longrightarrow> st_flight s = F_Read \<and> st_rows s = []"
  shows "st_exited s' \<longrightarrow> st_flight s' = F_Read \<and> st_rows s' = []"
  using assms by cases (auto simp: deliver_def count_response_def)

lemma sim_inv_step:
  assumes sw: "swarm nodes L" and wf: "\<forall>row \<in> set rows. wf_row nodes row"
    and inv: "sim_inv nodes L rows libs s" and step: "sim_step nodes L s s'"
  shows "sim_inv nodes L rows libs s'"
proof -
  let ?after = "\<lambda>k. after_rows nodes L (take k rows) libs"
  have ex: "st_exited s' \<longrightarrow> st_flight s' = F_Read \<and> st_rows s' = []"
    using exited_step [OF step] inv by (simp add: sim_inv_def)
  have sub: "\<forall>row \<in> set (drop k rows). wf_row nodes row" for k using wf set_drop_subset by fastforce
  have started: "k < length rows \<and> r = rows ! k \<and> waiting s' = drop (Suc k) rows"
    if "drop k rows = r # waiting s'" for k r
  proof -
    have "k < length rows" using that by (cases "k < length rows") simp_all
    then show ?thesis using that by (simp add: Cons_nth_drop_Suc [symmetric])
  qed
  from inv consider (q) k where "k \<le> length rows" "waiting s = drop k rows" "quiet nodes (?after k) s"
    | (l) k st g where "k < length rows" "waiting s = drop (Suc k) rows" "line_phase nodes L (?after k) (rows ! k) st g s"
    | (r) k st j where "k < length rows" "waiting s = drop (Suc k) rows" "ranging_phase nodes L (?after k) (rows ! k) st j s"
    unfolding sim_inv_def by blast
  then show ?thesis
  proof cases
    case q
    from quiet_step [OF sw q(3) step sub [of k, folded q(2)]] show ?thesis
    proof (elim disjE exE conjE)
      fix r assume *: "waiting s = r # waiting s'" "line_phase nodes L (?after k) r (\<lambda>i. Unsent) T_Unsent s'"
      then have "k < length rows \<and> r = rows ! k \<and> waiting s' = drop (Suc k) rows" using started q(2) by simp
      then show ?thesis using ex *(2) unfolding sim_inv_def by blast
    qed (use ex q in \<open>auto simp: sim_inv_def\<close>)
  next
    case l
    from line_step [OF sw _ l(3) step] wf l(1) show ?thesis using ex l(1,2) unfolding sim_inv_def by (metis nth_mem)
  next
    case r
    have row: "wf_row nodes (rows ! k)" using wf r(1) by simp
    have next_k: "row_effect nodes L (rows ! k) (?after k) = ?after (Suc k)" by (rule after_rows_Suc [OF r(1), symmetric])
    from ranging_step [OF sw row r(3) step sub [of "Suc k", folded r(2)]] show ?thesis
    proof (elim disjE exE conjE)
      fix st' k' assume "waiting s' = waiting s" "ranging_phase nodes L (?after k) (rows ! k) st' k' s'"
      then show ?thesis using ex r(1,2) unfolding sim_inv_def by metis
    next
      assume "waiting s' = waiting s" "quiet nodes (row_effect nodes L (rows ! k) (?after k)) s'"
      then show ?thesis using ex r(1,2) next_k unfolding sim_inv_def by (metis Suc_leI)
    next
      fix r' assume *: "waiting s = r' # waiting s'"
        "line_phase nodes L (row_effect nodes L (rows ! k) (?after k)) r' (\<lambda>i. Unsent) T_Unsent s'"
      then have "Suc k < length rows \<and> r' = rows ! Suc k \<and> waiting s' = drop (Suc (Suc k)) rows"
        using started r(2) by simp
      then show ?thesis using ex *(2) unfolding sim_inv_def next_k by blast
    qed
  qed
qed

lemma sim_inv_reachable:
  assumes "swarm nodes L" "\<forall>row \<in> set rows. wf_row nodes row" "sim_reachable nodes L (sim_start rows libs csv) s"
  shows "sim_inv nodes L rows libs s"
  using assms(3)
  by induction (use assms(1,2) sim_inv_start sim_inv_step in blast)+

end
