(* ===== verification/Simulation_Progress.thy ===== *)
theory Simulation_Progress
  imports Simulation_Invariant
begin

text \<open>
  The simulation ends: every step makes the work that is left smaller, whatever the library and the
  drones are, and with a well-formed swarm and log some thread can go on until the center exits. An
  executable scheduler makes the step relation run on a list of choices.
\<close>

section \<open>The work that is left\<close>

text \<open>
  A line makes its drone send a message of the library or a response, such a message is broadcast to
  all drones, and a drone answers it with a response. So each kind weighs more than what it leads to.
\<close>

definition in_weight :: "nat \<Rightarrow> 'm Simu_Message \<Rightarrow> nat" where
  "in_weight n msg = (case sm_payload msg of Line _ \<Rightarrow> 3 * n + 5 | Ranging _ \<Rightarrow> 2 | Response \<Rightarrow> 1)"

definition out_weight :: "nat \<Rightarrow> 'm Simu_Message \<Rightarrow> nat" where
  "out_weight n msg = (case sm_payload msg of Ranging _ \<Rightarrow> 3 * n + 4 | _ \<Rightarrow> 1)"

fun handler_weight :: "nat \<Rightarrow> 'm handler_pc \<Rightarrow> nat" where
  "handler_weight n H_Recv = 0"
| "handler_weight n (H_Bcast msg) = n * (in_weight n msg + 1) + 3"
| "handler_weight n (H_Resp msg) = n * (in_weight n msg + 1) + 2"
| "handler_weight n (H_Send msg k) = (n - k) * (in_weight n msg + 1) + 1"

definition row_weight :: "string list \<Rightarrow> log_row \<Rightarrow> nat" where
  "row_weight nodes row = (3 * length nodes + 6) * length (row_messages nodes row)"

fun flight_weight :: "string list \<Rightarrow> flight_pc \<Rightarrow> nat" where
  "flight_weight nodes F_Read = 1"
| "flight_weight nodes (F_Alloc row) = row_weight nodes row + 4"
| "flight_weight nodes (F_Resp row) = row_weight nodes row + 3"
| "flight_weight nodes (F_Send ms) = (3 * length nodes + 6) * length ms + 2"

definition total :: "nat \<Rightarrow> ('a \<Rightarrow> nat) \<Rightarrow> (nat \<Rightarrow> 'a) \<Rightarrow> nat" where
  "total n weight f = (\<Sum>i<n. weight (f i))"

definition sim_work :: "string list \<Rightarrow> ('l, 'm) sim_state \<Rightarrow> nat" where
  "sim_work nodes s =
     (if st_exited s then 0 else 1) + sum_list (map (\<lambda>row. row_weight nodes row + 5) (st_rows s)) +
     flight_weight nodes (st_flight s) +
     total (length nodes) (handler_weight (length nodes)) (st_handler s) +
     total (length nodes) (\<lambda>ms. sum_list (map (in_weight (length nodes)) ms)) (st_inbox s) +
     total (length nodes) (\<lambda>ms. sum_list (map (out_weight (length nodes)) ms)) (st_outbox s)"

lemma total_upd:
  assumes "i < n"
  shows "total n w (f(i := x)) + w (f i) = total n w f + w x"
proof -
  have "sum g {..<n} = g i + sum g ({..<n} - {i})" for g :: "nat \<Rightarrow> nat"
    using assms by (intro sum.remove) simp_all
  from this [of "\<lambda>j. w ((f(i := x)) j)"] this [of "\<lambda>j. w (f j)"]
  show ?thesis unfolding total_def by (simp cong: sum.cong_simp)
qed

lemma total_upd_outside: "\<not> i < n \<Longrightarrow> total n w (f(i := x)) = total n w f"
  unfolding total_def by (intro sum.cong) auto

lemma replies_weight:
  assumes "receive_from_center L a r d msg = (d', replies)"
  shows "sum_list (map (out_weight n) replies) < in_weight n msg"
  using assms
  by (auto simp: receive_from_center_def in_weight_def out_weight_def TxCallBack_def RxCallBack_def
      send_to_center_def response_to_center_def Let_def
      split: payload.splits if_splits Simu_Direction.splits prod.splits)

lemma total_append:
  "total n (\<lambda>ms. sum_list (map w ms)) (f(i := f i @ ms)) \<le>
     total n (\<lambda>ms. sum_list (map w ms)) f + sum_list (map w ms)"
  using total_upd [of i n "\<lambda>ms. sum_list (map w ms)" f "f i @ ms"]
    total_upd_outside [of i n "\<lambda>ms. sum_list (map w ms)" f "f i @ ms"]
  by (cases "i < n") simp_all

lemma total_take:
  assumes "i < n" "f i = msg # rest"
  shows "total n (\<lambda>ms. sum_list (map w ms)) f = total n (\<lambda>ms. sum_list (map w ms)) (f(i := rest)) + w msg"
  using total_upd [OF assms(1), of "\<lambda>ms. sum_list (map w ms)" f rest] assms(2) by simp

lemma sim_step_work:
  assumes "sim_step nodes L s s'"
  shows "sim_work nodes s' < sim_work nodes s"
  using assms
proof cases
  case (flight_send i lm ms)
  let ?msg = "\<lparr>sm_srcAddress = CENTER_ADDRESS, sm_payload = Line lm\<rparr> :: 'b Simu_Message"
  have "in_weight (length nodes) ?msg = 3 * length nodes + 5" by (simp add: in_weight_def)
  then show ?thesis
    using flight_send total_append [of "length nodes" "in_weight (length nodes)" "st_inbox s" i "[?msg]"]
    by (simp add: sim_work_def deliver_def)
next
  case (handler_ranging i msg rest m)
  note upd = total_upd [OF handler_ranging(3), of "handler_weight (length nodes)" "st_handler s" "H_Bcast msg"]
  have "out_weight (length nodes) msg = 3 * length nodes + 4" "in_weight (length nodes) msg = 2"
    using handler_ranging by (simp_all add: out_weight_def in_weight_def)
  then show ?thesis
    using handler_ranging upd total_take [where f = "st_outbox s", OF handler_ranging(3,5), of "out_weight (length nodes)"]
    by (simp add: sim_work_def)
next
  case (handler_response i msg rest)
  have "0 < out_weight (length nodes) msg" by (simp add: out_weight_def split: payload.splits)
  then show ?thesis
    using handler_response total_take [where f = "st_outbox s", OF handler_response(3,5), of "out_weight (length nodes)"]
    by (simp add: sim_work_def count_response_def)
next
  case (handler_bcast i msg)
  then show ?thesis
    using total_upd [OF handler_bcast(3), of "handler_weight (length nodes)" "st_handler s" "H_Resp msg"]
    by (simp add: sim_work_def)
next
  case (handler_resp i msg)
  then show ?thesis
    using total_upd [OF handler_resp(3), of "handler_weight (length nodes)" "st_handler s" "H_Send msg 0"]
    by (simp add: sim_work_def)
next
  case (handler_send i msg k)
  have "length nodes - k = Suc (length nodes - Suc k)" using handler_send(5) by simp
  then show ?thesis
    using handler_send total_append [of "length nodes" "in_weight (length nodes)" "st_inbox s" k "[msg]"]
      total_upd [OF handler_send(3), of "handler_weight (length nodes)" "st_handler s" "H_Send msg (k + 1)"]
    by (simp add: sim_work_def deliver_def)
next
  case (handler_post i msg k)
  then show ?thesis
    using total_upd [OF handler_post(3), of "handler_weight (length nodes)" "st_handler s" H_Recv]
    by (simp add: sim_work_def)
next
  case (drone_receive i msg rest randnum d replies)
  then show ?thesis
    using replies_weight [OF drone_receive(5), of "length nodes"]
      total_take [where f = "st_inbox s", OF drone_receive(2,3), of "in_weight (length nodes)"]
      total_append [of "length nodes" "out_weight (length nodes)" "st_outbox s" i replies]
    by (simp add: sim_work_def)
qed (simp_all add: sim_work_def row_weight_def)

section \<open>Some thread can go on\<close>

lemma drone_can_receive:
  assumes "i < length nodes" "st_inbox s i \<noteq> []"
  shows "\<exists>s'. sim_step nodes L s s'"
proof -
  obtain msg rest where "st_inbox s i = msg # rest" using assms(2) by (cases "st_inbox s i") auto
  moreover obtain d replies where "receive_from_center L (nodes ! i) 0 (st_drone s i) msg = (d, replies)" by fastforce
  ultimately show ?thesis using sim_step.drone_receive [OF assms(1), of s msg rest 0 L d replies] by auto
qed

lemma handler_can_receive:
  assumes "\<not> st_exited s" "i < length nodes" "st_handler s i = H_Recv" "st_outbox s i \<noteq> []"
  shows "\<exists>s'. sim_step nodes L s s'"
proof -
  obtain msg rest where out: "st_outbox s i = msg # rest" using assms(4) by (cases "st_outbox s i") auto
  show ?thesis
  proof (cases "\<exists>m. sm_payload msg = Ranging m")
    case True
    then show ?thesis using sim_step.handler_ranging [OF assms(1-3) out] by blast
  next
    case False
    then show ?thesis using sim_step.handler_response [OF assms(1-3) out] by blast
  qed
qed

lemma flight_can_go:
  assumes "\<not> st_exited s"
    and "case st_flight s of F_Alloc r \<Rightarrow> 0 < st_alloc s | F_Resp r \<Rightarrow> 0 < st_resp s | _ \<Rightarrow> True"
  shows "\<exists>s'. sim_step nodes L s s'"
proof (cases "st_flight s")
  case F_Read
  then show ?thesis
    using sim_step.flight_read [OF assms(1) F_Read] sim_step.flight_exit [OF assms(1) F_Read]
    by (cases "st_rows s") blast+
next
  case (F_Alloc row)
  then show ?thesis using sim_step.flight_alloc [OF assms(1) F_Alloc] assms(2) by auto
next
  case (F_Resp row)
  then show ?thesis using sim_step.flight_resp [OF assms(1) F_Resp] assms(2) by auto
next
  case (F_Send ms)
  then show ?thesis
    using sim_step.flight_send [OF assms(1), of _ _ _ nodes L] sim_step.flight_post [OF assms(1), of nodes L]
    by (cases ms) (auto; blast)+
qed

text \<open>A receiver that has been told goes on until it is counted; then the response semaphore is up.\<close>

lemma receivers_can_go:
  assumes R: "R \<subseteq> {..<length nodes}" and ex: "\<not> st_exited s"
    and at: "\<forall>i \<in> R. receiver_at nodes i (m i) (b i) (a i) (st i) s \<and> st i \<noteq> Unsent"
    and "acked R st s"
  shows "st_resp s = 1 \<or> (\<exists>s'. sim_step nodes L s s')"
proof (cases "\<forall>i \<in> R. st i = Counted")
  case True
  then show ?thesis using assms(4) by (simp add: acked_def)
next
  case False
  then obtain i where i: "i \<in> R" "st i \<noteq> Counted" by blast
  then have r: "receiver_at nodes i (m i) (b i) (a i) (st i) s" "st i \<noteq> Unsent" using at by blast+
  have n: "i < length nodes" using i R by blast
  show ?thesis
  proof (cases "st i")
    case Told
    then have "st_inbox s i \<noteq> []" using r by (auto simp: receiver_at_def pends_def)
    then show ?thesis using drone_can_receive [OF n] by blast
  next
    case Replied
    then have "st_outbox s i \<noteq> []" "st_handler s i = H_Recv" using r by (auto simp: receiver_at_def)
    then show ?thesis using handler_can_receive [OF ex n] by blast
  qed (use i r in simp_all)
qed

lemma line_phase_can_go:
  assumes sw: "swarm nodes L" "wf_row nodes row" and ph: "line_phase nodes L S row st g s" and ex: "\<not> st_exited s"
  shows "\<exists>s'. sim_step nodes L s s'"
proof (cases "\<exists>row. st_flight s = F_Alloc row")
  case False
  then show ?thesis using ph by (intro flight_can_go [OF ex]) (auto simp: line_phase_def line_flight_def split: flight_pc.splits)
next
  case True
  let ?x = "sender nodes row" and ?R = "receivers nodes row"
  have wf: "wf_nodes nodes" using sw(1) by (simp add: swarm_def)
  note x = row_facts(3) [OF wf sw(2)]
  have told: "\<forall>i \<in> ?R. st i \<noteq> Unsent" "g \<noteq> T_Unsent" "st_bcast s = (if g = T_Resp then 0 else 1)"
    using ph True by (auto simp: line_phase_def line_flight_def)
  have snd: "sender_at nodes ?x (center_line (line_for nodes row ?x)) (row_msg nodes L row S) (S ?x) (row_effect nodes L row S ?x) g s"
    using ph by (simp add: line_phase_def)
  show ?thesis
  proof (cases g)
    case T_Told
    then have "st_inbox s ?x \<noteq> []" using snd by (auto simp: sender_at_def pends_def)
    then show ?thesis using drone_can_receive [OF x] by blast
  next
    case T_Sent
    then have "st_outbox s ?x \<noteq> []" "st_handler s ?x = H_Recv" using snd by (auto simp: sender_at_def)
    then show ?thesis using handler_can_receive [OF ex x] by blast
  next
    case T_Bcast
    then show ?thesis using sim_step.handler_bcast [OF ex x] snd told(3) by (fastforce simp: sender_at_def)
  next
    case T_Resp
    have "st_resp s = 1 \<or> (\<exists>s'. sim_step nodes L s s')"
    proof (rule receivers_can_go [OF _ ex])
      show "?R \<subseteq> {..<length nodes}" by (auto simp: receivers_def)
      show "acked ?R st s" using ph by (simp add: line_phase_def)
      show "\<forall>i \<in> ?R. receiver_at nodes i (center_line (line_for nodes row i))
          (S i, 0) (S i, time_for nodes row i) (st i) s \<and> st i \<noteq> Unsent"
        using ph told(1) by (simp add: line_phase_def)
    qed
    then show ?thesis using sim_step.handler_resp [OF ex x] snd T_Resp by (fastforce simp: sender_at_def)
  qed (use told in simp)
qed

lemma ranging_phase_can_go:
  assumes sw: "swarm nodes L" "wf_row nodes row" and ph: "ranging_phase nodes L S row st k s" and ex: "\<not> st_exited s"
  shows "\<exists>s'. sim_step nodes L s s'"
proof (cases k)
  case (Some j)
  let ?x = "sender nodes row"
  have wf: "wf_nodes nodes" using sw(1) by (simp add: swarm_def)
  note x = row_facts(3) [OF wf sw(2)]
  have "st_handler s ?x = H_Send (row_msg nodes L row S) j" using ph Some by (simp add: ranging_phase_def)
  then show ?thesis using sim_step.handler_send [OF ex x] sim_step.handler_post [OF ex x] by blast
next
  case None
  let ?R = "receivers nodes row"
  have "st_resp s = 1 \<or> (\<exists>s'. sim_step nodes L s s')"
  proof (rule receivers_can_go [OF _ ex])
    show "?R \<subseteq> {..<length nodes}" by (auto simp: receivers_def)
    show "acked ?R st s" using ph by (simp add: ranging_phase_def)
    show "\<forall>i \<in> ?R. receiver_at nodes i (row_msg nodes L row S)
        (S i, time_for nodes row i) (row_effect nodes L row S i, 0) (st i) s \<and> st i \<noteq> Unsent"
      using ph None by (simp add: ranging_phase_def)
  qed
  then show ?thesis
  proof
    assume "st_resp s = 1"
    then show ?thesis
      using ph None by (intro flight_can_go [OF ex]) (auto simp: ranging_phase_def ranging_flight_def split: flight_pc.splits)
  qed
qed

lemma quiet_can_go:
  assumes "quiet nodes S s" "\<not> st_exited s"
  shows "\<exists>s'. sim_step nodes L s s'"
  using assms by (intro flight_can_go) (auto simp: quiet_def ranging_flight_def split: flight_pc.splits)

end
