(* ===== verification/Simulation_Properties.thy ===== *)
theory Simulation_Properties
  imports Simulation_Progress
begin

text \<open>
  What the simulation computes and when it ends. A scheduler with a list of choices runs the step
  relation on the example of two drones.
\<close>

section \<open>A scheduler\<close>

datatype choice = Flight | Handler nat | Drone nat

text \<open>The step a thread takes when it is chosen, \<open>None\<close> when it waits; random number 0.\<close>

definition flight_move :: "string list \<Rightarrow> ('l, 'm) sim_state \<Rightarrow> ('l, 'm) sim_state option" where
  "flight_move nodes s =
     (case st_flight s of
        F_Read \<Rightarrow> (case st_rows s of
            [] \<Rightarrow> Some (s\<lparr>st_exited := True\<rparr>)
          | row # rest \<Rightarrow> Some (s\<lparr>st_rows := rest, st_flight := F_Alloc row\<rparr>))
      | F_Alloc row \<Rightarrow> if 0 < st_alloc s then Some (s\<lparr>st_alloc := st_alloc s - 1, st_flight := F_Resp row\<rparr>) else None
      | F_Resp row \<Rightarrow>
          if 0 < st_resp s then Some (s\<lparr>st_resp := st_resp s - 1, st_flight := F_Send (row_messages nodes row)\<rparr>)
          else None
      | F_Send [] \<Rightarrow> Some (s\<lparr>st_bcast := st_bcast s + 1, st_flight := F_Read\<rparr>)
      | F_Send ((i, lm) # ms) \<Rightarrow>
          Some (deliver i \<lparr>sm_srcAddress = CENTER_ADDRESS, sm_payload = Line lm\<rparr> s\<lparr>st_flight := F_Send ms\<rparr>))"

definition handler_move :: "string list \<Rightarrow> nat \<Rightarrow> ('l, 'm) sim_state \<Rightarrow> ('l, 'm) sim_state option" where
  "handler_move nodes i s =
     (case st_handler s i of
        H_Recv \<Rightarrow> (case st_outbox s i of
            [] \<Rightarrow> None
          | msg # rest \<Rightarrow>
              (case sm_payload msg of
                 Ranging m \<Rightarrow>
                   Some (s\<lparr>st_outbox := (st_outbox s)(i := rest), st_handler := (st_handler s)(i := H_Bcast msg)\<rparr>)
               | _ \<Rightarrow> Some (count_response s\<lparr>st_outbox := (st_outbox s)(i := rest)\<rparr>)))
      | H_Bcast msg \<Rightarrow>
          if 0 < st_bcast s
          then Some (s\<lparr>st_bcast := st_bcast s - 1, st_handler := (st_handler s)(i := H_Resp msg)\<rparr>) else None
      | H_Resp msg \<Rightarrow>
          if 0 < st_resp s
          then Some (s\<lparr>st_resp := st_resp s - 1, st_handler := (st_handler s)(i := H_Send msg 0)\<rparr>) else None
      | H_Send msg k \<Rightarrow>
          if k < length nodes then Some (deliver k msg s\<lparr>st_handler := (st_handler s)(i := H_Send msg (k + 1))\<rparr>)
          else Some (s\<lparr>st_alloc := st_alloc s + 1, st_handler := (st_handler s)(i := H_Recv)\<rparr>))"

definition drone_move ::
    "string list \<Rightarrow> ('l, 'm) ranging_lib \<Rightarrow> nat \<Rightarrow> ('l, 'm) sim_state \<Rightarrow> ('l, 'm) sim_state option" where
  "drone_move nodes L i s =
     (case st_inbox s i of
        [] \<Rightarrow> None
      | msg # rest \<Rightarrow>
          case receive_from_center L (nodes ! i) 0 (st_drone s i) msg of (d, replies) \<Rightarrow>
            Some (s\<lparr>st_inbox := (st_inbox s)(i := rest), st_drone := (st_drone s)(i := d),
              st_outbox := (st_outbox s)(i := st_outbox s i @ replies)\<rparr>))"

fun sim_move ::
    "string list \<Rightarrow> ('l, 'm) ranging_lib \<Rightarrow> choice \<Rightarrow> ('l, 'm) sim_state \<Rightarrow> ('l, 'm) sim_state option" where
  "sim_move nodes L Flight s = (if st_exited s then None else flight_move nodes s)"
| "sim_move nodes L (Handler i) s =
     (if st_exited s \<or> \<not> i < length nodes then None else handler_move nodes i s)"
| "sim_move nodes L (Drone i) s = (if \<not> i < length nodes then None else drone_move nodes L i s)"

fun sim_run ::
    "string list \<Rightarrow> ('l, 'm) ranging_lib \<Rightarrow> choice list \<Rightarrow> ('l, 'm) sim_state \<Rightarrow> ('l, 'm) sim_state option" where
  "sim_run nodes L [] s = Some s"
| "sim_run nodes L (c # cs) s = Option.bind (sim_move nodes L c s) (sim_run nodes L cs)"

lemma flight_move_step:
  assumes "flight_move nodes s = Some s'" "\<not> st_exited s"
  shows "sim_step nodes L s s'"
proof (cases "st_flight s")
  case (F_Send ms)
  then show ?thesis
    using assms(1) sim_step.flight_send [OF assms(2), of _ _ _ nodes L] sim_step.flight_post [OF assms(2), of nodes L]
    by (cases ms) (auto simp: flight_move_def)
next
  case F_Read
  then show ?thesis
    using assms(1) sim_step.flight_read [OF assms(2) F_Read, of _ _ nodes L] sim_step.flight_exit [OF assms(2) F_Read, of nodes L]
    by (cases "st_rows s") (auto simp: flight_move_def)
next
  case (F_Alloc row)
  then show ?thesis using assms(1) sim_step.flight_alloc [OF assms(2) F_Alloc] by (auto simp: flight_move_def split: if_splits)
next
  case (F_Resp row)
  then show ?thesis using assms(1) sim_step.flight_resp [OF assms(2) F_Resp] by (auto simp: flight_move_def split: if_splits)
qed

lemma handler_move_step:
  assumes "handler_move nodes i s = Some s'" "\<not> st_exited s" "i < length nodes"
  shows "sim_step nodes L s s'"
proof (cases "st_handler s i")
  case H_Recv
  then obtain msg rest where out: "st_outbox s i = msg # rest"
    using assms(1) by (cases "st_outbox s i") (simp_all add: handler_move_def)
  show ?thesis
    using assms(1) H_Recv out sim_step.handler_ranging [OF assms(2,3) H_Recv out, of _ L]
      sim_step.handler_response [OF assms(2,3) H_Recv out, of L]
    by (cases "sm_payload msg") (auto simp: handler_move_def)
next
  case (H_Bcast msg)
  then show ?thesis using assms(1) sim_step.handler_bcast [OF assms(2,3) H_Bcast] by (auto simp: handler_move_def split: if_splits)
next
  case (H_Resp msg)
  then show ?thesis using assms(1) sim_step.handler_resp [OF assms(2,3) H_Resp] by (auto simp: handler_move_def split: if_splits)
next
  case (H_Send msg k)
  then show ?thesis
    using assms(1) sim_step.handler_send [OF assms(2,3) H_Send] sim_step.handler_post [OF assms(2,3) H_Send]
    by (auto simp: handler_move_def split: if_splits)
qed

lemma drone_move_step:
  assumes "drone_move nodes L i s = Some s'" "i < length nodes"
  shows "sim_step nodes L s s'"
  using assms sim_step.drone_receive [OF assms(2), of s _ _ 0 L]
  by (auto simp: drone_move_def split: list.splits prod.splits)

lemma sim_move_step: "sim_move nodes L c s = Some s' \<Longrightarrow> sim_step nodes L s s'"
  by (cases c) (auto intro: flight_move_step handler_move_step drone_move_step split: if_splits)

lemma sim_run_reachable:
  "sim_reachable nodes L s0 s \<Longrightarrow> sim_run nodes L cs s = Some s' \<Longrightarrow> sim_reachable nodes L s0 s'"
  by (induction cs arbitrary: s) (auto simp: bind_eq_Some_conv dest!: sim_move_step dest: sim_next)

section \<open>An example\<close>

text \<open>A library that notes the times of its messages, and a log with one row.\<close>

definition event_library :: "((u64 \<times> u16) list, u16) ranging_lib" where
  "event_library =
     \<lparr>rl_generateDSRMessage = (\<lambda>(l, tx, rx). (of_nat (length l), l, 0, rx)),
      rl_msgSequence = (\<lambda>m. m),
      rl_updateSendList = (\<lambda>l event. l @ [event]),
      rl_processDSRMessage = (\<lambda>(l, tx, rx) (m, t). (l @ [(t, m)], tx, 0))\<rparr>"

definition two_drones :: "string list" where
  "two_drones = [''1'', ''2'']"

definition one_row :: log_row where
  "one_row = \<lparr>lr_tx = (1, 100), lr_rx = [(2, 130)]\<rparr>"

definition example_start :: "((u64 \<times> u16) list, u16) sim_state" where
  "example_start = sim_start [one_row] (\<lambda>i. []) []"

definition whole_row :: "choice list" where
  "whole_row = [Flight, Flight, Flight, Flight, Flight, Flight, Drone 0, Drone 1, Handler 0, Handler 0, Handler 1,
     Handler 0, Handler 0, Handler 0, Handler 0, Drone 0, Drone 1, Handler 1]"

lemma example_numbers: "node_number ''1'' = 1" "node_number ''2'' = 2"
  by (simp_all add: node_number_def strtoul10_def digit_value_def isspace_def Let_def ULONG_MAX_def)

lemma example_nodes: "two_drones ! 0 = ''1''" "two_drones ! Suc 0 = ''2''" "length two_drones = 2" "two_drones \<noteq> []"
  by (simp_all add: two_drones_def)

lemma example_swarm: "swarm two_drones event_library"
  by (auto simp: swarm_def wf_nodes_def clears_only_def two_drones_def event_library_def example_numbers
      NODES_NUM_def ADDR_SIZE_def CENTER_ADDRESS_def)

lemma example_row: "wf_row two_drones one_row"
  by (auto simp: wf_row_def row_lines_def two_drones_def one_row_def example_numbers)

lemma example_messages:
  "row_messages two_drones one_row =
     [(0, \<lparr>lm_address = 1, lm_status = TX, lm_timestamp = 100\<rparr>), (1, \<lparr>lm_address = 2, lm_status = RX, lm_timestamp = 130\<rparr>)]"
  by (simp add: row_messages_def row_lines_def line_targets_def two_drones_def one_row_def example_numbers upt_rec)

lemma all_two: "(\<forall>i < (2::nat). P i) \<longleftrightarrow> P 0 \<and> P 1"
  by (auto simp: less_2_cases_iff)

lemmas example_moves = flight_move_def handler_move_def drone_move_def deliver_def count_response_def
  receive_from_center_def TxCallBack_def RxCallBack_def send_to_center_def response_to_center_def
  get_next_RxTimestamp_def PACKET_LOSS_def NODES_NUM_def ADDR_SIZE_def CENTER_ADDRESS_def event_library_def

lemma example_run:
  "\<exists>s. sim_run two_drones event_library whole_row example_start = Some s \<and>
     st_rows s = [] \<and> st_flight s = F_Read \<and> \<not> st_exited s \<and>
     (\<forall>i < 2. st_inbox s i = [] \<and> st_outbox s i = [] \<and> st_handler s i = H_Recv) \<and>
     dr_lib (st_drone s 0) = [(100, 0)] \<and> dr_lib (st_drone s 1) = [(130, 0)]"
  by (simp add: whole_row_def example_start_def sim_start_def example_moves example_messages example_numbers
      example_nodes all_two Let_def)

section \<open>The drones follow the log\<close>

lemma sim_inv_cases:
  assumes "sim_inv nodes L rows libs s"
  obtains (quiet) k where "k \<le> length rows" "waiting s = drop k rows" "quiet nodes (after_rows nodes L (take k rows) libs) s"
  | (line) k st g where "k < length rows" "waiting s = drop (Suc k) rows"
      "line_phase nodes L (after_rows nodes L (take k rows) libs) (rows ! k) st g s"
  | (ranging) k st j where "k < length rows" "waiting s = drop (Suc k) rows"
      "ranging_phase nodes L (after_rows nodes L (take k rows) libs) (rows ! k) st j s"
  using assms unfolding sim_inv_def by blast

lemma receiver_at_lib: "receiver_at nodes i msg b a g s \<Longrightarrow> dr_lib (st_drone s i) = fst b \<or> dr_lib (st_drone s i) = fst a"
  by (auto simp: receiver_at_def drone_at_def split: if_splits)

lemma sender_at_lib: "sender_at nodes x line msg l0 l1 g s \<Longrightarrow> dr_lib (st_drone s x) = l0 \<or> dr_lib (st_drone s x) = l1"
  by (auto simp: sender_at_def drone_at_def split: if_splits)

lemma line_phase_lib:
  assumes "swarm nodes L" "wf_row nodes row" "line_phase nodes L S row st g s" "i < length nodes"
  shows "dr_lib (st_drone s i) = S i \<or> dr_lib (st_drone s i) = row_effect nodes L row S i"
proof (cases "i = sender nodes row")
  case True
  then show ?thesis using assms(3) sender_at_lib unfolding line_phase_def by metis
next
  case False
  then have "i \<in> receivers nodes row" using receivers_facts(4) [OF assms(1,2,4)] by blast
  then show ?thesis using assms(3) receiver_at_lib unfolding line_phase_def by fastforce
qed

lemma ranging_phase_lib:
  assumes "swarm nodes L" "wf_row nodes row" "ranging_phase nodes L S row st j s" "i < length nodes"
  shows "dr_lib (st_drone s i) = S i \<or> dr_lib (st_drone s i) = row_effect nodes L row S i"
proof (cases "i = sender nodes row")
  case True
  then show ?thesis using assms(3) by (simp add: ranging_phase_def drone_at_def)
next
  case False
  then have "i \<in> receivers nodes row" using receivers_facts(4) [OF assms(1,2,4)] by blast
  then show ?thesis using assms(3) receiver_at_lib unfolding ranging_phase_def by fastforce
qed

lemma exited_waiting: "sim_inv nodes L rows libs s \<Longrightarrow> st_exited s \<Longrightarrow> waiting s = []"
  by (simp add: sim_inv_def waiting_def)

text \<open>
  C3. However the threads of the center and the drones are scheduled, the library of every drone is
  at every moment what the log executed row by row makes of it: there is a row such that all drones
  have done the rows before it completely, and each has done this row or not. In every row the sender
  generates its message at its time, and every other drone processes that message at its own time of
  reception. When the center has exited, only the last row can be incomplete.
\<close>

theorem simulation_follows_log:
  assumes "swarm nodes L" and "\<forall>row \<in> set rows. wf_row nodes row"
    and "sim_reachable nodes L (sim_start rows libs csv) s"
  shows "\<exists>k \<le> length rows. (st_exited s \<longrightarrow> length rows \<le> Suc k) \<and>
    (\<forall>i < length nodes. dr_lib (st_drone s i) = after_rows nodes L (take k rows) libs i \<or>
       k < length rows \<and> dr_lib (st_drone s i) = after_rows nodes L (take (Suc k) rows) libs i)"
proof -
  have inv: "sim_inv nodes L rows libs s" by (rule sim_inv_reachable [OF assms])
  have row: "wf_row nodes (rows ! k)" if "k < length rows" for k using assms(2) that by simp
  from inv show ?thesis
  proof (cases rule: sim_inv_cases [case_names quiet line ranging])
    case (quiet k)
    then show ?thesis
      using exited_waiting [OF inv] by (intro exI [of _ k]) (auto simp: quiet_def quiet_at_def drone_at_def)
  next
    case (line k st g)
    then show ?thesis
      using exited_waiting [OF inv] line_phase_lib [OF assms(1) row [OF line(1)] line(3)]
      by (intro exI [of _ k]) (auto simp: after_rows_Suc)
  next
    case (ranging k st j)
    then show ?thesis
      using exited_waiting [OF inv] ranging_phase_lib [OF assms(1) row [OF ranging(1)] ranging(3)]
      by (intro exI [of _ k]) (auto simp: after_rows_Suc)
  qed
qed

lemma example_reachable:
  "\<exists>s. sim_reachable two_drones event_library example_start s \<and>
     st_rows s = [] \<and> st_flight s = F_Read \<and> \<not> st_exited s \<and>
     (\<forall>i < 2. st_inbox s i = [] \<and> st_outbox s i = [] \<and> st_handler s i = H_Recv) \<and>
     dr_lib (st_drone s 0) = [(100, 0)] \<and> dr_lib (st_drone s 1) = [(130, 0)]"
  using example_run sim_run_reachable [OF sim_init] by blast

theorem simulation_follows_log_witness:
  "\<exists>s. sim_reachable two_drones event_library example_start s \<and> dr_lib (st_drone s 1) = [(130, 0)] \<and>
     (\<exists>k \<le> 1. \<forall>i < 2. dr_lib (st_drone s i) = after_rows two_drones event_library (take k [one_row]) (\<lambda>i. []) i \<or>
        k < 1 \<and> dr_lib (st_drone s i) = after_rows two_drones event_library (take (Suc k) [one_row]) (\<lambda>i. []) i)"
proof -
  obtain s where s: "sim_reachable two_drones event_library example_start s" "dr_lib (st_drone s 1) = [(130, 0)]"
    using example_reachable by blast
  have "\<forall>row \<in> set [one_row]. wf_row two_drones row" using example_row by simp
  from simulation_follows_log [OF example_swarm this s(1) [unfolded example_start_def]]
  show ?thesis using s by (auto simp: example_nodes)
qed

text \<open>
  C10. When the log has been read to its end and nothing is under way any more, every drone's library
  is that of the complete log.
\<close>

theorem simulation_completes_log:
  assumes "swarm nodes L" and "\<forall>row \<in> set rows. wf_row nodes row"
    and "sim_reachable nodes L (sim_start rows libs csv) s"
    and "st_rows s = []" and "st_flight s = F_Read"
    and "\<forall>i < length nodes. st_inbox s i = [] \<and> st_outbox s i = [] \<and> st_handler s i = H_Recv"
    and "i < length nodes"
  shows "dr_lib (st_drone s i) = after_rows nodes L rows libs i"
proof -
  have inv: "sim_inv nodes L rows libs s" by (rule sim_inv_reachable [OF assms(1-3)])
  have row: "wf_row nodes (rows ! k)" if "k < length rows" for k using assms(2) that by simp
  have wf: "wf_nodes nodes" using assms(1) by (simp add: swarm_def)
  have none: "waiting s = []" using assms(4,5) by (simp add: waiting_def)
  from inv show ?thesis
  proof (cases rule: sim_inv_cases [case_names quiet line ranging])
    case (quiet k)
    then show ?thesis using none assms(7) by (simp add: quiet_def quiet_at_def drone_at_def)
  next
    case (line k st g)
    note x = row_facts(3) [OF wf row [OF line(1)]]
    have "g \<noteq> T_Unsent" using line(3) assms(5) by (simp add: line_phase_def line_flight_def)
    then show ?thesis
      using line(3) assms(6) x by (cases g) (auto simp: line_phase_def sender_at_def pends_def)
  next
    case (ranging k st j)
    note x = row_facts(3) [OF wf row [OF ranging(1)]]
    have k: "length rows = Suc k" using ranging(1,2) none by simp
    have j: "j = None" using ranging(3) assms(6) x by (cases j) (auto simp: ranging_phase_def)
    have "dr_lib (st_drone s i) = row_effect nodes L (rows ! k) (after_rows nodes L (take k rows) libs) i"
    proof (cases "i = sender nodes (rows ! k)")
      case True
      then show ?thesis using ranging(3) by (simp add: ranging_phase_def drone_at_def)
    next
      case False
      then have R: "i \<in> receivers nodes (rows ! k)" using receivers_facts(4) [OF assms(1) row [OF ranging(1)] assms(7)] by blast
      then have "st i \<noteq> Unsent" using ranging(3) j unfolding ranging_phase_def by auto
      then show ?thesis
        using ranging(3) R assms(6,7) by (cases "st i") (auto simp: ranging_phase_def receiver_at_def drone_at_def pends_def)
    qed
    then show ?thesis using after_rows_Suc [OF ranging(1), of nodes L libs] k by simp
  qed
qed

theorem simulation_completes_log_witness:
  "\<exists>s. sim_reachable two_drones event_library example_start s \<and> dr_lib (st_drone s 1) = [(130, 0)] \<and>
     dr_lib (st_drone s 1) = after_rows two_drones event_library [one_row] (\<lambda>i. []) 1"
proof -
  obtain s where s: "sim_reachable two_drones event_library example_start s" "dr_lib (st_drone s 1) = [(130, 0)]"
    and st: "st_rows s = []" "st_flight s = F_Read"
    and calm: "\<forall>i < length two_drones. st_inbox s i = [] \<and> st_outbox s i = [] \<and> st_handler s i = H_Recv"
    using example_reachable example_nodes(3) by metis
  have wf: "\<forall>row \<in> set [one_row]. wf_row two_drones row" using example_row by simp
  have "1 < length two_drones" by (simp add: example_nodes)
  from simulation_completes_log [OF example_swarm wf s(1) [unfolded example_start_def] st calm this]
  show ?thesis using s by blast
qed

section \<open>The simulation ends\<close>

text \<open>
  C36. No run of the simulation goes on for ever, whatever the log, the drones and the ranging
  library: every step of a thread makes the work that is left smaller.
\<close>

theorem simulation_terminates:
  "\<nexists>run. \<forall>n. sim_step nodes L (run n) (run (Suc n))"
proof
  assume "\<exists>run. \<forall>n. sim_step nodes L (run n) (run (Suc n))"
  then obtain run where run: "\<And>n. sim_step nodes L (run n) (run (Suc n))" by blast
  then have "sim_work nodes (run (Suc n)) < sim_work nodes (run n)" for n by (rule sim_step_work)
  then have "(run (Suc n), run n) \<in> measure (sim_work nodes)" for n by simp
  then show False using wf_iff_no_infinite_down_chain [of "measure (sim_work nodes)"] by blast
qed

text \<open>
  C9. The semaphores never block all threads: in every reachable state in which the center has not
  exited, some thread or drone can take a step.
\<close>

theorem simulation_progress:
  assumes "swarm nodes L" and "\<forall>row \<in> set rows. wf_row nodes row"
    and "sim_reachable nodes L (sim_start rows libs csv) s" and "\<not> st_exited s"
  shows "\<exists>s'. sim_step nodes L s s'"
proof -
  have row: "wf_row nodes (rows ! k)" if "k < length rows" for k using assms(2) that by simp
  from sim_inv_reachable [OF assms(1-3)] show ?thesis
  proof (cases rule: sim_inv_cases [case_names quiet line ranging])
    case (quiet k)
    then show ?thesis using quiet_can_go assms(4) by blast
  next
    case (line k st g)
    then show ?thesis using line_phase_can_go [OF assms(1) row [OF line(1)] line(3) assms(4)] by blast
  next
    case (ranging k st j)
    then show ?thesis using ranging_phase_can_go [OF assms(1) row [OF ranging(1)] ranging(3) assms(4)] by blast
  qed
qed

theorem simulation_progress_witness:
  "\<exists>s. sim_reachable two_drones event_library example_start s \<and> dr_lib (st_drone s 1) = [(130, 0)] \<and>
     (\<exists>s'. sim_step two_drones event_library s s')"
proof -
  obtain s where s: "sim_reachable two_drones event_library example_start s" "dr_lib (st_drone s 1) = [(130, 0)]"
    "\<not> st_exited s" using example_reachable by blast
  have "\<forall>row \<in> set [one_row]. wf_row two_drones row" using example_row by simp
  from simulation_progress [OF example_swarm this s(1) [unfolded example_start_def] s(3)] show ?thesis using s by blast
qed

section \<open>The exit of the center\<close>

text \<open>The drones but \<open>x\<close> have been sent lines for a reception only, and have processed no message.\<close>

definition only_told :: "string list \<Rightarrow> nat \<Rightarrow> (nat \<Rightarrow> 'l) \<Rightarrow> ('l, 'm) sim_state \<Rightarrow> bool" where
  "only_told nodes x libs s \<longleftrightarrow>
     (\<forall>i < length nodes. i \<noteq> x \<longrightarrow> dr_lib (st_drone s i) = libs i \<and>
        (\<forall>msg \<in> set (st_inbox s i). \<exists>lm. sm_payload msg = Line lm \<and> lm_status lm = RX))"

lemma only_told_exited_step:
  assumes "sim_step nodes L s s'" "st_exited s" "only_told nodes x libs s"
  shows "st_exited s' \<and> only_told nodes x libs s'"
  using assms
proof cases
  case (drone_receive i msg rest randnum d replies)
  have "dr_lib d = libs i" if "i \<noteq> x"
  proof -
    have "dr_lib (st_drone s i) = libs i" "\<exists>lm. sm_payload msg = Line lm \<and> lm_status lm = RX"
      using assms(3) drone_receive(2,3) that by (auto simp: only_told_def)
    then show ?thesis using drone_receive(5) by (auto simp: receive_from_center_def split: if_splits)
  qed
  then show ?thesis using drone_receive assms(2,3) by (auto simp: only_told_def)
qed simp_all

lemma only_told_exited:
  assumes "sim_reachable nodes L s s'" "st_exited s" "only_told nodes x libs s"
  shows "st_exited s' \<and> only_told nodes x libs s'"
  using assms(1) by induction (use assms(2,3) only_told_exited_step in blast)+

text \<open>The log thread alone hands out the lines of a row.\<close>

lemma flight_sends:
  assumes "sim_reachable nodes L s0 s" "st_flight s = F_Send ms" "\<not> st_exited s" "st_rows s = []"
    and "only_told nodes x libs s" "\<forall>(i, lm) \<in> set ms. i \<noteq> x \<longrightarrow> lm_status lm = RX"
  shows "\<exists>s'. sim_reachable nodes L s0 s' \<and> st_exited s' \<and> only_told nodes x libs s'"
  using assms
proof (induction ms arbitrary: s)
  case Nil
  let ?s = "s\<lparr>st_bcast := st_bcast s + 1, st_flight := F_Read\<rparr>"
  have "sim_reachable nodes L s0 ?s" by (rule sim_next [OF Nil(1) sim_step.flight_post [OF Nil(3,2)]])
  moreover have "sim_step nodes L ?s (?s\<lparr>st_exited := True\<rparr>)" using Nil by (intro sim_step.flight_exit) simp_all
  ultimately have "sim_reachable nodes L s0 (?s\<lparr>st_exited := True\<rparr>)" by (rule sim_next)
  then show ?case using Nil(5) by (intro exI [of _ "?s\<lparr>st_exited := True\<rparr>"]) (simp add: only_told_def)
next
  case (Cons m ms)
  obtain i lm where m: "m = (i, lm)" by (cases m)
  let ?s = "deliver i \<lparr>sm_srcAddress = CENTER_ADDRESS, sm_payload = Line lm\<rparr> s\<lparr>st_flight := F_Send ms\<rparr>"
  have "sim_reachable nodes L s0 ?s"
    using Cons.prems(2) by (intro sim_next [OF Cons.prems(1) sim_step.flight_send [OF Cons.prems(3)]]) (simp add: m)
  moreover have "only_told nodes x libs ?s"
    using Cons.prems(5,6) by (auto simp: only_told_def deliver_def m)
  ultimately show ?case using Cons.prems by (intro Cons.IH [of ?s]) (auto simp: deliver_def)
qed

lemma row_messages_status:
  assumes "wf_nodes nodes" "wf_row nodes row"
  shows "\<forall>(i, lm) \<in> set (row_messages nodes row). i \<noteq> sender nodes row \<longrightarrow> lm_status lm = RX"
proof (intro ballI, unfold case_prod_unfold, intro impI)
  fix m assume m: "m \<in> set (row_messages nodes row)" "fst m \<noteq> sender nodes row"
  then have "snd m = line_for nodes row (fst m)" using row_facts(4) [OF assms] by (metis prod.collapse)
  moreover have "fst m < length nodes" using row_facts(2) [OF assms] m(1) by force
  ultimately show "lm_status (snd m) = RX" using row_facts(6) [OF assms] m(2) by metis
qed

text \<open>
  The center exits as soon as its log thread has handed out the last row, without waiting for the
  row's broadcast and responses. So for every log of one row there is a run after which the center
  has exited and no drone but the sender will ever process the row's message, whatever happens then.
\<close>

theorem simulation_exit_drops_row:
  fixes L :: "('l, 'm) ranging_lib"
  assumes "wf_nodes nodes" and "wf_row nodes row"
  shows "\<exists>s. sim_reachable nodes L (sim_start [row] libs csv) s \<and> st_exited s \<and>
    (\<forall>s' i. sim_reachable nodes L s s' \<longrightarrow> i < length nodes \<longrightarrow> i \<noteq> sender nodes row \<longrightarrow>
       dr_lib (st_drone s' i) = libs i)"
proof -
  let ?s0 = "sim_start [row] libs csv :: ('l, 'm) sim_state" and ?x = "sender nodes row"
  let ?s1 = "?s0\<lparr>st_rows := [], st_flight := F_Alloc row\<rparr>"
  let ?s2 = "?s1\<lparr>st_alloc := st_alloc ?s1 - 1, st_flight := F_Resp row\<rparr>"
  let ?s3 = "?s2\<lparr>st_resp := st_resp ?s2 - 1, st_flight := F_Send (row_messages nodes row)\<rparr>"
  have "sim_step nodes L ?s0 ?s1" by (rule sim_step.flight_read) (simp_all add: sim_start_def)
  moreover have "sim_step nodes L ?s1 ?s2" by (rule sim_step.flight_alloc) (simp_all add: sim_start_def)
  moreover have "sim_step nodes L ?s2 ?s3" by (rule sim_step.flight_resp) (simp_all add: sim_start_def)
  ultimately have "sim_reachable nodes L ?s0 ?s3" by (meson sim_init sim_next)
  moreover have "only_told nodes ?x libs ?s3" by (simp add: only_told_def sim_start_def)
  ultimately obtain s where s: "sim_reachable nodes L ?s0 s" "st_exited s" "only_told nodes ?x libs s"
    using flight_sends [of nodes L ?s0 ?s3 "row_messages nodes row" ?x libs] row_messages_status [OF assms]
    by (auto simp: sim_start_def)
  have "dr_lib (st_drone s' i) = libs i"
    if "sim_reachable nodes L s s'" "i < length nodes" "i \<noteq> ?x" for s' i
    using only_told_exited [OF that(1) s(2,3)] that(2,3) by (simp add: only_told_def)
  then show ?thesis using s by blast
qed

lemma example_effect:
  "sender two_drones one_row = 0"
  "after_rows two_drones event_library [one_row] (\<lambda>i. []) 1 = [(130, 0)]"
  by (simp_all add: sender_def example_messages after_rows_def row_effect_def row_message_def rx_result_def
      tx_result_def line_for_def event_library_def)

theorem simulation_exit_drops_row_witness:
  "\<exists>s. sim_reachable two_drones event_library (sim_start [one_row] (\<lambda>i. []) []) s \<and> st_exited s \<and>
     dr_lib (st_drone s 1) = [] \<and> dr_lib (st_drone s 1) \<noteq> after_rows two_drones event_library [one_row] (\<lambda>i. []) 1"
proof -
  have "wf_nodes two_drones" using example_swarm by (simp add: swarm_def)
  then obtain s where s: "sim_reachable two_drones event_library (sim_start [one_row] (\<lambda>i. []) []) s" "st_exited s"
    and kept: "\<And>s' i. sim_reachable two_drones event_library s s' \<Longrightarrow> i < 2 \<Longrightarrow> i \<noteq> 0 \<Longrightarrow> dr_lib (st_drone s' i) = []"
    using simulation_exit_drops_row [OF _ example_row, of event_library "\<lambda>i. []" "[]"]
    unfolding example_effect(1) example_nodes(3) by blast
  have "dr_lib (st_drone s 1) = []" using kept [OF sim_init] by simp
  then show ?thesis using s example_effect(2) by auto
qed

section \<open>The clock\<close>

text \<open>
  The first time is kept for ever as the last one, so later times below it are each counted as an
  overflow of the clock: two times in order move the count by two.
\<close>

lemma ticks_count_overflows_again:
  assumes "lastTxTimestamp k \<noteq> 0" "0 < t1" "t1 \<le> t2" "t2 < lastTxTimestamp k"
  shows "TxCount (snd (xTaskGetTickCount ((snd (xTaskGetTickCount (k\<lparr>TxTimestamp := t1\<rparr>)))\<lparr>TxTimestamp := t2\<rparr>))) =
    TxCount k + 2"
proof -
  have "t1 < lastTxTimestamp k" "t1 \<noteq> 0" "t2 \<noteq> 0" using assms by auto
  then show ?thesis using assms(1,4) by (simp add: xTaskGetTickCount_def Let_def)
qed

lemma ticks_uninitialised: "fst (xTaskGetTickCount (k\<lparr>TxTimestamp := 0, RxTimestamp := 0\<rparr>)) = None"
  by (simp add: xTaskGetTickCount_def)

section \<open>The registration of drones\<close>

lemma node_disconnect_connect:
  assumes "node_connect nodes sock received = Some nodes'" "sock \<notin> dn_socket ` set nodes"
  shows "node_disconnect nodes' sock = nodes"
proof -
  have "node_disconnect (nodes @ [n]) sock = nodes" if "dn_socket n = sock" for n
    using assms(2) that by (induction nodes) auto
  then show ?thesis using assms(1) by (auto simp: node_connect_def split: if_splits)
qed

lemma node_connect_bounds:
  "node_connect nodes sock received = Some nodes' \<Longrightarrow> length nodes \<le> NODES_NUM \<Longrightarrow>
     length nodes' \<le> NODES_NUM \<and> (\<forall>n \<in> set nodes'. n \<in> set nodes \<or> length (dn_address n) < ADDR_SIZE)"
  using length_takeWhile_le [of "\<lambda>c. c \<noteq> CHR 0x00" received]
  by (auto simp: node_connect_def split: if_splits)

end
