(* ===== verification/Simulation_Log.thy ===== *)
theory Simulation_Log
  imports Prelude
begin

text \<open>
  The log of the simulation, \<open>DEBUG_PRINT\<close> of \<open>support.c\<close>: every drone is a process of its own that prints
  to its console and to one file, \<open>data/log/dynamic.txt\<close> in the configuration of \<open>support.h\<close>, which all of them share. The
  text is the formatted message. A print opens, writes and closes the file; prints of different processes
  are taken one after the other.
\<close>

text \<open>Of every process the console and \<open>first_call\<close>; the contents of the file, \<open>None\<close> when there is none.\<close>

record debug_log =
  dl_first_call :: "nat \<Rightarrow> bool"
  dl_console :: "nat \<Rightarrow> string"
  dl_file :: "string option"

text \<open>\<open>opened\<close> says whether \<open>fopen\<close> succeeds. The mode is "w" in the first call and "a" afterwards.\<close>

definition DEBUG_PRINT :: "bool \<Rightarrow> nat \<Rightarrow> string \<Rightarrow> debug_log \<Rightarrow> debug_log" where
  "DEBUG_PRINT opened p text_out s =
     (let s = s\<lparr>dl_console := (dl_console s)(p := dl_console s p @ text_out)\<rparr>
      in if opened then
           let old = (if dl_first_call s p then [] else case dl_file s of None \<Rightarrow> [] | Some f \<Rightarrow> f)
           in s\<lparr>dl_file := Some (old @ text_out), dl_first_call := (dl_first_call s)(p := False)\<rparr>
         else s\<lparr>dl_console := (dl_console s)(p := dl_console s p @
                  ''Warning: Could not open modified_Log.txt for writing'' @ nl)\<rparr>)"

definition debug_start :: "string option \<Rightarrow> debug_log" where
  "debug_start f = \<lparr>dl_first_call = (\<lambda>p. True), dl_console = (\<lambda>p. []), dl_file = f\<rparr>"

definition debug_run :: "string option \<Rightarrow> (nat \<times> string) list \<Rightarrow> debug_log" where
  "debug_run f ps = fold (\<lambda>(p, t). DEBUG_PRINT True p t) ps (debug_start f)"

lemma debug_run_snoc: "debug_run f (ps @ [(p, t)]) = DEBUG_PRINT True p t (debug_run f ps)"
  by (simp add: debug_run_def)

lemma debug_run_console: "dl_console (debug_run f ps) p = concat (map snd (filter (\<lambda>x. fst x = p) ps))"
proof (induction ps rule: rev_induct)
  case (snoc x ps)
  obtain q t where "x = (q, t)" by (cases x)
  then show ?case using snoc by (auto simp: debug_run_snoc DEBUG_PRINT_def Let_def)
qed (simp add: debug_run_def debug_start_def)

lemma debug_run_first: "dl_first_call (debug_run f ps) p \<longleftrightarrow> p \<notin> fst ` set ps"
proof (induction ps rule: rev_induct)
  case (snoc x ps)
  obtain q t where "x = (q, t)" by (cases x)
  then show ?case using snoc by (auto simp: debug_run_snoc DEBUG_PRINT_def Let_def)
qed (simp add: debug_run_def debug_start_def)

text \<open>
  While the consoles have all that is printed, the file has only what is printed from the moment on at
  which the last of the drones prints for the first time: each truncates the file in its first call.
\<close>

lemma debug_log_truncated:
  assumes "ps \<noteq> []"
  shows "\<exists>before p t after. ps = before @ (p, t) # after \<and> p \<notin> fst ` set before \<and>
    fst ` set after \<subseteq> fst ` set (before @ [(p, t)]) \<and> dl_file (debug_run f ps) = Some (t @ concat (map snd after))"
  using assms
proof (induction ps rule: rev_induct)
  case (snoc x ps)
  obtain q u where x: "x = (q, u)" by (cases x)
  show ?case
  proof (cases "q \<in> fst ` set ps")
    case False
    then have "dl_file (debug_run f (ps @ [x])) = Some u"
      by (simp add: x debug_run_snoc DEBUG_PRINT_def debug_run_first Let_def)
    then show ?thesis using False by (intro exI [of _ ps] exI [of _ q] exI [of _ u] exI [of _ "[]"]) (simp add: x)
  next
    case True
    then obtain before p t after where s: "ps = before @ (p, t) # after" "p \<notin> fst ` set before"
      "fst ` set after \<subseteq> fst ` set (before @ [(p, t)])" "dl_file (debug_run f ps) = Some (t @ concat (map snd after))"
      using snoc.IH by fastforce
    have "dl_file (debug_run f (ps @ [x])) = Some (t @ concat (map snd (after @ [x])))"
      using s(4) True by (simp add: x debug_run_snoc DEBUG_PRINT_def debug_run_first Let_def)
    moreover have "fst ` set (after @ [x]) \<subseteq> fst ` set (before @ [(p, t)])" using s(1,3) True x by auto
    ultimately show ?thesis using s(1,2)
      by (intro exI [of _ before] exI [of _ p] exI [of _ t] exI [of _ "after @ [x]"]) simp
  qed
qed simp

lemma debug_log_single:
  assumes "ps \<noteq> []" "\<forall>x \<in> set ps. fst x = p"
  shows "dl_file (debug_run f ps) = Some (concat (map snd ps))"
proof -
  obtain before q t after where s: "ps = before @ (q, t) # after" "q \<notin> fst ` set before"
    "dl_file (debug_run f ps) = Some (t @ concat (map snd after))" using debug_log_truncated [OF assms(1)] by blast
  have "before = []" using s(1,2) assms(2) by (cases before) auto
  then show ?thesis using s(1,3) by simp
qed

lemma debug_log_lost: "dl_file (debug_run None [(1, ''a''), (2, ''b''), (1, ''c'')]) = Some ''bc''"
  by (simp add: debug_run_def debug_start_def DEBUG_PRINT_def Let_def)

end
