(* ===== verification/Simulation_Mutex.thy ===== *)
theory Simulation_Mutex
  imports Prelude
begin

text \<open>
  The mutexes that \<open>support.c\<close> offers under the names of FreeRTOS: \<open>xSemaphoreCreateMutex\<close>,
  \<open>xSemaphoreDestroyMutex\<close>, \<open>xSemaphoreTake\<close> and \<open>xSemaphoreGive\<close>. They are allocated one by one and
  stand for \<open>pthread_mutex_t\<close>, whose use is a state of its own: a call returns, waits for another
  thread, or is undefined.
\<close>

datatype mutex = Raw | Free | Held nat

text \<open>The allocated mutexes by their address.\<close>

type_synonym mutexes = "nat \<rightharpoonup> mutex"

datatype 'a outcome = Returns 'a | Waits | Undefined

text \<open>The calls of the thread library on the mutex at an address, by the thread \<open>t\<close>.\<close>

definition pthread_mutex_lock :: "nat \<Rightarrow> nat \<Rightarrow> mutexes \<Rightarrow> (int \<times> mutexes) outcome" where
  "pthread_mutex_lock t a s =
     (case s a of
        Some Free \<Rightarrow> Returns (0, s(a \<mapsto> Held t))
      | Some (Held u) \<Rightarrow> Waits
      | _ \<Rightarrow> Undefined)"

definition pthread_mutex_unlock :: "nat \<Rightarrow> nat \<Rightarrow> mutexes \<Rightarrow> (int \<times> mutexes) outcome" where
  "pthread_mutex_unlock t a s = (if s a = Some (Held t) then Returns (0, s(a \<mapsto> Free)) else Undefined)"

definition pthread_mutex_destroy :: "nat \<Rightarrow> mutexes \<Rightarrow> mutexes outcome" where
  "pthread_mutex_destroy a s = (if s a = Some Free then Returns (s(a \<mapsto> Raw)) else Undefined)"

definition release :: "nat \<Rightarrow> mutexes \<Rightarrow> mutexes" where
  "release a s = s(a := None)"

text \<open>\<open>address\<close> is the result of \<open>malloc\<close>, \<open>init\<close> says whether \<open>pthread_mutex_init\<close> succeeds.\<close>

definition xSemaphoreCreateMutex :: "nat option \<Rightarrow> bool \<Rightarrow> mutexes \<Rightarrow> nat option \<times> mutexes" where
  "xSemaphoreCreateMutex address init s =
     (case address of
        None \<Rightarrow> (None, s)
      | Some mutex \<Rightarrow>
          let s = s(mutex \<mapsto> Raw)
          in if \<not> init then (None, release mutex s) else (Some mutex, s(mutex \<mapsto> Free)))"

definition xSemaphoreDestroyMutex :: "nat option \<Rightarrow> mutexes \<Rightarrow> mutexes outcome" where
  "xSemaphoreDestroyMutex handle s =
     (case handle of
        Some mutex \<Rightarrow>
          (case pthread_mutex_destroy mutex s of
             Returns s \<Rightarrow> Returns (release mutex s)
           | Waits \<Rightarrow> Waits
           | Undefined \<Rightarrow> Undefined)
      | None \<Rightarrow> Returns s)"

definition xSemaphoreTake :: "nat \<Rightarrow> nat \<Rightarrow> u32 \<Rightarrow> mutexes \<Rightarrow> (int \<times> mutexes) outcome" where
  "xSemaphoreTake t mutex xTicksToWait s = pthread_mutex_lock t mutex s"

definition xSemaphoreGive :: "nat \<Rightarrow> nat \<Rightarrow> mutexes \<Rightarrow> (int \<times> mutexes) outcome" where
  "xSemaphoreGive t mutex s = pthread_mutex_unlock t mutex s"

lemmas mutex_defs = pthread_mutex_lock_def pthread_mutex_unlock_def pthread_mutex_destroy_def release_def
  xSemaphoreCreateMutex_def xSemaphoreDestroyMutex_def xSemaphoreTake_def xSemaphoreGive_def

text \<open>A mutex that is created, used and destroyed leaves no memory behind; a failed creation neither.\<close>

lemma mutex_created:
  assumes "xSemaphoreCreateMutex address init s = (handle, s')" "\<forall>a. address = Some a \<longrightarrow> s a = None"
  shows "case handle of
      None \<Rightarrow> s' = s
    | Some a \<Rightarrow> s' a = Some Free \<and> xSemaphoreDestroyMutex handle s' = Returns s"
  using assms by (auto simp: mutex_defs Let_def fun_upd_idem split: option.splits if_splits)

text \<open>A thread that has taken a mutex excludes all others until it gives it back, whatever else is done.\<close>

datatype mutex_call = Take nat nat u32 | Give nat nat

fun mutex_perform :: "mutex_call \<Rightarrow> mutexes \<Rightarrow> (int \<times> mutexes) outcome" where
  "mutex_perform (Take t a ticks) s = xSemaphoreTake t a ticks s"
| "mutex_perform (Give t a) s = xSemaphoreGive t a s"

inductive mutex_run :: "mutexes \<Rightarrow> mutex_call list \<Rightarrow> mutexes \<Rightarrow> bool" where
  run_none: "mutex_run s [] s"
| run_call: "mutex_perform c s = Returns (r, s') \<Longrightarrow> mutex_run s' cs s'' \<Longrightarrow> mutex_run s (c # cs) s''"

lemma mutex_excludes:
  assumes "mutex_run s cs s'" "s a = Some (Held t)" "Give t a \<notin> set cs"
  shows "s' a = Some (Held t) \<and> (\<forall>u ticks. Take u a ticks \<notin> set cs)"
  using assms
proof (induction rule: mutex_run.induct)
  case (run_call c s r s' cs s'')
  have "s' a = Some (Held t) \<and> (\<forall>u ticks. c \<noteq> Take u a ticks)"
    using run_call.hyps(1) run_call.prems by (cases c) (auto simp: mutex_defs split: option.splits mutex.splits if_splits)
  then show ?case using run_call.IH run_call.prems by auto
qed simp

text \<open>The number of ticks to wait has no effect: a caller that asks not to wait at all waits for ever.\<close>

lemma take_ignores_ticks:
  assumes "s a = Some (Held u)"
  shows "xSemaphoreTake t a 0 s = Waits"
  using assms by (simp add: mutex_defs)

end
