(* ===== verification/Center_Startup.thy ===== *)
theory Center_Startup
  imports Simulation "HOL-Library.Sublist"
begin

text \<open>
  The start of the center: \<open>main\<close> of \<open>center.c\<close> accepts connections and hands each to a thread, which
  registers the drone by the address it sends. \<open>main\<close> locks the mutex of the node set before it creates
  the thread, and locks it again afterwards; the thread unlocks it when it has registered the drone.
  The mutex is modelled as the sources use it, so that a thread may unlock what another has locked.
  A drone that leaves is removed from the set under the same mutex. The set-up of the listening
  socket is in \<open>Swarm_Sockets\<close>; accepts that fail, which \<open>main\<close> repeats, are left out.
\<close>

section \<open>The code\<close>

text \<open>
  The thread of a connection, by its socket: none while the socket is closed, waiting for the address,
  with the bytes the client is going to send (none when it closes the connection), serving
  its drone, or about to remove it.
\<close>

datatype node_pc = N_Closed | N_Address string | N_Serve | N_Leave

text \<open>\<open>main\<close>: in \<open>accept\<close>, before the first lock, before the creation of the thread, before the second
  lock, before the comparison of the count, waiting for the end of the simulation, or returned.\<close>

datatype startup_pc =
  A_Accept | A_Lock int string | A_Create int string | A_Relock | A_Check | A_Run | A_Done

record startup =
  su_clients :: "string list" \<comment> \<open>what the coming clients send\<close>
  su_mutex :: bool
  su_nodes :: "Drone_Node list"
  su_main :: startup_pc
  su_thread :: "int \<Rightarrow> node_pc"

inductive startup_step :: "startup \<Rightarrow> startup \<Rightarrow> bool" where
  accept_client: "su_main s = A_Accept \<Longrightarrow> su_clients s = c # cs \<Longrightarrow> su_thread s k = N_Closed \<Longrightarrow>
     startup_step s (s\<lparr>su_clients := cs, su_main := A_Lock k c\<rparr>)"
| lock_nodes: "su_main s = A_Lock k c \<Longrightarrow> \<not> su_mutex s \<Longrightarrow>
     startup_step s (s\<lparr>su_mutex := True, su_main := A_Create k c\<rparr>)"
| create_thread: "su_main s = A_Create k c \<Longrightarrow>
     startup_step s (s\<lparr>su_main := A_Relock, su_thread := (su_thread s)(k := N_Address c)\<rparr>)"
| create_fails: "su_main s = A_Create k c \<Longrightarrow> startup_step s (s\<lparr>su_main := A_Relock\<rparr>)"
| lock_again: "su_main s = A_Relock \<Longrightarrow> \<not> su_mutex s \<Longrightarrow>
     startup_step s (s\<lparr>su_mutex := True, su_main := A_Check\<rparr>)"
| check_count: "su_main s = A_Check \<Longrightarrow>
     startup_step s (s\<lparr>su_mutex := False, su_main := (if length (su_nodes s) = NODES_NUM then A_Run else A_Accept)\<rparr>)"
| register_node: "su_thread s k = N_Address c \<Longrightarrow> node_connect (su_nodes s) k c = Some nodes \<Longrightarrow>
     startup_step s (s\<lparr>su_nodes := nodes, su_mutex := False, su_thread := (su_thread s)(k := N_Serve)\<rparr>)"
| hang_up: "su_thread s k = N_Address [] \<Longrightarrow> startup_step s (s\<lparr>su_thread := (su_thread s)(k := N_Closed)\<rparr>)"
| disconnected: "su_thread s k = N_Serve \<Longrightarrow> startup_step s (s\<lparr>su_thread := (su_thread s)(k := N_Leave)\<rparr>)"
| remove_node: "su_thread s k = N_Leave \<Longrightarrow> \<not> su_mutex s \<Longrightarrow>
     startup_step s (s\<lparr>su_nodes := node_disconnect (su_nodes s) k, su_thread := (su_thread s)(k := N_Closed)\<rparr>)"
| all_gone: "su_main s = A_Run \<Longrightarrow> su_nodes s = [] \<Longrightarrow> startup_step s (s\<lparr>su_main := A_Done\<rparr>)"

definition startup_start :: "string list \<Rightarrow> startup" where
  "startup_start clients = \<lparr>su_clients = clients, su_mutex = False, su_nodes = [], su_main = A_Accept,
     su_thread = (\<lambda>k. N_Closed)\<rparr>"

inductive startup_reachable :: "startup \<Rightarrow> startup \<Rightarrow> bool" for s0 where
  startup_init: "startup_reachable s0 s0"
| startup_next: "startup_reachable s0 s \<Longrightarrow> startup_step s s' \<Longrightarrow> startup_reachable s0 s'"

section \<open>The invariant\<close>

text \<open>The client that \<open>main\<close> or its thread is dealing with.\<close>

definition awaited :: "startup \<Rightarrow> int \<Rightarrow> string \<Rightarrow> bool" where
  "awaited s k c \<longleftrightarrow> su_thread s k = N_Address c"

definition nobody :: "startup \<Rightarrow> bool" where
  "nobody s \<longleftrightarrow> (\<forall>k c. \<not> awaited s k c)"

definition in_turn :: "string list \<Rightarrow> string list \<Rightarrow> startup \<Rightarrow> bool" where
  "in_turn clients pending s \<longleftrightarrow>
     (\<exists>taken. clients = taken @ pending @ su_clients s \<and>
        subseq (map dn_address (su_nodes s)) (map (takeWhile (\<lambda>c. c \<noteq> CHR 0x00)) taken))"

definition main_inv :: "string list \<Rightarrow> startup \<Rightarrow> bool" where
  "main_inv clients s \<longleftrightarrow>
     (case su_main s of
        A_Accept \<Rightarrow> \<not> su_mutex s \<and> nobody s \<and> length (su_nodes s) < NODES_NUM \<and> in_turn clients [] s
      | A_Lock k c \<Rightarrow> \<not> su_mutex s \<and> nobody s \<and> length (su_nodes s) < NODES_NUM \<and> in_turn clients [c] s \<and> su_thread s k = N_Closed
      | A_Create k c \<Rightarrow> su_mutex s \<and> nobody s \<and> length (su_nodes s) < NODES_NUM \<and> in_turn clients [c] s \<and> su_thread s k = N_Closed
      | A_Relock \<Rightarrow>
          (if nobody s then in_turn clients [] s
           else su_mutex s \<and> length (su_nodes s) < NODES_NUM \<and>
             (\<exists>k c. awaited s k c \<and> in_turn clients [c] s \<and> (\<forall>k' c'. awaited s k' c' \<longrightarrow> k' = k)))
      | A_Check \<Rightarrow> su_mutex s \<and> nobody s \<and> in_turn clients [] s
      | _ \<Rightarrow> \<not> su_mutex s \<and> nobody s \<and> in_turn clients [] s)"

definition nodes_inv :: "startup \<Rightarrow> bool" where
  "nodes_inv s \<longleftrightarrow>
     length (su_nodes s) \<le> NODES_NUM \<and> distinct (map dn_socket (su_nodes s)) \<and>
     (\<forall>k. k \<in> dn_socket ` set (su_nodes s) \<longleftrightarrow> su_thread s k = N_Serve \<or> su_thread s k = N_Leave) \<and>
     (\<forall>n \<in> set (su_nodes s). length (dn_address n) < ADDR_SIZE)"

lemma node_disconnect_facts:
  "subseq (node_disconnect nodes k) nodes"
  "distinct (map dn_socket nodes) \<Longrightarrow>
     distinct (map dn_socket (node_disconnect nodes k)) \<and> dn_socket ` set (node_disconnect nodes k) = dn_socket ` set nodes - {k}"
proof (induction nodes)
  case (Cons n nodes)
  {
    case 1
    then show ?case using Cons(1) by (auto intro: list_emb_Cons)
  next
    case 2
    then show ?case using Cons(2) by (auto simp: rev_image_eqI)
  }
qed simp_all

lemma node_connect_facts:
  assumes "node_connect nodes k c = Some nodes'"
  shows "nodes' = nodes @ [\<lparr>dn_socket = k, dn_address = takeWhile (\<lambda>c. c \<noteq> CHR 0x00) c\<rparr>]"
    "length nodes < NODES_NUM" "length (takeWhile (\<lambda>c. c \<noteq> CHR 0x00) c) < ADDR_SIZE" "c \<noteq> []"
  using assms length_takeWhile_le [of "\<lambda>c. c \<noteq> CHR 0x00" c] by (auto simp: node_connect_def split: if_splits)

lemma nodes_inv_step:
  assumes "nodes_inv s" "main_inv clients s" "startup_step s s'"
  shows "nodes_inv s'"
  using assms(3)
proof cases
  case (register_node k c nodes)
  have "k \<notin> dn_socket ` set (su_nodes s)" using assms(1) register_node(2) by (auto simp: nodes_inv_def)
  then show ?thesis using assms(1) register_node(1) node_connect_facts [OF register_node(3)] by (auto simp: nodes_inv_def)
next
  case (remove_node k)
  note d = node_disconnect_facts [of "su_nodes s" k]
  have "length (node_disconnect (su_nodes s) k) \<le> length (su_nodes s)" "set (node_disconnect (su_nodes s) k) \<subseteq> set (su_nodes s)"
    using d(1) by (auto dest: list_emb_length list_emb_set)
  then show ?thesis using assms(1) remove_node(1) d(2) by (auto simp: nodes_inv_def)
next
  case (create_thread k c)
  have "su_thread s k = N_Closed" using assms(2) create_thread(2) by (auto simp: main_inv_def)
  then show ?thesis using assms(1) create_thread(1) by (auto simp: nodes_inv_def)
next
  case (hang_up k)
  then show ?thesis using assms(1) by (auto simp: nodes_inv_def)
next
  case (disconnected k)
  then show ?thesis using assms(1) by (auto simp: nodes_inv_def)
qed (use assms(1) in \<open>simp_all add: nodes_inv_def\<close>)

lemma in_turn_register:
  assumes "in_turn clients [c] s" "node_connect (su_nodes s) k c = Some nodes"
  shows "in_turn clients [] (s\<lparr>su_nodes := nodes, su_mutex := False, su_thread := f\<rparr>)"
  using assms(1) node_connect_facts(1) [OF assms(2)] unfolding in_turn_def
  by (elim exE) (rule exI, auto intro: list_emb_append_mono)

lemma in_turn_remove:
  assumes "in_turn clients p s"
  shows "in_turn clients p (s\<lparr>su_nodes := node_disconnect (su_nodes s) k, su_thread := f\<rparr>)"
proof -
  have "subseq (map dn_address (node_disconnect (su_nodes s) k)) (map dn_address (su_nodes s))"
    by (intro subseq_map node_disconnect_facts)
  then show ?thesis using assms by (auto simp: in_turn_def intro: subseq_order.order_trans)
qed

lemma in_turn_skip: "in_turn clients [c] s \<Longrightarrow> in_turn clients [] s"
proof -
  assume "in_turn clients [c] s"
  then obtain taken where t: "clients = taken @ [c] @ su_clients s"
    "subseq (map dn_address (su_nodes s)) (map (takeWhile (\<lambda>c. c \<noteq> CHR 0x00)) taken)" by (auto simp: in_turn_def)
  have "subseq (map dn_address (su_nodes s)) (map (takeWhile (\<lambda>c. c \<noteq> CHR 0x00)) (taken @ [c]))"
    using list_emb_append_mono [OF t(2), of "[]" "[takeWhile (\<lambda>c. c \<noteq> CHR 0x00) c]"] by simp
  then show "in_turn clients [] s" using t(1) by (auto simp: in_turn_def intro: exI [of _ "taken @ [c]"])
qed

lemma nobody_simps [simp]:
  "nobody (s\<lparr>su_clients := cs\<rparr>) = nobody s" "nobody (s\<lparr>su_mutex := b\<rparr>) = nobody s"
  "nobody (s\<lparr>su_nodes := ns\<rparr>) = nobody s" "nobody (s\<lparr>su_main := m\<rparr>) = nobody s"
  by (simp_all add: nobody_def awaited_def)

lemma in_turn_simps [simp]:
  "in_turn clients p (s\<lparr>su_mutex := b\<rparr>) = in_turn clients p s" "in_turn clients p (s\<lparr>su_main := m\<rparr>) = in_turn clients p s"
  "in_turn clients p (s\<lparr>su_thread := f\<rparr>) = in_turn clients p s"
  by (simp_all add: in_turn_def)

lemma in_turn_take: "su_clients s = c # cs \<Longrightarrow> in_turn clients [] s \<Longrightarrow> in_turn clients [c] (s\<lparr>su_clients := cs\<rparr>)"
  by (simp add: in_turn_def)

text \<open>A thread that waits for an address: only while \<open>main\<close> waits at its second lock.\<close>

lemma awaited_relock:
  assumes "main_inv clients s" "su_thread s k = N_Address c"
  shows "su_main s = A_Relock" "su_mutex s" "length (su_nodes s) < NODES_NUM" "in_turn clients [c] s"
    "\<And>k' c'. su_thread s k' = N_Address c' \<Longrightarrow> k' = k"
proof -
  have n: "\<not> nobody s" using assms(2) by (auto simp: nobody_def awaited_def)
  then have m: "su_main s = A_Relock" using assms(1) by (auto simp: main_inv_def split: startup_pc.splits)
  then obtain k0 c0 where a: "su_mutex s" "length (su_nodes s) < NODES_NUM" "awaited s k0 c0" "in_turn clients [c0] s"
    "\<And>k' c'. awaited s k' c' \<Longrightarrow> k' = k0" using assms(1) n by (auto simp: main_inv_def)
  have "k = k0" using a(5) assms(2) by (simp add: awaited_def)
  then have "c = c0" using a(3) assms(2) by (simp add: awaited_def)
  show "su_main s = A_Relock" "su_mutex s" "length (su_nodes s) < NODES_NUM" by (rule m a(1) a(2))+
  show "in_turn clients [c] s" using a(4) \<open>c = c0\<close> by simp
  show "k' = k" if "su_thread s k' = N_Address c'" for k' c' using a(5) [of k' c'] that \<open>k = k0\<close> by (simp add: awaited_def)
qed

lemma nobody_left:
  "(\<And>k' c'. su_thread s k' = N_Address c' \<Longrightarrow> k' = k) \<Longrightarrow> \<forall>c. pc \<noteq> N_Address c \<Longrightarrow> nobody (s\<lparr>su_thread := (su_thread s)(k := pc)\<rparr>)"
  by (auto simp: nobody_def awaited_def)

lemma nobody_still: "nobody s \<Longrightarrow> \<forall>c. pc \<noteq> N_Address c \<Longrightarrow> nobody (s\<lparr>su_thread := (su_thread s)(k := pc)\<rparr>)"
  by (auto simp: nobody_def awaited_def)

lemma main_inv_step:
  assumes inv: "main_inv clients s" and nodes: "nodes_inv s" and "startup_step s s'"
  shows "main_inv clients s'"
  using assms(3)
proof cases
  case (accept_client c cs k)
  then show ?thesis using inv in_turn_take [of s c cs clients] by (simp add: main_inv_def)
next
  case (lock_nodes k c)
  then show ?thesis using inv by (simp add: main_inv_def)
next
  case (create_thread k c)
  have "\<not> nobody s'" "awaited s' k c" "\<forall>k' c'. awaited s' k' c' \<longrightarrow> k' = k"
    using inv create_thread by (auto simp: main_inv_def nobody_def awaited_def)
  moreover have "su_mutex s'" "length (su_nodes s') < NODES_NUM" "in_turn clients [c] s'"
    using inv create_thread by (simp_all add: main_inv_def)
  ultimately show ?thesis using create_thread(1) by (auto simp: main_inv_def)
next
  case (create_fails k c)
  then show ?thesis using inv in_turn_skip [of clients c s] by (simp add: main_inv_def)
next
  case lock_again
  then show ?thesis using inv by (simp add: main_inv_def split: if_splits)
next
  case check_count
  then show ?thesis using inv nodes by (simp add: main_inv_def nodes_inv_def)
next
  case (register_node k c nodes')
  note a = awaited_relock [OF inv register_node(2)]
  have "nobody s'" using a(5) register_node(1) by (auto simp: nobody_def awaited_def)
  moreover have "in_turn clients [] s'" using in_turn_register [OF a(4) register_node(3)] register_node(1) by simp
  ultimately show ?thesis using a(1) register_node(1) by (simp add: main_inv_def)
next
  case (hang_up k)
  note a = awaited_relock [OF inv hang_up(2)]
  have "nobody s'" unfolding hang_up(1) by (rule nobody_left) (use a(5) in auto)
  moreover have "in_turn clients [] s'" using in_turn_skip [OF a(4)] hang_up(1) by simp
  ultimately show ?thesis using a(1) hang_up(1) by (simp add: main_inv_def)
next
  case (disconnected k)
  have "awaited s' k' c' = awaited s k' c'" for k' c' using disconnected by (auto simp: awaited_def)
  moreover from this have "nobody s' = nobody s" by (simp add: nobody_def)
  ultimately show ?thesis using inv disconnected by (auto simp: main_inv_def split: startup_pc.splits)
next
  case (remove_node k)
  have n: "nobody s" using inv remove_node(3) by (auto simp: main_inv_def split: startup_pc.splits if_splits)
  have "length (su_nodes s') \<le> length (su_nodes s)"
    using node_disconnect_facts(1) [of "su_nodes s" k] remove_node(1) by (auto dest: list_emb_length)
  moreover have "nobody s'" using n nobody_still remove_node(1) by (auto simp: nobody_def awaited_def)
  moreover have "in_turn clients p s \<Longrightarrow> in_turn clients p s'" for p using in_turn_remove remove_node(1) by simp
  ultimately show ?thesis using inv n remove_node by (auto simp: main_inv_def split: startup_pc.splits)
next
  case all_gone
  then show ?thesis using inv by (simp add: main_inv_def)
qed

definition startup_inv :: "string list \<Rightarrow> startup \<Rightarrow> bool" where
  "startup_inv clients s \<longleftrightarrow> main_inv clients s \<and> nodes_inv s"

lemma startup_inv_reachable: "startup_reachable (startup_start clients) s \<Longrightarrow> startup_inv clients s"
proof (induction rule: startup_reachable.induct)
  case startup_init
  show ?case
    by (simp add: startup_inv_def startup_start_def main_inv_def nodes_inv_def nobody_def awaited_def in_turn_def NODES_NUM_def)
next
  case (startup_next s s')
  then show ?case unfolding startup_inv_def using main_inv_step nodes_inv_step by blast
qed

section \<open>A lost connection\<close>

text \<open>\<open>main\<close> waits for the mutex, and no thread is left that would register a drone and unlock it.\<close>

definition connection_lost :: "startup \<Rightarrow> bool" where
  "connection_lost s \<longleftrightarrow> su_main s = A_Relock \<and> su_mutex s \<and> (\<forall>k c. su_thread s k = N_Address c \<longrightarrow> c = [])"

lemma lost_step:
  assumes "startup_step s s'" "connection_lost s"
  shows "connection_lost s' \<and> su_nodes s' = su_nodes s"
  using assms(1)
proof cases
  case (register_node k c nodes)
  have "c \<noteq> []" by (rule node_connect_facts(4) [OF register_node(3)])
  then show ?thesis using assms(2) register_node(2) by (simp add: connection_lost_def)
qed (use assms(2) in \<open>simp_all add: connection_lost_def\<close>)

lemma lost_for_ever:
  "startup_reachable s t \<Longrightarrow> connection_lost s \<Longrightarrow> connection_lost t \<and> su_nodes t = su_nodes s"
  by (induction rule: startup_reachable.induct) (auto dest: lost_step)

lemma free_socket:
  assumes "nodes_inv s" "nobody s"
  obtains k where "su_thread s k = N_Closed"
proof -
  obtain k :: int where "k \<notin> dn_socket ` set (su_nodes s)" 
    using ex_new_if_finite [OF infinite_UNIV_int, of "dn_socket ` set (su_nodes s)"] by auto
  then have "su_thread s k \<noteq> N_Serve" "su_thread s k \<noteq> N_Leave" using assms(1) by (simp_all add: nodes_inv_def)
  moreover have "su_thread s k \<noteq> N_Address c" for c using assms(2) by (simp add: nobody_def awaited_def)
  ultimately have "su_thread s k = N_Closed" using node_pc.exhaust by metis
  then show thesis by (rule that)
qed

definition goes_on :: "startup \<Rightarrow> bool" where
  "goes_on s \<longleftrightarrow>
     (\<exists>s'. startup_step s s' \<and> (su_main s' \<noteq> su_main s \<or> length (su_nodes s) < length (su_nodes s')))"

lemma goes_on: "startup_step s s' \<Longrightarrow> su_main s' \<noteq> su_main s \<or> length (su_nodes s) < length (su_nodes s') \<Longrightarrow> goes_on s"
  by (auto simp: goes_on_def)

lemma relock_goes_on:
  assumes inv: "startup_inv clients s" and m: "su_main s = A_Relock" "\<not> connection_lost s"
    and short: "\<forall>c \<in> set clients. length c < ADDR_SIZE"
  shows "goes_on s"
proof (cases "su_mutex s")
  case False
  show ?thesis by (rule goes_on [OF startup_step.lock_again [OF m(1) False]]) (simp add: m)
next
  case True
  then obtain k c where kc: "su_thread s k = N_Address c" "c \<noteq> []" using m by (auto simp: connection_lost_def)
  have main: "main_inv clients s" using inv by (simp add: startup_inv_def)
  note a = awaited_relock [OF main kc(1)]
  have "c \<in> set clients" using a(4) by (auto simp: in_turn_def)
  then obtain nodes where n: "node_connect (su_nodes s) k c = Some nodes"
    using kc(2) a(3) short by (fastforce simp: node_connect_def)
  show ?thesis by (rule goes_on [OF startup_step.register_node [OF kc(1) n]]) (simp add: node_connect_facts(1) [OF n])
qed

lemma main_goes_on:
  assumes inv: "startup_inv clients s" and "\<not> connection_lost s" "\<forall>c \<in> set clients. length c < ADDR_SIZE"
    and "su_main s \<notin> {A_Run, A_Done}" "su_main s = A_Accept \<longrightarrow> su_clients s \<noteq> []"
  shows "goes_on s"
proof (cases "su_main s")
  case A_Accept
  then obtain c cs where c: "su_clients s = c # cs" using assms(5) by (cases "su_clients s") simp_all
  obtain k where k: "su_thread s k = N_Closed"
    using free_socket inv A_Accept by (auto simp: startup_inv_def main_inv_def)
  show ?thesis by (rule goes_on [OF startup_step.accept_client [OF A_Accept c k]]) (simp add: A_Accept)
next
  case (A_Lock k c)
  then have "\<not> su_mutex s" using inv by (simp add: startup_inv_def main_inv_def)
  from goes_on [OF startup_step.lock_nodes [OF A_Lock this]] show ?thesis by (simp add: A_Lock)
next
  case (A_Create k c)
  show ?thesis by (rule goes_on [OF startup_step.create_thread [OF A_Create]]) (simp add: A_Create)
next
  case A_Relock
  then show ?thesis using relock_goes_on assms(1-3) by blast
next
  case A_Check
  show ?thesis by (rule goes_on [OF startup_step.check_count [OF A_Check]]) (simp add: A_Check)
qed (use assms(4) in simp_all)

section \<open>The properties\<close>

text \<open>
  C0. The center registers the drones in the order in which they connect, each once and at most
  \<open>NODES_NUM\<close> of them: when a thread registers a drone there is room for it, and the log is started only when all
  drones are registered.
\<close>

theorem center_registers:
  assumes "startup_reachable (startup_start clients) s"
  shows "distinct (map dn_socket (su_nodes s)) \<and> length (su_nodes s) \<le> NODES_NUM \<and>
    (\<forall>k c. su_thread s k = N_Address c \<longrightarrow> length (su_nodes s) < NODES_NUM) \<and>
    (\<exists>taken. clients = taken @ su_clients s \<and>
       subseq (map dn_address (su_nodes s)) (map (takeWhile (\<lambda>c. c \<noteq> CHR 0x00)) taken)) \<and>
    (\<forall>s'. startup_step s s' \<and> su_main s \<noteq> A_Run \<and> su_main s' = A_Run \<longrightarrow> length (su_nodes s') = NODES_NUM)"
proof -
  have main: "main_inv clients s" and nodes: "nodes_inv s"
    using startup_inv_reachable [OF assms] by (simp_all add: startup_inv_def)
  have "in_turn clients [] s"
    using main in_turn_skip by (auto simp: main_inv_def split: startup_pc.splits if_splits)
  then have "\<exists>taken. clients = taken @ su_clients s \<and>
       subseq (map dn_address (su_nodes s)) (map (takeWhile (\<lambda>c. c \<noteq> CHR 0x00)) taken)" by (simp add: in_turn_def)
  moreover have "\<forall>k c. su_thread s k = N_Address c \<longrightarrow> length (su_nodes s) < NODES_NUM"
    using awaited_relock(3) [OF main] by blast
  moreover have "length (su_nodes s') = NODES_NUM" if "startup_step s s'" "su_main s \<noteq> A_Run" "su_main s' = A_Run" for s'
    using that by cases (simp_all split: if_splits)
  ultimately show ?thesis using nodes by (simp add: nodes_inv_def)
qed

text \<open>
  C0. The center always goes on, or waits for another drone to connect, with one exception: when a
  client closes its connection before it has sent an address, or its thread is not created,
  \<open>main\<close> waits for ever for the mutex that it has locked itself, no drone is registered any more and none that leaves is removed.
\<close>

theorem center_goes_on:
  assumes "startup_reachable (startup_start clients) s" and "\<forall>c \<in> set clients. length c < ADDR_SIZE"
  shows "if connection_lost s then \<forall>t. startup_reachable s t \<longrightarrow> su_main t = A_Relock \<and> su_nodes t = su_nodes s
    else su_main s \<in> {A_Run, A_Done} \<or> su_main s = A_Accept \<and> su_clients s = [] \<or>
      (\<exists>s'. startup_step s s' \<and> (su_main s' \<noteq> su_main s \<or> length (su_nodes s) < length (su_nodes s')))"
proof (cases "connection_lost s")
  case True
  then show ?thesis using lost_for_ever by (simp add: connection_lost_def)
next
  case False
  then show ?thesis using main_goes_on [OF startup_inv_reachable [OF assms(1)] False assms(2)]
    by (auto simp: goes_on_def)
qed

section \<open>Examples\<close>

text \<open>A connection that is registered, and one that is lost.\<close>

lemma connection_registered:
  assumes "startup_reachable s0 s" "su_main s = A_Accept" "su_clients s = c # cs" "su_thread s k = N_Closed" "\<not> su_mutex s"
    and n: "node_connect (su_nodes s) k c = Some nodes"
  shows "startup_reachable s0 (s\<lparr>su_clients := cs, su_mutex := False, su_nodes := nodes,
    su_main := (if length nodes = NODES_NUM then A_Run else A_Accept), su_thread := (su_thread s)(k := N_Serve)\<rparr>)"
proof -
  let ?a = "s\<lparr>su_clients := cs, su_main := A_Lock k c\<rparr>"
  let ?b = "?a\<lparr>su_mutex := True, su_main := A_Create k c\<rparr>"
  let ?c = "?b\<lparr>su_main := A_Relock, su_thread := (su_thread ?b)(k := N_Address c)\<rparr>"
  let ?d = "?c\<lparr>su_nodes := nodes, su_mutex := False, su_thread := (su_thread ?c)(k := N_Serve)\<rparr>"
  let ?e = "?d\<lparr>su_mutex := True, su_main := A_Check\<rparr>"
  have "startup_reachable s0 ?a" using startup_next [OF assms(1) accept_client [OF assms(2-4)]] .
  then have "startup_reachable s0 ?b" by (rule startup_next) (rule lock_nodes, simp_all add: assms(5))
  then have "startup_reachable s0 ?c" by (rule startup_next) (rule create_thread, simp)
  then have "startup_reachable s0 ?d" by (rule startup_next) (rule register_node [of _ k c], simp_all add: n)
  then have "startup_reachable s0 ?e" by (rule startup_next) (rule lock_again, simp_all)
  from startup_next [OF this check_count] show ?thesis by (cases s) (simp split del: if_split)
qed

theorem center_registers_witness:
  "\<exists>s. startup_reachable (startup_start [''1'', ''2'']) s \<and> su_main s = A_Run \<and>
     map dn_address (su_nodes s) = [''1'', ''2''] \<and> distinct (map dn_socket (su_nodes s)) \<and> length (su_nodes s) \<le> NODES_NUM"
proof -
  let ?s0 = "startup_start [''1'', ''2'']"
  let ?n1 = "\<lparr>dn_socket = 4, dn_address = ''1''\<rparr>" and ?n2 = "\<lparr>dn_socket = 5, dn_address = ''2''\<rparr>"
  let ?s1 = "?s0\<lparr>su_clients := [''2''], su_mutex := False, su_nodes := [?n1], su_main := A_Accept,
    su_thread := (su_thread ?s0)(4 := N_Serve)\<rparr>"
  have 1: "startup_reachable ?s0 ?s1"
    using connection_registered [OF startup_init, of ?s0 "''1''" "[''2'']" 4 "[?n1]"]
    by (simp add: startup_start_def node_connect_def ADDR_SIZE_def NODES_NUM_def)
  obtain s where s: "startup_reachable ?s0 s" "su_main s = A_Run" "su_nodes s = [?n1, ?n2]"
    using connection_registered [OF 1, of "''2''" "[]" 5 "[?n1, ?n2]"]
    by (simp add: startup_start_def node_connect_def ADDR_SIZE_def NODES_NUM_def)
  then show ?thesis using center_registers [OF s(1)] by (intro exI [of _ s]) simp
qed

theorem center_goes_on_witness:
  "\<exists>s. startup_reachable (startup_start [[], ''2'']) s \<and> connection_lost s \<and>
     (\<forall>t. startup_reachable s t \<longrightarrow> su_main t = A_Relock \<and> su_nodes t = [])"
proof -
  let ?s0 = "startup_start [[], ''2'']"
  let ?a = "?s0\<lparr>su_clients := [''2''], su_main := A_Lock 4 []\<rparr>"
  let ?b = "?a\<lparr>su_mutex := True, su_main := A_Create 4 []\<rparr>"
  let ?c = "?b\<lparr>su_main := A_Relock, su_thread := (su_thread ?b)(4 := N_Address [])\<rparr>"
  let ?d = "?c\<lparr>su_thread := (su_thread ?c)(4 := N_Closed)\<rparr>"
  have "startup_reachable ?s0 ?a"
    by (rule startup_next [OF startup_init]) (rule accept_client, simp_all add: startup_start_def)
  then have "startup_reachable ?s0 ?b" by (rule startup_next) (rule lock_nodes, simp_all add: startup_start_def)
  then have "startup_reachable ?s0 ?c" by (rule startup_next) (rule create_thread, simp)
  then have d: "startup_reachable ?s0 ?d" by (rule startup_next) (rule hang_up, simp)
  have "connection_lost ?d" by (simp add: connection_lost_def startup_start_def)
  moreover have "su_nodes ?d = []" by (simp add: startup_start_def)
  ultimately show ?thesis using center_goes_on [OF d] d by (intro exI [of _ ?d]) (simp add: ADDR_SIZE_def)
qed

end
