(* ===== verification/Swarm_Sockets.thy ===== *)
theory Swarm_Sockets
  imports Center_Startup
begin

text \<open>
  The sockets of the simulation: the listening socket of \<open>main\<close> in \<open>center.c\<close>, the broadcast of a message
  to all drones as one operation, and \<open>main\<close> of \<open>drone.c\<close>, which connects to the center and registers.
  The results of the calls of the system are parameters; the calls on a socket are logged.
\<close>

section \<open>The center\<close>

definition CENTER_IP :: string where "CENTER_IP = ''127.0.0.1''"
definition CENTER_PORT :: nat where "CENTER_PORT = 8520"

datatype socket_call =
  Opened int | Bound int nat | Listens int nat | Connected int string nat | Sent int string | Closed int

record listening_calls =
  lc_socket :: int
  lc_setsockopt :: bool
  lc_bind :: bool
  lc_listen :: bool

text \<open>The exit code of a failure, or the socket that \<open>accept\<close> is called on, and the calls.\<close>

definition center_listen :: "listening_calls \<Rightarrow> (int + int) \<times> socket_call list" where
  "center_listen W =
     (let server_fd = lc_socket W
      in if server_fd < 0 then (Inl 1, [])
         else if \<not> lc_setsockopt W then (Inl 1, [Opened server_fd])
         else if \<not> lc_bind W then (Inl 1, [Opened server_fd])
         else if \<not> lc_listen W then (Inl 1, [Opened server_fd, Bound server_fd CENTER_PORT])
         else (Inr server_fd, [Opened server_fd, Bound server_fd CENTER_PORT, Listens server_fd NODES_NUM]))"

text \<open>The loop of the broadcast, without what the other threads do meanwhile.\<close>

definition broadcast_rangingMessage :: "string list \<Rightarrow> 'm Simu_Message \<Rightarrow> ('l, 'm) sim_state \<Rightarrow> ('l, 'm) sim_state" where
  "broadcast_rangingMessage nodes simu_msg s = fold (\<lambda>i. deliver i simu_msg) [0..<length nodes] s"

section \<open>A drone\<close>

text \<open>
  What the receiving thread ends with: the process exits at the disconnection, and the thread returns
  after a message of unknown size.
\<close>

datatype receive_end = Disconnected | Unknown_Size

record connecting_calls =
  cc_socket :: int
  cc_inet_pton :: bool
  cc_connect :: bool
  cc_thread :: bool
  cc_end :: receive_end

text \<open>The lines of the log in memory and the position in them.\<close>

definition free_csv_memory :: "string list \<times> nat \<Rightarrow> string list \<times> nat" where
  "free_csv_memory m = ([], 0)"

text \<open>
  \<open>main\<close> on the arguments after the program's name; \<open>fp\<close> is the file of the log. The result is the exit code, the
  calls, and what is left in memory.
\<close>

definition drone_main ::
    "connecting_calls \<Rightarrow> string list \<Rightarrow> string option \<Rightarrow> int \<times> socket_call list \<times> (string list \<times> nat)" where
  "drone_main W args fp =
     (case args of
        [] \<Rightarrow> (1, [], [], 0)
      | localAddress # _ \<Rightarrow>
          (case load_csv_to_memory fp of (rows, csv_lines) \<Rightarrow>
             if rows \<le> 0 then (1, [], csv_lines, 0)
             else
               let center_socket = cc_socket W
               in if center_socket < 0 then (-1, [], csv_lines, 0)
                  else if \<not> cc_inet_pton W then (-1, [Opened center_socket, Closed center_socket], csv_lines, 0)
                  else if \<not> cc_connect W then (-1, [Opened center_socket, Closed center_socket], csv_lines, 0)
                  else
                    let calls = [Opened center_socket, Connected center_socket CENTER_IP CENTER_PORT,
                      Sent center_socket localAddress]
                    in if \<not> cc_thread W then (-1, calls @ [Closed center_socket], csv_lines, 0)
                       else case cc_end W of
                         Disconnected \<Rightarrow> (0, calls, csv_lines, 0)
                       | Unknown_Size \<Rightarrow> (0, calls @ [Closed center_socket], free_csv_memory (csv_lines, 0))))"

section \<open>Facts\<close>

text \<open>
  What a drone has opened it has closed when it returns, but for the exit at the disconnection, where the
  system does it. It registers at most once, only when it is connected and has its copy of the log,
  and with its own address.
\<close>

definition open_sockets :: "socket_call list \<Rightarrow> int set" where
  "open_sockets calls = {k. Opened k \<in> set calls \<and> Closed k \<notin> set calls}"

lemma drone_main_closes:
  assumes "drone_main W args fp = (code, calls, memory)"
  shows "open_sockets calls = (if code = 0 \<and> cc_end W = Disconnected then {cc_socket W} else {})"
  using assms
  by (auto simp: drone_main_def open_sockets_def Let_def split: list.splits prod.splits if_splits receive_end.splits)

lemma drone_main_registers:
  assumes "drone_main W args fp = (code, calls, memory)" "Sent k a \<in> set calls"
  shows "k = cc_socket W \<and> args \<noteq> [] \<and> a = hd args \<and> 0 < fst (load_csv_to_memory fp) \<and>
    calls ! 1 = Connected k CENTER_IP CENTER_PORT \<and> calls ! 2 = Sent k a \<and> (\<forall>i < length calls. i \<noteq> 2 \<longrightarrow> calls ! i \<noteq> Sent k a)"
  using assms
  by (auto simp: drone_main_def Let_def nth_append nth_Cons' split: list.splits prod.splits if_splits receive_end.splits)

text \<open>The center accepts only on a socket that is bound to the port the drones connect to.\<close>

lemma center_listen_ready:
  "center_listen W = (Inr k, calls) \<Longrightarrow> 0 \<le> k \<and> Bound k CENTER_PORT \<in> set calls \<and> Listens k NODES_NUM \<in> set calls"
  by (auto simp: center_listen_def Let_def split: if_splits)

text \<open>The steps of the thread of a drone carry out this broadcast, when no other thread comes in between.\<close>

lemma broadcast_other:
  "st_handler (fold (\<lambda>i. deliver i msg) is s) = st_handler s" "st_exited (fold (\<lambda>i. deliver i msg) is s) = st_exited s"
  by (induction "is" arbitrary: s) (simp_all add: deliver_def)

lemma broadcast_inbox:
  "st_inbox (broadcast_rangingMessage nodes msg s) j = st_inbox s j @ (if j < length nodes then [msg] else [])"
proof -
  have "st_inbox (fold (\<lambda>i. deliver i msg) [0..<n] s) j = st_inbox s j @ (if j < n then [msg] else [])" for n
    by (induction n) (auto simp: deliver_def)
  then show ?thesis by (simp add: broadcast_rangingMessage_def)
qed

lemma deliver_handler: "deliver k msg (s\<lparr>st_handler := h\<rparr>) = (deliver k msg s)\<lparr>st_handler := h\<rparr>"
  by (simp add: deliver_def)

lemma broadcast_steps:
  assumes "\<not> st_exited s" "i < length nodes" "st_handler s i = H_Send msg 0"
  shows "sim_reachable nodes L s
    ((broadcast_rangingMessage nodes msg s)\<lparr>st_handler := (st_handler s)(i := H_Send msg (length nodes))\<rparr>)"
proof -
  have "k \<le> length nodes \<Longrightarrow> sim_reachable nodes L s
      ((fold (\<lambda>i. deliver i msg) [0..<k] s)\<lparr>st_handler := (st_handler s)(i := H_Send msg k)\<rparr>)" for k
  proof (induction k)
    case 0
    have same: "s\<lparr>st_handler := (st_handler s)(i := H_Send msg 0)\<rparr> = s"
      using assms(3) by (cases s) (simp add: fun_upd_idem)
    have "fold (\<lambda>i. deliver i msg) [0..<0] s = s" by simp
    then show ?case unfolding same by (simp only: same sim_init)
  next
    case (Suc k)
    let ?t = "(fold (\<lambda>i. deliver i msg) [0..<k] s)\<lparr>st_handler := (st_handler s)(i := H_Send msg k)\<rparr>"
    have "sim_step nodes L ?t (deliver k msg ?t\<lparr>st_handler := (st_handler ?t)(i := H_Send msg (k + 1))\<rparr>)"
      by (rule sim_step.handler_send) (use assms Suc.prems in \<open>simp_all add: broadcast_other\<close>)
    from sim_next [OF Suc.IH [OF Suc_leD [OF Suc.prems]] this] show ?case by (simp add: deliver_handler del: fun_upd_apply)
  qed
  then show ?thesis by (simp add: broadcast_rangingMessage_def)
qed

end
