(* ===== verification/Swarm_Leaving.thy ===== *)
theory Swarm_Leaving
  imports Simulation_Properties
begin

text \<open>
  Drones that leave during a run: the threads of \<open>center.c\<close> on a set of drones that shrinks. The loops
  over the set read it anew in every round and without its mutex; a thread whose drone has left
  removes it and ends; a send to a drone that has left is without effect, or ends the center by SIGPIPE, which it
  does not handle. The removal, which holds the mutex, is one step. As long as nobody leaves, this relation does what \<open>sim_step\<close> does.
\<close>

section \<open>The code\<close>

text \<open>The drones in the set are given by their connections, which are those of the start.\<close>

datatype swarm_flight = W_Read | W_Alloc log_row | W_Resp log_row | W_Send "Line_Message list" nat

datatype 'm swarm_handler =
  K_Recv | K_Bcast "'m Simu_Message" | K_Resp "'m Simu_Message" | K_Send "'m Simu_Message" nat | K_Leave | K_Done

record ('l, 'm) swarm_state =
  sw_rows :: "log_row list"
  sw_flight :: swarm_flight
  sw_exited :: bool
  sw_alloc :: nat
  sw_bcast :: nat
  sw_resp :: nat
  sw_count :: nat
  sw_set :: "nat list"
  sw_handler :: "nat \<Rightarrow> 'm swarm_handler"
  sw_inbox :: "nat \<Rightarrow> 'm Simu_Message list"
  sw_outbox :: "nat \<Rightarrow> 'm Simu_Message list"
  sw_drone :: "nat \<Rightarrow> 'l drone"
  sw_alive :: "nat \<Rightarrow> bool"

text \<open>What a thread sends to a drone; and the count of the responses.\<close>

definition swarm_deliver :: "nat \<Rightarrow> 'm Simu_Message \<Rightarrow> ('l, 'm) swarm_state \<Rightarrow> ('l, 'm) swarm_state" where
  "swarm_deliver i msg w = w\<lparr>sw_inbox := (sw_inbox w)(i := sw_inbox w i @ [msg])\<rparr>"

definition swarm_count :: "('l, 'm) swarm_state \<Rightarrow> ('l, 'm) swarm_state" where
  "swarm_count w =
     (if sw_count w + 1 = NODES_NUM - 1 then w\<lparr>sw_resp := sw_resp w + 1, sw_count := 0\<rparr>
      else w\<lparr>sw_count := sw_count w + 1\<rparr>)"

definition line_from_center :: "Line_Message \<Rightarrow> 'm Simu_Message" where
  "line_from_center lm = \<lparr>sm_srcAddress = CENTER_ADDRESS, sm_payload = Line lm\<rparr>"

text \<open>One round of a loop of \<open>broadcast_flightLog\<close> over the set, for the line \<open>lm\<close> at the index \<open>k\<close>.\<close>

definition swarm_line ::
    "string list \<Rightarrow> Line_Message \<Rightarrow> Line_Message list \<Rightarrow> nat \<Rightarrow> ('l, 'm) swarm_state \<Rightarrow> ('l, 'm) swarm_state" where
  "swarm_line nodes lm lms k w =
     (if k < length (sw_set w) then
        let w' = (if node_number (nodes ! (sw_set w ! k)) = lm_address lm
                  then swarm_deliver (sw_set w ! k) (line_from_center lm) w else w)
        in w'\<lparr>sw_flight := W_Send (lm # lms) (k + 1)\<rparr>
      else w\<lparr>sw_flight := W_Send lms 0\<rparr>)"

text \<open>
  The steps. A drone may leave at any time; of what it has sent a part may be lost. When the set is
  empty, \<open>main\<close> returns.
\<close>

inductive swarm_step ::
    "string list \<Rightarrow> ('l, 'm) ranging_lib \<Rightarrow> ('l, 'm) swarm_state \<Rightarrow> ('l, 'm) swarm_state \<Rightarrow> bool"
  for nodes L where
  sw_read: "\<not> sw_exited w \<Longrightarrow> sw_flight w = W_Read \<Longrightarrow> sw_rows w = row # rest \<Longrightarrow>
     swarm_step nodes L w (w\<lparr>sw_rows := rest, sw_flight := W_Alloc row\<rparr>)"
| sw_exit: "\<not> sw_exited w \<Longrightarrow> sw_flight w = W_Read \<Longrightarrow> sw_rows w = [] \<Longrightarrow>
     swarm_step nodes L w (w\<lparr>sw_exited := True\<rparr>)"
| sw_take_alloc: "\<not> sw_exited w \<Longrightarrow> sw_flight w = W_Alloc row \<Longrightarrow> 0 < sw_alloc w \<Longrightarrow>
     swarm_step nodes L w (w\<lparr>sw_alloc := sw_alloc w - 1, sw_flight := W_Resp row\<rparr>)"
| sw_take_resp: "\<not> sw_exited w \<Longrightarrow> sw_flight w = W_Resp row \<Longrightarrow> 0 < sw_resp w \<Longrightarrow>
     swarm_step nodes L w (w\<lparr>sw_resp := sw_resp w - 1, sw_flight := W_Send (row_lines row) 0\<rparr>)"
| sw_send_line: "\<not> sw_exited w \<Longrightarrow> sw_flight w = W_Send (lm # lms) k \<Longrightarrow>
     swarm_step nodes L w (swarm_line nodes lm lms k w)"
| sw_post_bcast: "\<not> sw_exited w \<Longrightarrow> sw_flight w = W_Send [] k \<Longrightarrow>
     swarm_step nodes L w (w\<lparr>sw_bcast := sw_bcast w + 1, sw_flight := W_Read\<rparr>)"
| sw_recv_ranging: "\<not> sw_exited w \<Longrightarrow> i < length nodes \<Longrightarrow> sw_handler w i = K_Recv \<Longrightarrow>
     sw_outbox w i = msg # rest \<Longrightarrow> sm_payload msg = Ranging m \<Longrightarrow>
     swarm_step nodes L w (w\<lparr>sw_outbox := (sw_outbox w)(i := rest), sw_handler := (sw_handler w)(i := K_Bcast msg)\<rparr>)"
| sw_recv_response: "\<not> sw_exited w \<Longrightarrow> i < length nodes \<Longrightarrow> sw_handler w i = K_Recv \<Longrightarrow>
     sw_outbox w i = msg # rest \<Longrightarrow> \<not> (\<exists>m. sm_payload msg = Ranging m) \<Longrightarrow>
     swarm_step nodes L w ((swarm_count w)\<lparr>sw_outbox := (sw_outbox w)(i := rest)\<rparr>)"
| sw_take_bcast: "\<not> sw_exited w \<Longrightarrow> i < length nodes \<Longrightarrow> sw_handler w i = K_Bcast msg \<Longrightarrow> 0 < sw_bcast w \<Longrightarrow>
     swarm_step nodes L w (w\<lparr>sw_bcast := sw_bcast w - 1, sw_handler := (sw_handler w)(i := K_Resp msg)\<rparr>)"
| sw_wait_resp: "\<not> sw_exited w \<Longrightarrow> i < length nodes \<Longrightarrow> sw_handler w i = K_Resp msg \<Longrightarrow> 0 < sw_resp w \<Longrightarrow>
     swarm_step nodes L w (w\<lparr>sw_resp := sw_resp w - 1, sw_handler := (sw_handler w)(i := K_Send msg 0)\<rparr>)"
| sw_forward: "\<not> sw_exited w \<Longrightarrow> i < length nodes \<Longrightarrow> sw_handler w i = K_Send msg k \<Longrightarrow> k < length (sw_set w) \<Longrightarrow>
     swarm_step nodes L w ((swarm_deliver (sw_set w ! k) msg w)\<lparr>sw_handler := (sw_handler w)(i := K_Send msg (k + 1))\<rparr>)"
| sw_post_alloc: "\<not> sw_exited w \<Longrightarrow> i < length nodes \<Longrightarrow> sw_handler w i = K_Send msg k \<Longrightarrow> \<not> k < length (sw_set w) \<Longrightarrow>
     swarm_step nodes L w (w\<lparr>sw_alloc := sw_alloc w + 1, sw_handler := (sw_handler w)(i := K_Recv)\<rparr>)"
| sw_receive: "i < length nodes \<Longrightarrow> sw_alive w i \<Longrightarrow> sw_inbox w i = msg # rest \<Longrightarrow> randnum < 10000 \<Longrightarrow>
     receive_from_center L (nodes ! i) randnum (sw_drone w i) msg = (d, replies) \<Longrightarrow>
     swarm_step nodes L w (w\<lparr>sw_inbox := (sw_inbox w)(i := rest), sw_drone := (sw_drone w)(i := d),
       sw_outbox := (sw_outbox w)(i := sw_outbox w i @ replies)\<rparr>)"
| sw_leave: "i < length nodes \<Longrightarrow> sw_alive w i \<Longrightarrow>
     swarm_step nodes L w (w\<lparr>sw_alive := (sw_alive w)(i := False), sw_outbox := (sw_outbox w)(i := take m (sw_outbox w i))\<rparr>)"
| sw_notice: "\<not> sw_exited w \<Longrightarrow> i < length nodes \<Longrightarrow> sw_handler w i = K_Recv \<Longrightarrow> \<not> sw_alive w i \<Longrightarrow> sw_outbox w i = [] \<Longrightarrow>
     swarm_step nodes L w (w\<lparr>sw_handler := (sw_handler w)(i := K_Leave)\<rparr>)"
| sw_remove: "\<not> sw_exited w \<Longrightarrow> i < length nodes \<Longrightarrow> sw_handler w i = K_Leave \<Longrightarrow>
     swarm_step nodes L w (w\<lparr>sw_set := remove1 i (sw_set w), sw_handler := (sw_handler w)(i := K_Done)\<rparr>)"
| sw_all_gone: "\<not> sw_exited w \<Longrightarrow> sw_set w = [] \<Longrightarrow> swarm_step nodes L w (w\<lparr>sw_exited := True\<rparr>)"
| sw_killed_line: "\<not> sw_exited w \<Longrightarrow> sw_flight w = W_Send (lm # lms) k \<Longrightarrow> k < length (sw_set w) \<Longrightarrow>
     \<not> sw_alive w (sw_set w ! k) \<Longrightarrow> swarm_step nodes L w (w\<lparr>sw_exited := True\<rparr>)"
| sw_killed_forward: "\<not> sw_exited w \<Longrightarrow> i < length nodes \<Longrightarrow> sw_handler w i = K_Send msg k \<Longrightarrow> k < length (sw_set w) \<Longrightarrow>
     \<not> sw_alive w (sw_set w ! k) \<Longrightarrow> swarm_step nodes L w (w\<lparr>sw_exited := True\<rparr>)"

definition swarm_start :: "string list \<Rightarrow> log_row list \<Rightarrow> (nat \<Rightarrow> 'l) \<Rightarrow> string list \<Rightarrow> ('l, 'm) swarm_state" where
  "swarm_start nodes rows libs csv_lines = \<lparr>sw_rows = rows, sw_flight = W_Read, sw_exited = False,
     sw_alloc = 1, sw_bcast = 0, sw_resp = 1, sw_count = 0, sw_set = [0..<length nodes],
     sw_handler = (\<lambda>i. K_Recv), sw_inbox = (\<lambda>i. []), sw_outbox = (\<lambda>i. []),
     sw_drone = (\<lambda>i. \<lparr>dr_lib = libs i, dr_TxTimestamp = 0, dr_RxTimestamp = 0,
       dr_csv_lines = csv_lines, dr_csv_pos = 0\<rparr>), sw_alive = (\<lambda>i. True)\<rparr>"

inductive swarm_reachable ::
    "string list \<Rightarrow> ('l, 'm) ranging_lib \<Rightarrow> ('l, 'm) swarm_state \<Rightarrow> ('l, 'm) swarm_state \<Rightarrow> bool"
  for nodes L w0 where
  swarm_init: "swarm_reachable nodes L w0 w0"
| swarm_next: "swarm_reachable nodes L w0 w \<Longrightarrow> swarm_step nodes L w w' \<Longrightarrow> swarm_reachable nodes L w0 w'"

section \<open>As long as nobody leaves\<close>

text \<open>The messages that the loops are still going to send.\<close>

fun lines_left :: "string list \<Rightarrow> Line_Message list \<Rightarrow> nat \<Rightarrow> (nat \<times> Line_Message) list" where
  "lines_left nodes [] k = []"
| "lines_left nodes (lm # lms) k =
     map (\<lambda>i. (i, lm)) (filter (\<lambda>i. node_number (nodes ! i) = lm_address lm) [k..<length nodes]) @
     concat (map (line_targets nodes) lms)"

fun same_flight :: "string list \<Rightarrow> swarm_flight \<Rightarrow> flight_pc" where
  "same_flight nodes W_Read = F_Read"
| "same_flight nodes (W_Alloc row) = F_Alloc row"
| "same_flight nodes (W_Resp row) = F_Resp row"
| "same_flight nodes (W_Send lms k) = F_Send (lines_left nodes lms k)"

fun same_handler :: "'m swarm_handler \<Rightarrow> 'm handler_pc" where
  "same_handler (K_Bcast msg) = H_Bcast msg"
| "same_handler (K_Resp msg) = H_Resp msg"
| "same_handler (K_Send msg k) = H_Send msg k"
| "same_handler _ = H_Recv"

definition swarm_abs :: "string list \<Rightarrow> ('l, 'm) swarm_state \<Rightarrow> ('l, 'm) sim_state" where
  "swarm_abs nodes w = \<lparr>st_rows = sw_rows w, st_flight = same_flight nodes (sw_flight w), st_exited = sw_exited w,
     st_alloc = sw_alloc w, st_bcast = sw_bcast w, st_resp = sw_resp w, st_count = sw_count w,
     st_handler = (\<lambda>i. same_handler (sw_handler w i)), st_inbox = sw_inbox w, st_outbox = sw_outbox w, st_drone = sw_drone w\<rparr>"

definition all_there :: "string list \<Rightarrow> ('l, 'm) swarm_state \<Rightarrow> bool" where
  "all_there nodes w \<longleftrightarrow> sw_set w = [0..<length nodes] \<and> (\<forall>i < length nodes. sw_alive w i) \<and>
     (\<forall>i < length nodes. sw_handler w i \<notin> {K_Leave, K_Done})"

lemma swarm_abs_simps [simp]:
  "st_rows (swarm_abs nodes w) = sw_rows w" "st_flight (swarm_abs nodes w) = same_flight nodes (sw_flight w)"
  "st_exited (swarm_abs nodes w) = sw_exited w" "st_alloc (swarm_abs nodes w) = sw_alloc w"
  "st_bcast (swarm_abs nodes w) = sw_bcast w" "st_resp (swarm_abs nodes w) = sw_resp w"
  "st_count (swarm_abs nodes w) = sw_count w" "st_handler (swarm_abs nodes w) i = same_handler (sw_handler w i)"
  "st_inbox (swarm_abs nodes w) = sw_inbox w" "st_outbox (swarm_abs nodes w) = sw_outbox w"
  "st_drone (swarm_abs nodes w) = sw_drone w"
  by (simp_all add: swarm_abs_def)

lemma lines_left_0: "lines_left nodes lms 0 = concat (map (line_targets nodes) lms)"
  by (cases lms) (simp_all add: line_targets_def)

lemma lines_left_next:
  "k < length nodes \<Longrightarrow> lines_left nodes (lm # lms) k =
     (if node_number (nodes ! k) = lm_address lm then (k, lm) # lines_left nodes (lm # lms) (k + 1)
      else lines_left nodes (lm # lms) (k + 1))"
  by (simp add: upt_conv_Cons)

lemma swarm_alive_step: "swarm_step nodes L w w' \<Longrightarrow> sw_alive w' i \<Longrightarrow> sw_alive w i"
  by (cases rule: swarm_step.cases)
     (auto simp: swarm_line_def swarm_deliver_def swarm_count_def Let_def split: if_splits)

lemma same_deliver:
  "swarm_abs nodes (swarm_deliver i msg w) = deliver i msg (swarm_abs nodes w)"
  by (simp add: swarm_abs_def swarm_deliver_def deliver_def)

lemma same_count: "swarm_abs nodes (swarm_count w) = count_response (swarm_abs nodes w)"
  by (simp add: swarm_abs_def swarm_count_def count_response_def)

lemma same_handler_upd: "(\<lambda>j. same_handler (if j = i then h else f j)) = (\<lambda>j. same_handler (f j))(i := same_handler h)"
  by auto

lemma swarm_step_same:
  assumes "swarm_step nodes L w w'" "all_there nodes w" "nodes \<noteq> []" "\<forall>i < length nodes. sw_alive w' i"
  shows "all_there nodes w' \<and>
    (swarm_abs nodes w' = swarm_abs nodes w \<or> sim_step nodes L (swarm_abs nodes w) (swarm_abs nodes w'))"
  using assms(1)
proof cases
  case (sw_send_line lm lms k)
  have set: "sw_set w = [0..<length nodes]" using assms(2) by (simp add: all_there_def)
  show ?thesis
  proof (cases "k < length nodes")
    case True
    show ?thesis
    proof (cases "node_number (nodes ! k) = lm_address lm")
      case match: True
      have f: "st_flight (swarm_abs nodes w) = F_Send ((k, lm) # lines_left nodes (lm # lms) (k + 1))"
        using True match sw_send_line(3) by (simp add: lines_left_next del: lines_left.simps)
      have "swarm_abs nodes w' =
          (deliver k \<lparr>sm_srcAddress = CENTER_ADDRESS, sm_payload = Line lm\<rparr> (swarm_abs nodes w))\<lparr>st_flight := F_Send (lines_left nodes (lm # lms) (k + 1))\<rparr>"
        using True match set
        by (simp add: sw_send_line(1) swarm_line_def swarm_abs_def swarm_deliver_def deliver_def line_from_center_def del: lines_left.simps)
      then have "sim_step nodes L (swarm_abs nodes w) (swarm_abs nodes w')"
        using sim_step.flight_send [OF _ f, of nodes L] sw_send_line(2) by simp
      moreover have "all_there nodes w'"
        using assms(2) True match set by (simp add: sw_send_line(1) swarm_line_def swarm_deliver_def all_there_def)
      ultimately show ?thesis by simp
    next
      case False
      then have "swarm_abs nodes w' = swarm_abs nodes w"
        using True set sw_send_line(3)
        by (simp add: sw_send_line(1) swarm_line_def swarm_abs_def lines_left_next del: lines_left.simps)
      moreover have "all_there nodes w'"
        using assms(2) True False set by (simp add: sw_send_line(1) swarm_line_def all_there_def)
      ultimately show ?thesis by simp
    qed
  next
    case False
    then have "swarm_abs nodes w' = swarm_abs nodes w"
      using set sw_send_line(3) by (simp add: sw_send_line(1) swarm_line_def swarm_abs_def lines_left_0)
    moreover have "all_there nodes w'"
      using assms(2) False set by (simp add: sw_send_line(1) swarm_line_def all_there_def)
    ultimately show ?thesis by simp
  qed
next
  case (sw_read row rest)
  from sim_step.flight_read [of "swarm_abs nodes w" row rest nodes L] sw_read(2-4) assms(2)
  show ?thesis by (simp add: sw_read(1) swarm_abs_def all_there_def)
next
  case sw_exit
  from sim_step.flight_exit [of "swarm_abs nodes w" nodes L] sw_exit(2-4) assms(2)
  show ?thesis by (simp add: sw_exit(1) swarm_abs_def all_there_def)
next
  case (sw_take_alloc row)
  from sim_step.flight_alloc [of "swarm_abs nodes w" row nodes L] sw_take_alloc(2-4) assms(2)
  show ?thesis by (simp add: sw_take_alloc(1) swarm_abs_def all_there_def)
next
  case (sw_take_resp row)
  from sim_step.flight_resp [of "swarm_abs nodes w" row nodes L] sw_take_resp(2-4) assms(2)
  show ?thesis by (simp add: sw_take_resp(1) swarm_abs_def all_there_def lines_left_0 row_messages_def)
next
  case (sw_post_bcast k)
  from sim_step.flight_post [of "swarm_abs nodes w" nodes L] sw_post_bcast(2-3) assms(2)
  show ?thesis by (simp add: sw_post_bcast(1) swarm_abs_def all_there_def)
next
  case (sw_recv_ranging i msg rest m)
  from sim_step.handler_ranging [of "swarm_abs nodes w" i nodes msg rest m L] sw_recv_ranging(2-6) assms(2)
  show ?thesis by (simp add: sw_recv_ranging(1) swarm_abs_def all_there_def same_handler_upd)
next
  case (sw_recv_response i msg rest)
  have "swarm_abs nodes w' = (count_response (swarm_abs nodes w))\<lparr>st_outbox := (sw_outbox w)(i := rest)\<rparr>"
    by (simp add: sw_recv_response(1) swarm_abs_def swarm_count_def count_response_def)
  with sim_step.handler_response [of "swarm_abs nodes w" i nodes msg rest L] sw_recv_response(2-6)
  have "sim_step nodes L (swarm_abs nodes w) (swarm_abs nodes w')" by simp
  with assms(2) show ?thesis by (simp add: sw_recv_response(1) swarm_count_def all_there_def)
next
  case (sw_take_bcast i msg)
  from sim_step.handler_bcast [of "swarm_abs nodes w" i nodes msg L] sw_take_bcast(2-5) assms(2)
  show ?thesis by (simp add: sw_take_bcast(1) swarm_abs_def all_there_def same_handler_upd)
next
  case (sw_wait_resp i msg)
  from sim_step.handler_resp [of "swarm_abs nodes w" i nodes msg L] sw_wait_resp(2-5) assms(2)
  show ?thesis by (simp add: sw_wait_resp(1) swarm_abs_def all_there_def same_handler_upd)
next
  case (sw_forward i msg k)
  have k: "k < length nodes" "sw_set w ! k = k" using assms(2) sw_forward(5) by (simp_all add: all_there_def)
  from sim_step.handler_send [of "swarm_abs nodes w" i nodes msg k L] sw_forward(2-4) k assms(2)
  show ?thesis
    by (simp add: sw_forward(1) swarm_abs_def all_there_def same_handler_upd deliver_def swarm_deliver_def)
next
  case (sw_post_alloc i msg k)
  have k: "\<not> k < length nodes" using assms(2) sw_post_alloc(5) by (simp add: all_there_def)
  from sim_step.handler_post [of "swarm_abs nodes w" i nodes msg k L] sw_post_alloc(2-4) k assms(2)
  show ?thesis by (simp add: sw_post_alloc(1) swarm_abs_def all_there_def same_handler_upd)
next
  case (sw_receive i msg rest randnum d replies)
  from sim_step.drone_receive [of i nodes "swarm_abs nodes w" msg rest randnum L d replies] sw_receive(2-6) assms(2)
  show ?thesis by (simp add: sw_receive(1) swarm_abs_def all_there_def)
next
  case (sw_leave i m)
  with assms(4) show ?thesis by auto
next
  case (sw_notice i)
  with assms(2) show ?thesis by (simp add: all_there_def)
next
  case (sw_remove i)
  with assms(2) show ?thesis by (auto simp: all_there_def)
next
  case sw_all_gone
  with assms(2) have "length [0..<length nodes] = length ([] :: nat list)" by (simp only: all_there_def)
  with assms(3) show ?thesis by simp
next
  case (sw_killed_line lm lms k)
  with assms(2) show ?thesis by (simp add: all_there_def)
next
  case (sw_killed_forward i msg k)
  with assms(2) show ?thesis by (simp add: all_there_def)
qed

text \<open>So a run in which all drones stay is a run of \<open>sim_step\<close>.\<close>

lemma swarm_reachable_alive:
  "swarm_step nodes L w w' \<Longrightarrow> \<forall>i < length nodes. sw_alive w' i \<Longrightarrow> \<forall>i < length nodes. sw_alive w i"
  using swarm_alive_step by blast

lemma swarm_start_abs: "swarm_abs nodes (swarm_start nodes rows libs csv_lines) = sim_start rows libs csv_lines"
  by (simp add: swarm_abs_def swarm_start_def sim_start_def)

theorem swarm_stays:
  assumes "swarm_reachable nodes L (swarm_start nodes rows libs csv_lines) w" "nodes \<noteq> []"
    and "\<forall>i < length nodes. sw_alive w i"
  shows "sim_reachable nodes L (sim_start rows libs csv_lines) (swarm_abs nodes w) \<and> all_there nodes w"
  using assms(1,3)
proof induction
  case swarm_init
  then show ?case
    by (simp add: swarm_start_abs sim_init) (simp add: all_there_def swarm_start_def)
next
  case (swarm_next w w')
  from swarm_reachable_alive [OF swarm_next(2) swarm_next.prems] swarm_next.IH
  have IH: "sim_reachable nodes L (sim_start rows libs csv_lines) (swarm_abs nodes w)" "all_there nodes w" by auto
  from swarm_step_same [OF swarm_next(2) IH(2) assms(2) swarm_next.prems] IH(1)
  show ?case by (auto intro: sim_next)
qed

section \<open>When drones leave\<close>

text \<open>The removal of a drone is that of \<open>node_disconnect\<close> on the array of the connections.\<close>

lemma node_disconnect_remove1:
  assumes "inj_on sock (insert i (set is))"
  shows "node_disconnect (map (\<lambda>j. \<lparr>dn_socket = sock j, dn_address = addr j\<rparr>) is) (sock i) =
    map (\<lambda>j. \<lparr>dn_socket = sock j, dn_address = addr j\<rparr>) (remove1 i is)"
  using assms
proof (induction "is")
  case (Cons j "is")
  have "sock j = sock i \<longleftrightarrow> j = i" by (rule inj_on_eq_iff [OF Cons.prems]) auto
  moreover have "inj_on sock (insert i (set is))" using Cons.prems by (rule inj_on_subset) auto
  ultimately show ?case using Cons.IH by auto
qed simp

text \<open>
  The set holds the drones whose threads have not ended, each once; a thread ends only for a drone that
  has left, after it has handled all that the drone had sent; and the center ends before the end
  of the log only when a drone has left.
\<close>

definition swarm_inv :: "string list \<Rightarrow> ('l, 'm) swarm_state \<Rightarrow> bool" where
  "swarm_inv nodes w \<longleftrightarrow> distinct (sw_set w) \<and>
     set (sw_set w) = {i. i < length nodes \<and> sw_handler w i \<noteq> K_Done} \<and>
     (\<forall>i < length nodes. sw_handler w i \<in> {K_Leave, K_Done} \<longrightarrow> \<not> sw_alive w i \<and> sw_outbox w i = []) \<and>
     (sw_exited w \<longrightarrow> sw_flight w = W_Read \<and> sw_rows w = [] \<or> (\<exists>i < length nodes. \<not> sw_alive w i))"

lemma swarm_deliver_simps [simp]:
  "sw_set (swarm_deliver i msg w) = sw_set w" "sw_handler (swarm_deliver i msg w) = sw_handler w"
  "sw_alive (swarm_deliver i msg w) = sw_alive w" "sw_outbox (swarm_deliver i msg w) = sw_outbox w"
  "sw_exited (swarm_deliver i msg w) = sw_exited w" "sw_rows (swarm_deliver i msg w) = sw_rows w"
  "sw_flight (swarm_deliver i msg w) = sw_flight w"
  by (simp_all add: swarm_deliver_def)

lemma swarm_count_simps [simp]:
  "sw_set (swarm_count w) = sw_set w" "sw_handler (swarm_count w) = sw_handler w"
  "sw_alive (swarm_count w) = sw_alive w" "sw_outbox (swarm_count w) = sw_outbox w"
  "sw_exited (swarm_count w) = sw_exited w" "sw_rows (swarm_count w) = sw_rows w"
  "sw_flight (swarm_count w) = sw_flight w" "sw_alloc (swarm_count w) = sw_alloc w"
  "sw_inbox (swarm_count w) = sw_inbox w"
  by (simp_all add: swarm_count_def)

lemma swarm_line_simps [simp]:
  "sw_set (swarm_line nodes lm lms k w) = sw_set w" "sw_handler (swarm_line nodes lm lms k w) = sw_handler w"
  "sw_alive (swarm_line nodes lm lms k w) = sw_alive w" "sw_outbox (swarm_line nodes lm lms k w) = sw_outbox w"
  "sw_exited (swarm_line nodes lm lms k w) = sw_exited w"
  by (simp_all add: swarm_line_def Let_def)

lemma swarm_inv_member:
  "swarm_inv nodes w \<Longrightarrow> k < length (sw_set w) \<Longrightarrow> sw_set w ! k < length nodes"
  using nth_mem [of k "sw_set w"] by (auto simp: swarm_inv_def)

lemma swarm_inv_step:
  assumes "swarm_step nodes L w w'" "swarm_inv nodes w" "nodes \<noteq> []"
  shows "swarm_inv nodes w'"
  using assms(1)
proof cases
  case (sw_remove i)
  with assms(2) show ?thesis by (auto simp: swarm_inv_def)
next
  case sw_all_gone
  with assms(2) have "sw_handler w 0 = K_Done" using assms(3) by (auto simp: swarm_inv_def)
  with assms(2,3) have "\<exists>i < length nodes. \<not> sw_alive w i" by (auto simp: swarm_inv_def)
  with sw_all_gone assms(2) show ?thesis by (simp add: swarm_inv_def)
next
  case (sw_killed_line lm lms k)
  with swarm_inv_member [OF assms(2) sw_killed_line(4)] assms(2) show ?thesis by (auto simp: swarm_inv_def)
next
  case (sw_killed_forward i msg k)
  with swarm_inv_member [OF assms(2) sw_killed_forward(5)] assms(2) show ?thesis by (auto simp: swarm_inv_def)
next
  case (sw_send_line lm lms k)
  with assms(2) show ?thesis by (simp add: swarm_inv_def)
qed (use assms(2) in \<open>auto simp: swarm_inv_def\<close>)

theorem swarm_invariant:
  assumes "swarm_reachable nodes L (swarm_start nodes rows libs csv_lines) w" "nodes \<noteq> []"
  shows "swarm_inv nodes w"
  using assms(1)
proof induction
  case swarm_init
  show ?case by (auto simp: swarm_inv_def swarm_start_def)
next
  case (swarm_next w w')
  then show ?case using swarm_inv_step assms(2) by blast
qed

end
