(* ===== verification/Swarm_Halt.thy ===== *)
theory Swarm_Halt
  imports Swarm_Leaving
begin

text \<open>
  A drone that leaves between two rows stops the run: its line of the next row is not answered, or
  not turned into a message, so the center never has the responses or the message it waits for.
  It reads the row that it hands out and the next one, and no more.
\<close>

section \<open>Between two rows\<close>

fun idle :: "'m swarm_handler \<Rightarrow> bool" where
  "idle (K_Bcast msg) \<longleftrightarrow> False"
| "idle (K_Resp msg) \<longleftrightarrow> False"
| "idle (K_Send msg k) \<longleftrightarrow> False"
| "idle _ \<longleftrightarrow> True"

lemma idle_neq: "idle h \<Longrightarrow> h \<noteq> K_Bcast msg" "idle h \<Longrightarrow> h \<noteq> K_Resp msg" "idle h \<Longrightarrow> h \<noteq> K_Send msg k"
  by auto

definition between_rows :: "string list \<Rightarrow> ('l, 'm) swarm_state \<Rightarrow> bool" where
  "between_rows nodes w \<longleftrightarrow> distinct (sw_set w) \<and> set (sw_set w) \<subseteq> {..<length nodes} \<and> sw_flight w = W_Read \<and>
     sw_alloc w = 1 \<and> sw_resp w = 1 \<and> sw_count w = 0 \<and>
     (\<forall>i. idle (sw_handler w i) \<and> sw_inbox w i = [] \<and> sw_outbox w i = [])"

abbreviation is_reply :: "'m Simu_Message \<Rightarrow> bool" where
  "is_reply msg \<equiv> \<not> (\<exists>m. sm_payload msg = Ranging m)"

definition is_rx :: "'m Simu_Message \<Rightarrow> bool" where
  "is_rx msg \<longleftrightarrow> (\<exists>lm. sm_payload msg = Line lm \<and> lm_status lm = RX)"

text \<open>The responses that a drone has sent or will send for the lines it has not handled.\<close>

definition replies_of :: "('l, 'm) swarm_state \<Rightarrow> nat \<Rightarrow> nat" where
  "replies_of w i = length (filter is_rx (sw_inbox w i)) + length (filter is_reply (sw_outbox w i))"

text \<open>The lines for a reception that are not yet sent, except that for the drone \<open>a\<close>.\<close>

definition rx_lines :: "u16 \<Rightarrow> Line_Message list \<Rightarrow> nat" where
  "rx_lines n lms = length (filter (\<lambda>lm. lm_status lm = RX \<and> lm_address lm \<noteq> n) lms)"

fun rx_pending :: "string list \<Rightarrow> u16 \<Rightarrow> nat list \<Rightarrow> swarm_flight \<Rightarrow> nat" where
  "rx_pending nodes n is (W_Send (lm # lms) k) =
     (if lm_status lm = RX \<and> lm_address lm \<noteq> n
      then length (filter (\<lambda>i. node_number (nodes ! i) = lm_address lm) (drop k is)) else 0) + rx_lines n lms"
| "rx_pending nodes n is _ = 0"

definition all_replies :: "string list \<Rightarrow> nat \<Rightarrow> ('l, 'm) swarm_state \<Rightarrow> nat" where
  "all_replies nodes a w = sw_count w + sum (replies_of w) ({..<length nodes} - {a}) +
     rx_pending nodes (node_number (nodes ! a)) (sw_set w) (sw_flight w)"

section \<open>The invariant\<close>

fun flight_held :: "log_row \<Rightarrow> nat \<Rightarrow> nat \<Rightarrow> swarm_flight \<Rightarrow> bool" where
  "flight_held row n m (W_Send lms k) \<longleftrightarrow> set lms \<subseteq> set (row_lines row) \<and> n = m + 1"
| "flight_held row n m W_Read \<longleftrightarrow> n = m + 1"
| "flight_held row n m (W_Alloc r) \<longleftrightarrow> n = m + 2"
| "flight_held row n m (W_Resp r) \<longleftrightarrow> False"

definition row_held :: "string list \<Rightarrow> nat \<Rightarrow> log_row \<Rightarrow> nat \<Rightarrow> ('l, 'm) swarm_state \<Rightarrow> bool" where
  "row_held nodes a row n w \<longleftrightarrow> \<not> sw_alive w a \<and> distinct (sw_set w) \<and> set (sw_set w) \<subseteq> {..<length nodes} \<and>
     sw_alloc w = 0 \<and> sw_outbox w a = [] \<and> flight_held row n (length (sw_rows w)) (sw_flight w) \<and>
     (\<forall>i. \<forall>msg \<in> set (sw_inbox w i). \<exists>lm \<in> set (row_lines row).
        msg = line_from_center lm \<and> lm_address lm = node_number (nodes ! i)) \<and>
     (\<forall>i msg k. sw_handler w i \<noteq> K_Send msg k)"

text \<open>When \<open>a\<close> is the sender of the row, no message is sent; otherwise a response is missing.\<close>

definition unsent :: "('l, 'm) swarm_state \<Rightarrow> bool" where
  "unsent w \<longleftrightarrow> (\<forall>i msg. sw_handler w i \<noteq> K_Bcast msg \<and> sw_handler w i \<noteq> K_Resp msg) \<and>
     (\<forall>i. \<forall>msg \<in> set (sw_outbox w i). is_reply msg)"

definition unanswered :: "string list \<Rightarrow> nat \<Rightarrow> ('l, 'm) swarm_state \<Rightarrow> bool" where
  "unanswered nodes a w \<longleftrightarrow> sw_resp w = 0 \<and> all_replies nodes a w < NODES_NUM - 1"

lemma receive_line_replies:
  "receive_from_center L a r d (line_from_center lm) = (d', replies) \<Longrightarrow>
     length (filter is_reply replies) \<le> (if is_rx (line_from_center lm :: 'm Simu_Message) then 1 else 0) \<and>
     (lm_status lm = RX \<longrightarrow> (\<forall>msg \<in> set replies. is_reply (msg :: 'm Simu_Message)))"
  by (cases "lm_status lm")
     (auto simp: receive_from_center_def line_from_center_def is_rx_def response_to_center_def send_to_center_def
       TxCallBack_def Let_def split: if_splits prod.splits)

lemma sum_one_changed:
  fixes f g :: "nat \<Rightarrow> nat"
  assumes "finite I" "\<And>j. j \<noteq> i \<Longrightarrow> g j = f j" "g i + c \<le> f i + d" "i \<in> I"
  shows "sum g I + c \<le> sum f I + d"
proof -
  have "sum g (I - {i}) = sum f (I - {i})" using assms(2) by (intro sum.cong) auto
  then show ?thesis using assms(1,3,4) by (simp add: sum.remove [of I i])
qed

lemma filter_drop_remove1: "length (filter P (drop k (remove1 i xs))) \<le> length (filter P (drop k xs))"
proof (induction xs arbitrary: k)
  case (Cons x xs)
  show ?case
  proof (cases k)
    case 0
    then show ?thesis using Cons [of 0] by simp
  next
    case (Suc j)
    have "length (filter P (drop (Suc j) xs)) \<le> length (filter P (drop j xs))"
      by (cases "drop j xs") (simp_all add: drop_Suc tl_drop [symmetric])
    then show ?thesis using Suc Cons [of j] by simp
  qed
qed simp

lemma row_held_line:
  assumes "row_held nodes a row n w" "set lms \<subseteq> set (row_lines row)" "lm \<in> set (row_lines row)"
    "sw_flight w = W_Send (lm # lms) k"
  shows "row_held nodes a row n (swarm_line nodes lm lms k w)"
  using assms nth_mem [of k "sw_set w"]
  by (auto simp: row_held_def swarm_line_def swarm_deliver_def Let_def) metis

lemma row_held_step:
  assumes "swarm_step nodes L w w'" "row_held nodes a row n w" "unsent w \<or> unanswered nodes a w"
  shows "row_held nodes a row n w'"
  using assms(1)
proof cases
  case (sw_send_line lm lms k)
  then show ?thesis using row_held_line [OF assms(2)] assms(2) by (auto simp: row_held_def)
next
  case (sw_recv_response i msg rest)
  then show ?thesis using assms(2) by (auto simp: row_held_def)
next
  case (sw_receive i msg rest randnum d replies)
  then show ?thesis using assms(2) by (auto simp: row_held_def)
next
  case (sw_wait_resp i msg)
  then show ?thesis using assms(3) by (auto simp: unsent_def unanswered_def)
next
  case (sw_remove i)
  then show ?thesis using assms(2) by (auto simp: row_held_def dest: notin_set_remove1 in_set_remove1)
qed (use assms(2) in \<open>auto simp: row_held_def\<close>)

lemma row_lines_status: "lm \<in> set (row_lines row) \<Longrightarrow> lm_status lm = TX \<Longrightarrow> lm_address lm = fst (lr_tx row)"
  by (auto simp: row_lines_def)

lemma unsent_step:
  assumes "swarm_step nodes L w w'" "row_held nodes a row n w" "unsent w" "wf_nodes nodes" "a < length nodes"
    "node_number (nodes ! a) = fst (lr_tx row)"
  shows "unsent w'"
  using assms(1)
proof cases
  case (sw_send_line lm lms k)
  then show ?thesis using assms(3) by (simp add: unsent_def)
next
  case (sw_recv_ranging i msg rest m)
  then have "is_reply msg" using assms(3) unfolding unsent_def by (metis list.set_intros(1))
  with sw_recv_ranging(6) show ?thesis by simp
next
  case (sw_receive i msg rest randnum d replies)
  then have "i \<noteq> a" using assms(2) by (auto simp: row_held_def)
  obtain lm where lm: "lm \<in> set (row_lines row)" "msg = line_from_center lm" "lm_address lm = node_number (nodes ! i)"
    using assms(2) sw_receive(4) unfolding row_held_def by (metis list.set_intros(1))
  have "lm_status lm = RX"
  proof (cases "lm_status lm")
    case TX
    with lm row_lines_status [of lm row] assms(6) have "node_number (nodes ! i) = node_number (nodes ! a)" by simp
    with wf_nodes_unique [OF assms(4) sw_receive(2) assms(5)] \<open>i \<noteq> a\<close> show ?thesis by simp
  qed
  with receive_line_replies [of L "nodes ! i" randnum "sw_drone w i" lm d replies] sw_receive(6) lm(2)
  have "\<forall>msg \<in> set replies. is_reply msg" by simp
  with assms(3) show ?thesis by (auto simp: sw_receive(1) unsent_def)
next
  case (sw_leave i m)
  then show ?thesis using assms(3) in_set_takeD by (fastforce simp: unsent_def)
next
  case (sw_recv_response i msg rest)
  then have "set rest \<subseteq> set (sw_outbox w i)" by auto
  with assms(3) show ?thesis by (auto simp: sw_recv_response(1) unsent_def)
qed (use assms(3) in \<open>auto simp: unsent_def\<close>)

text \<open>A line that is sent moves from those that are pending to a drone.\<close>

lemma targets_le_one:
  assumes "wf_nodes nodes" "distinct is" "set is \<subseteq> {..<length nodes}"
  shows "length (filter (\<lambda>i. node_number (nodes ! i) = x) is) \<le> 1"
  using assms(2,3)
proof (induction "is")
  case (Cons j "is")
  have "filter (\<lambda>i. node_number (nodes ! i) = x) is = []" if "node_number (nodes ! j) = x"
    using wf_nodes_unique [OF assms(1), of _ j] Cons.prems that by (force simp: filter_empty_conv)
  then show ?case using Cons by auto
qed simp

lemma rx_pending_start:
  assumes "wf_nodes nodes" "distinct is" "set is \<subseteq> {..<length nodes}"
  shows "rx_pending nodes x is (W_Send lms 0) \<le> rx_lines x lms"
  using targets_le_one [OF assms] by (cases lms) (auto simp: rx_lines_def)

lemma all_replies_one_changed:
  assumes "sw_set w' = sw_set w" "\<And>j. j \<noteq> i \<Longrightarrow> replies_of w' j = replies_of w j" "i < length nodes" "i \<noteq> a"
    "sw_count w' + replies_of w' i + rx_pending nodes (node_number (nodes ! a)) (sw_set w) (sw_flight w') \<le>
     sw_count w + replies_of w i + rx_pending nodes (node_number (nodes ! a)) (sw_set w) (sw_flight w)"
  shows "all_replies nodes a w' \<le> all_replies nodes a w"
proof -
  let ?p = "rx_pending nodes (node_number (nodes ! a)) (sw_set w)"
  have "sum (replies_of w') ({..<length nodes} - {a}) + (sw_count w' + ?p (sw_flight w')) \<le>
      sum (replies_of w) ({..<length nodes} - {a}) + (sw_count w + ?p (sw_flight w))"
    by (rule sum_one_changed [of _ i]) (use assms in auto)
  then show ?thesis by (simp add: all_replies_def assms(1))
qed

lemma all_replies_mono:
  assumes "\<And>j. replies_of w' j \<le> replies_of w j" "sw_count w' = sw_count w"
    "rx_pending nodes (node_number (nodes ! a)) (sw_set w') (sw_flight w') \<le>
     rx_pending nodes (node_number (nodes ! a)) (sw_set w) (sw_flight w)"
  shows "all_replies nodes a w' \<le> all_replies nodes a w"
proof -
  have "sum (replies_of w') ({..<length nodes} - {a}) \<le> sum (replies_of w) ({..<length nodes} - {a})"
    by (rule sum_mono) (rule assms(1))
  then show ?thesis using assms(2,3) by (simp add: all_replies_def)
qed

lemma replies_of_same:
  "sw_inbox w' j = sw_inbox w j \<Longrightarrow> sw_outbox w' j = sw_outbox w j \<Longrightarrow> replies_of w' j = replies_of w j"
  by (simp add: replies_of_def)

lemma is_rx_line: "is_rx (line_from_center lm) \<longleftrightarrow> lm_status lm = RX"
  by (simp add: is_rx_def line_from_center_def)

lemma line_replies_le:
  assumes "row_held nodes a row n w" "wf_nodes nodes" "a < length nodes" "sw_flight w = W_Send (lm # lms) k"
  shows "all_replies nodes a (swarm_line nodes lm lms k w) \<le> all_replies nodes a w"
proof (cases "k < length (sw_set w) \<and> node_number (nodes ! (sw_set w ! k)) = lm_address lm")
  case True
  define i where "i = sw_set w ! k"
  have i: "i < length nodes" "node_number (nodes ! i) = lm_address lm"
    using True assms(1) nth_mem [of k "sw_set w"] by (auto simp: row_held_def i_def subset_iff simp del: nth_mem)
  have drop: "drop k (sw_set w) = i # drop (k + 1) (sw_set w)" using True by (simp add: i_def Cons_nth_drop_Suc)
  let ?w = "swarm_line nodes lm lms k w"
  have fl: "sw_flight ?w = W_Send (lm # lms) (k + 1)" "sw_count ?w = sw_count w"
    and box: "sw_inbox ?w = (sw_inbox w)(i := sw_inbox w i @ [line_from_center lm])" "sw_outbox ?w = sw_outbox w"
    using True by (simp_all add: swarm_line_def swarm_deliver_def i_def)
  have other: "replies_of ?w j = replies_of w j" if "j \<noteq> i" for j
    using that by (simp add: replies_of_def box)
  have one: "replies_of ?w i = replies_of w i + (if lm_status lm = RX then 1 else 0)"
    by (simp add: replies_of_def box is_rx_line)
  show ?thesis
  proof (cases "i = a")
    case True
    have "sum (replies_of ?w) ({..<length nodes} - {a}) = sum (replies_of w) ({..<length nodes} - {a})"
      using other True by (intro sum.cong) auto
    then show ?thesis using i(2) True assms(4) fl by (simp add: all_replies_def)
  next
    case False
    have "lm_address lm \<noteq> node_number (nodes ! a)" using wf_nodes_unique [OF assms(2) i(1) assms(3)] False i(2) by auto
    then have "rx_pending nodes (node_number (nodes ! a)) (sw_set w) (sw_flight w) =
        rx_pending nodes (node_number (nodes ! a)) (sw_set w) (sw_flight ?w) + (if lm_status lm = RX then 1 else 0)"
      using i(2) assms(4) fl drop by simp
    then show ?thesis using other one fl i(1) False by (intro all_replies_one_changed [of _ _ i]) auto
  qed
next
  case False
  have "length (filter P (drop (Suc k) is)) \<le> length (filter P (drop k is))" for P and "is" :: "nat list"
    by (cases "drop k is") (simp_all add: drop_Suc tl_drop [symmetric])
  moreover have "distinct (sw_set w)" "set (sw_set w) \<subseteq> {..<length nodes}" using assms(1) by (simp_all add: row_held_def)
  note rx_pending_start [OF assms(2) this, of "node_number (nodes ! a)" lms]
  ultimately show ?thesis
    using False assms(4) by (intro all_replies_mono) (auto simp: swarm_line_def replies_of_def)
qed

lemma unanswered_step:
  assumes "swarm_step nodes L w w'" "row_held nodes a row n w" "unanswered nodes a w" "wf_nodes nodes" "a < length nodes"
  shows "unanswered nodes a w'"
proof -
  have bound: "sw_resp w = 0" "all_replies nodes a w < NODES_NUM - 1" using assms(3) by (simp_all add: unanswered_def)
  have stays: ?thesis if "sw_resp w' = 0" "all_replies nodes a w' \<le> all_replies nodes a w"
    using that bound by (simp add: unanswered_def)
  from assms(1) show ?thesis
  proof cases
    case (sw_send_line lm lms k)
    have "sw_resp w' = sw_resp w" by (simp add: sw_send_line(1) swarm_line_def swarm_deliver_def)
    with line_replies_le [OF assms(2,4,5) sw_send_line(3)] bound show ?thesis by (intro stays) (simp_all add: sw_send_line(1))
  next
    case (sw_recv_response i msg rest)
    have i: "i \<noteq> a" using assms(2) sw_recv_response(5) by (auto simp: row_held_def)
    have one: "1 \<le> replies_of w i" using sw_recv_response(5,6) by (simp add: replies_of_def)
    have "replies_of w i \<le> sum (replies_of w) ({..<length nodes} - {a})"
      using i sw_recv_response(3) by (intro member_le_sum) auto
    then have "sw_count w + 1 < NODES_NUM - 1" using one bound by (simp add: all_replies_def)
    then have cnt: "swarm_count w = w\<lparr>sw_count := sw_count w + 1\<rparr>" by (simp add: swarm_count_def)
    have "all_replies nodes a w' \<le> all_replies nodes a w"
      by (rule all_replies_one_changed [of _ _ i])
         (use i sw_recv_response in \<open>auto simp: cnt replies_of_def\<close>)
    then show ?thesis using bound by (intro stays) (simp_all add: sw_recv_response(1) cnt)
  next
    case (sw_receive i msg rest randnum d replies)
    have i: "i \<noteq> a" using assms(2) sw_receive(3) by (auto simp: row_held_def)
    obtain lm where lm: "msg = line_from_center lm"
      using assms(2) sw_receive(4) unfolding row_held_def by (metis list.set_intros(1))
    have "length (filter is_reply replies) \<le> (if is_rx msg then 1 else 0)"
      using receive_line_replies [of L "nodes ! i" randnum "sw_drone w i" lm d replies] sw_receive(6) lm by simp
    then have "replies_of w' i \<le> replies_of w i"
      using sw_receive(4) by (cases "is_rx msg") (simp_all add: sw_receive(1) replies_of_def)
    then have "all_replies nodes a w' \<le> all_replies nodes a w"
      by (intro all_replies_one_changed [of _ _ i]) (use i sw_receive(1,2) in \<open>auto simp: replies_of_def\<close>)
    then show ?thesis using bound by (intro stays) (simp_all add: sw_receive(1))
  next
    case (sw_leave i m)
    have "length (filter P (take m xs)) \<le> length (filter P xs)" for P and xs :: "'b Simu_Message list"
      by (metis append_take_drop_id filter_append length_append le_add1)
    then show ?thesis using bound by (intro stays all_replies_mono) (auto simp: sw_leave(1) replies_of_def)
  next
    case (sw_remove i)
    have "rx_pending nodes x (remove1 i is) fl \<le> rx_pending nodes x is fl" for x "is" fl
      using filter_drop_remove1 by (induction nodes x "is" fl rule: rx_pending.induct) auto
    then show ?thesis using bound by (intro stays all_replies_mono) (auto simp: sw_remove(1) replies_of_def)
  next
    case (sw_recv_ranging i msg rest m)
    then show ?thesis using bound by (intro stays all_replies_mono) (auto simp: replies_of_def)
  qed (use assms(2) bound in \<open>auto simp: row_held_def unanswered_def all_replies_def replies_of_def [abs_def]\<close>)
qed

section \<open>The run stops\<close>

text \<open>The row that is read first, until its lines are sent.\<close>

definition row_ready :: "string list \<Rightarrow> nat \<Rightarrow> log_row list \<Rightarrow> ('l, 'm) swarm_state \<Rightarrow> bool" where
  "row_ready nodes a rows w \<longleftrightarrow> \<not> sw_alive w a \<and> distinct (sw_set w) \<and> set (sw_set w) \<subseteq> {..<length nodes} \<and>
     sw_resp w = 1 \<and> sw_count w = 0 \<and>
     (\<forall>i. idle (sw_handler w i) \<and> sw_inbox w i = [] \<and> sw_outbox w i = []) \<and>
     (sw_flight w = W_Read \<and> sw_rows w = rows \<and> sw_alloc w = 1 \<or>
      (\<exists>row. rows = row # sw_rows w \<and>
         (sw_flight w = W_Alloc row \<and> sw_alloc w = 1 \<or> sw_flight w = W_Resp row \<and> sw_alloc w = 0)))"

definition halted :: "string list \<Rightarrow> nat \<Rightarrow> log_row \<Rightarrow> nat \<Rightarrow> ('l, 'm) swarm_state \<Rightarrow> bool" where
  "halted nodes a row n w \<longleftrightarrow> row_held nodes a row n w \<and>
     (if node_number (nodes ! a) = fst (lr_tx row) then unsent w else unanswered nodes a w)"

lemma halted_step:
  assumes "swarm_step nodes L w w'" "halted nodes a row n w" "wf_nodes nodes" "a < length nodes"
  shows "halted nodes a row n w'"
  using assms row_held_step [OF assms(1), of a row n] unsent_step [OF assms(1) _ _ assms(3,4), of row n]
    unanswered_step [OF assms(1) _ _ assms(3,4), of row n]
  by (auto simp: halted_def split: if_splits)

text \<open>The other receivers of the row are too few.\<close>

lemma rx_lines_row:
  assumes "wf_nodes nodes" "wf_row nodes row" "a < length nodes" "node_number (nodes ! a) \<noteq> fst (lr_tx row)"
  shows "rx_lines (node_number (nodes ! a)) (row_lines row) < NODES_NUM - 1"
proof -
  let ?n = "node_number (nodes ! a)"
  obtain tx rxs where lines: "row_lines row = tx # rxs" "lm_address tx = fst (lr_tx row)" "lm_status tx = TX"
    by (simp add: row_lines_def)
  have "length (row_lines row) = card (set (map node_number nodes))"
    using assms(2) distinct_card [of "map lm_address (row_lines row)"] by (simp add: wf_row_def)
  also have "\<dots> = NODES_NUM" using assms(1) distinct_card [of "map node_number nodes"] by (simp add: wf_nodes_def)
  finally have "length rxs = NODES_NUM - 1" using lines by simp
  moreover have "?n \<in> set (map lm_address (row_lines row))" using assms(2,3) by (simp add: wf_row_def)
  then obtain lm where "lm \<in> set rxs" "lm_address lm = ?n" using lines assms(4) by auto
  then have "length (filter (\<lambda>lm. lm_status lm = RX \<and> lm_address lm \<noteq> ?n) rxs) < length rxs"
    by (intro length_filter_less) auto
  ultimately show ?thesis using lines by (simp add: rx_lines_def)
qed

lemma row_ready_step:
  assumes "swarm_step nodes L w w'" "row_ready nodes a rows w" "wf_nodes nodes" "a < length nodes"
    "\<forall>row \<in> set rows. wf_row nodes row"
  shows "row_ready nodes a rows w' \<or> (\<exists>row. halted nodes a row (length rows) w')"
proof -
  have idle: "idle (sw_handler w i)" and empty: "sw_inbox w i = []" "sw_outbox w i = []" for i
    using assms(2) by (simp_all add: row_ready_def)
  from assms(1) show ?thesis
  proof cases
    case (sw_take_resp row)
    then have rows: "rows = row # sw_rows w" "sw_alloc w = 0" using assms(2) by (auto simp: row_ready_def)
    have row_held: "row_held nodes a row (length rows) w'"
      using assms(2) rows by (auto simp: sw_take_resp(1) row_held_def row_ready_def idle_neq)
    moreover have "unsent w'" using assms(2) by (auto simp: sw_take_resp(1) unsent_def row_ready_def idle_neq)
    moreover have "unanswered nodes a w'" if "node_number (nodes ! a) \<noteq> fst (lr_tx row)"
    proof -
      have "distinct (sw_set w)" "set (sw_set w) \<subseteq> {..<length nodes}" using assms(2) by (simp_all add: row_ready_def)
      note rx_pending_start [OF assms(3) this, of "node_number (nodes ! a)" "row_lines row"]
      moreover have "wf_row nodes row" using assms(5) rows by simp
      note rx_lines_row [OF assms(3) this assms(4) that]
      moreover have "replies_of w' = (\<lambda>i. 0)" "sw_count w' = 0" "sw_resp w' = 0"
        using assms(2) by (auto simp: sw_take_resp(1) replies_of_def row_ready_def)
      ultimately show ?thesis by (simp add: unanswered_def all_replies_def sw_take_resp(1))
    qed
    ultimately show ?thesis by (auto simp: halted_def)
  next
    case (sw_remove i)
    then show ?thesis using assms(2) by (auto simp: row_ready_def dest: in_set_remove1 notin_set_remove1)
  next
    case (sw_take_bcast i msg)
    then show ?thesis using idle [of i] by simp
  next
    case (sw_wait_resp i msg)
    then show ?thesis using idle [of i] by simp
  next
    case (sw_forward i msg k)
    then show ?thesis using idle [of i] by simp
  next
    case (sw_post_alloc i msg k)
    then show ?thesis using idle [of i] by simp
  next
    case (sw_killed_forward i msg k)
    then show ?thesis using idle [of i] by simp
  qed (use assms(2) empty in \<open>auto simp: row_ready_def\<close>)
qed

text \<open>
  C40. A drone that has left between two rows of the log stops the run: under every schedule of the
  threads the center reads at most two more rows, whichever of the other drones leave too.
\<close>

theorem swarm_halts:
  assumes "wf_nodes nodes" "\<forall>row \<in> set (sw_rows w0). wf_row nodes row" "between_rows nodes w0"
    and "a < length nodes" "\<not> sw_alive w0 a" and "swarm_reachable nodes L w0 w"
  shows "length (sw_rows w0) \<le> length (sw_rows w) + 2"
proof -
  from assms(6) have "row_ready nodes a (sw_rows w0) w \<or> (\<exists>row. halted nodes a row (length (sw_rows w0)) w)"
  proof induction
    case swarm_init
    show ?case using assms(3,5) by (simp add: row_ready_def between_rows_def)
  next
    case (swarm_next w w')
    then show ?case using row_ready_step [OF swarm_next(2) _ assms(1,4,2)] halted_step [OF swarm_next(2) _ assms(1,4)] by blast
  qed
  then show ?thesis
  proof (elim disjE exE)
    fix row assume "halted nodes a row (length (sw_rows w0)) w"
    then show ?thesis by (cases "sw_flight w") (auto simp: halted_def row_held_def)
  qed (auto simp: row_ready_def)
qed

text \<open>The second of two drones leaves, and the center hands out a row.\<close>

definition example_left :: "((u64 \<times> u16) list, u16) swarm_state" where
  "example_left = (swarm_start two_drones [one_row, one_row, one_row] (\<lambda>i. []) [])\<lparr>sw_alive := (\<lambda>i. i \<noteq> 1)\<rparr>"

lemma example_left_reachable:
  "swarm_reachable two_drones event_library example_left
     (example_left\<lparr>sw_rows := [one_row, one_row], sw_flight := W_Send (row_lines one_row) 0, sw_alloc := 0, sw_resp := 0\<rparr>)"
proof -
  let ?r = "swarm_reachable two_drones event_library example_left"
  have "?r (example_left\<lparr>sw_rows := [one_row, one_row], sw_flight := W_Alloc one_row\<rparr>)"
    by (rule swarm_next [OF swarm_init sw_read]) (simp_all add: example_left_def swarm_start_def)
  from swarm_next [OF this sw_take_alloc [of _ one_row]]
  have "?r (example_left\<lparr>sw_rows := [one_row, one_row], sw_flight := W_Resp one_row, sw_alloc := 0\<rparr>)"
    by (simp add: example_left_def swarm_start_def)
  from swarm_next [OF this sw_take_resp [of _ one_row]] show ?thesis
    by (simp add: example_left_def swarm_start_def)
qed

theorem swarm_halts_witness:
  "\<exists>w. swarm_reachable two_drones event_library example_left w \<and> length (sw_rows w) = 2 \<and>
     length (sw_rows example_left) = 3 \<and> length (sw_rows example_left) \<le> length (sw_rows w) + 2"
proof -
  have "wf_nodes two_drones" using example_swarm by (simp add: swarm_def)
  moreover have "\<forall>row \<in> set (sw_rows example_left). wf_row two_drones row"
    using example_row by (simp add: example_left_def swarm_start_def)
  moreover have "between_rows two_drones example_left" "1 < length two_drones" "\<not> sw_alive example_left 1"
    by (auto simp: between_rows_def example_left_def swarm_start_def example_nodes)
  ultimately have "length (sw_rows example_left) \<le>
      length (sw_rows (example_left\<lparr>sw_rows := [one_row, one_row], sw_flight := W_Send (row_lines one_row) 0,
        sw_alloc := 0, sw_resp := 0\<rparr>)) + 2"
    using example_left_reachable by (rule swarm_halts)
  then show ?thesis using example_left_reachable by (force simp: example_left_def swarm_start_def)
qed

end
