(* ===== verification/Matching_Device.thy ===== *)
theory Matching_Device
  imports Libusb
begin

text \<open>
  The way the first generation of ground stations opens its device, the same text in
  \<open>ground_control_windows.c\<close> and \<open>twoway_transport.c\<close>: the first device with the ids, whatever else
  is connected; and the common end of the programs. The messages to the terminal are left out.
\<close>

definition VENDOR_ID :: u16 where "VENDOR_ID = 0x0483"
definition PRODUCT_ID :: u16 where "PRODUCT_ID = 0x5740"
definition USB_INTERFACE :: int where "USB_INTERFACE = 0"
definition CF_IN_ENDPOINT :: u8 where "CF_IN_ENDPOINT = 0x81"
definition CF_OUT_ENDPOINT :: u8 where "CF_OUT_ENDPOINT = 0x01"
definition MAX_MESSAGE_SIZE :: nat where "MAX_MESSAGE_SIZE = 4096"

text \<open>The result says whether the handle is not NULL. The loop is left at the first match.\<close>

definition open_matching_device :: "'w libusb \<Rightarrow> 'w usb \<Rightarrow> bool \<times> 'w usb" where
  "open_matching_device L s =
     (case usb_device_list L s of
        (None, s) \<Rightarrow> (False, s)
      | (Some devices, s) \<Rightarrow>
          let (handle, s) = (case find (\<lambda>d. dev_ids d = Some (VENDOR_ID, PRODUCT_ID)) devices of
                None \<Rightarrow> (False, s)
              | Some d \<Rightarrow> (case usb_open L d s of (r, s) \<Rightarrow> (r = LIBUSB_SUCCESS, s)))
          in (handle, usb_free_list s))"

text \<open>The label \<open>cleanup\<close>, from the interface on.\<close>

definition device_cleanup :: "bool \<Rightarrow> bool \<Rightarrow> bool \<Rightarrow> 'w usb \<Rightarrow> 'w usb" where
  "device_cleanup claimed handle ctx s =
     (let s = (if claimed then usb_release s else s);
          s = (if handle then usb_close s else s)
      in if ctx then usb_exit s else s)"

section \<open>Facts\<close>

lemma open_matching_device_held:
  "open_matching_device L s = (h, s') \<Longrightarrow>
     held (us_calls s') = balance_add (held (us_calls s)) (0, 0, of_bool h, 0) \<and>
     bulk_outs (us_calls s') = bulk_outs (us_calls s)"
  by (auto simp: open_matching_device_def usb_device_list_def usb_open_def usb_free_list_def balance_assoc Let_def
      split: prod.splits option.splits)

lemma device_cleanup_held:
  "held (us_calls (device_cleanup claimed handle ctx s)) =
     balance_add (held (us_calls s)) (- of_bool ctx, 0, - of_bool handle, - of_bool claimed)"
  "bulk_outs (us_calls (device_cleanup claimed handle ctx s)) = bulk_outs (us_calls s)"
  by (auto simp: device_cleanup_def usb_release_def usb_close_def usb_exit_def balance_assoc Let_def)

lemma usb_init_balance:
  "usb_init L s = (r, s') \<Longrightarrow>
     held (us_calls s') = balance_add (held (us_calls s)) (of_bool (r = LIBUSB_SUCCESS), 0, 0, 0) \<and>
     bulk_outs (us_calls s') = bulk_outs (us_calls s)"
  by (auto simp: usb_init_def split: prod.splits)

lemma usb_claim_balance:
  "usb_claim L i s = (r, s') \<Longrightarrow>
     held (us_calls s') = balance_add (held (us_calls s)) (0, 0, 0, of_bool (r = LIBUSB_SUCCESS)) \<and>
     bulk_outs (us_calls s') = bulk_outs (us_calls s)"
  by (auto simp: usb_claim_def split: prod.splits)

lemma usb_quiet_calls:
  "usb_clear_halt L ep s = (r, s') \<Longrightarrow> us_silent s s'"
  "usb_auto_detach L s = (r, s') \<Longrightarrow> us_silent s s'"
  "usb_bulk_in L ep n t s = (r, d, s') \<Longrightarrow> us_silent s s'"
  by (auto simp: usb_clear_halt_def usb_auto_detach_def usb_bulk_in_def us_silent_def split: prod.splits)

section \<open>Received bytes\<close>

text \<open>
  A library with a history of the bytes it has handed out: the contract the proofs on received
  streams use.
\<close>

locale usb_history =
  fixes L :: "'w libusb" and hist :: "'w \<Rightarrow> bytes"
  assumes bulk_in_bound: "lu_bulk_in L w ep n t = (r, d, w') \<Longrightarrow> length d \<le> n"
    and bulk_in_hist: "lu_bulk_in L w ep n t = (r, d, w') \<Longrightarrow> hist w' = hist w @ d"

context usb_history
begin

lemma usb_bulk_in_history:
  assumes "usb_bulk_in L ep n t s = (r, d, s')"
  shows "length d \<le> n" "hist (us_world s') = hist (us_world s) @ d"
  using assms bulk_in_bound bulk_in_hist by (auto simp: usb_bulk_in_def split: prod.splits)

end

text \<open>
  Any library, with the bytes it hands out recorded beside its state. A transfer never fills more
  than the buffer it was given, which libusb documents.
\<close>

definition recording :: "'w libusb \<Rightarrow> ('w \<times> bytes) libusb" where
  "recording L =
     \<lparr>lu_init = (\<lambda>(w, h). case lu_init L w of (r, w) \<Rightarrow> (r, w, h)),
      lu_devices = (\<lambda>(w, h). case lu_devices L w of (ds, w) \<Rightarrow> (ds, w, h)),
      lu_open = (\<lambda>(w, h) d. case lu_open L w d of (r, w) \<Rightarrow> (r, w, h)),
      lu_auto_detach = (\<lambda>(w, h). case lu_auto_detach L w of (r, w) \<Rightarrow> (r, w, h)),
      lu_get_configuration = (\<lambda>(w, h). case lu_get_configuration L w of (r, c, w) \<Rightarrow> (r, c, w, h)),
      lu_set_configuration = (\<lambda>(w, h) c. case lu_set_configuration L w c of (r, w) \<Rightarrow> (r, w, h)),
      lu_claim = (\<lambda>(w, h) i. case lu_claim L w i of (r, w) \<Rightarrow> (r, w, h)),
      lu_clear_halt = (\<lambda>(w, h) ep. case lu_clear_halt L w ep of (r, w) \<Rightarrow> (r, w, h)),
      lu_link_select = (\<lambda>(w, h) v t. case lu_link_select L w v t of (ok, w) \<Rightarrow> (ok, w, h)),
      lu_bulk_in = (\<lambda>(w, h) ep n t. case lu_bulk_in L w ep n t of (r, d, w) \<Rightarrow> (r, take n d, w, h @ take n d)),
      lu_bulk_out = (\<lambda>(w, h) ep d t. case lu_bulk_out L w ep d t of (r, k, w) \<Rightarrow> (r, k, w, h))\<rparr>"

lemma recording_history: "usb_history (recording L) snd"
  by unfold_locales (auto simp: recording_def split: prod.splits)

interpretation recorded: usb_history "recording L" snd for L
  by (rule recording_history)

end
