(* ===== verification/Downlink.thy ===== *)
theory Downlink
  imports Matching_Device C_Text Byte_Order
begin

unbundle bit_operations_syntax

text \<open>
  The downlink of the first generation of ground stations, the same text in \<open>pc_to_uwb.c\<close> and
  \<open>twoway_transport.c\<close>: the parsers of address and payload, and the transfer of a message as its meta
  and its payload in packets of 64 bytes. The layout of the messages is a header of a git submodule
  and a parameter here; \<open>Sniffer_Meta_t\<close> begins with the four bytes of its magic, and the
  acknowledgement has the four bytes the programs compare.
\<close>

section \<open>The protocol header\<close>

record sniffer_protocol =
  sp_downlink_meta :: "u16 \<Rightarrow> u16 \<Rightarrow> u16 \<Rightarrow> u64 \<Rightarrow> bytes" \<comment> \<open>address, number, length, time\<close>
  sp_payload_max :: nat \<comment> \<open>\<open>SNIFFER_DOWNLINK_PAYLOAD_MAX\<close>\<close>
  sp_ack0 :: u8
  sp_ack1 :: u8
  sp_ack2 :: u8
  sp_ack3 :: u8
  sp_meta_rest :: nat \<comment> \<open>\<open>sizeof(Sniffer_Meta_t)\<close> less its magic\<close>
  sp_msgLength :: "bytes \<Rightarrow> u16"

text \<open>The size of the acknowledgement is that of the four bytes \<open>AC C0 00 01\<close> that the documents of the repository give.\<close>

definition SNIFFER_DOWNLINK_ACK_SIZE :: nat where "SNIFFER_DOWNLINK_ACK_SIZE = 4"

definition downlink_ack :: "sniffer_protocol \<Rightarrow> bytes" where
  "downlink_ack P = [sp_ack0 P, sp_ack1 P, sp_ack2 P, sp_ack3 P]"

section \<open>The code\<close>

definition USB_RX_TX_PACKET_SIZE :: nat where "USB_RX_TX_PACKET_SIZE = 64"

text \<open>\<open>None\<close> is the result \<open>-1\<close>.\<close>

definition parse_u16 :: "string \<Rightarrow> u16 option" where
  "parse_u16 text =
     (case strtoul0 text of (parsed, err, rest) \<Rightarrow>
        if err \<or> rest = text \<or> rest \<noteq> [] \<or> 65535 < parsed then None else Some (of_nat parsed))"

definition dl_hex_value :: "char \<Rightarrow> int" where
  "dl_hex_value ch =
     (if 48 \<le> ascii ch \<and> ascii ch \<le> 57 then int (ascii ch) - 48
      else if 97 \<le> ascii ch \<and> ascii ch \<le> 102 then int (ascii ch) - 97 + 10
      else if 65 \<le> ascii ch \<and> ascii ch \<le> 70 then int (ascii ch) - 65 + 10
      else -1)"

fun payload_scan :: "nat \<Rightarrow> string \<Rightarrow> bytes \<Rightarrow> int \<Rightarrow> bytes option" where
  "payload_scan limit [] payload highNibble = (if 0 \<le> highNibble then None else Some payload)"
| "payload_scan limit (c # p) payload highNibble =
     (if c = CHR '' '' \<or> c = CHR '':'' \<or> c = CHR ''-'' \<or> c = CHR '','' then payload_scan limit p payload highNibble
      else if dl_hex_value c < 0 then None
      else if highNibble < 0 then payload_scan limit p payload (dl_hex_value c)
      else if limit \<le> length payload then None
      else payload_scan limit p (payload @ [push_bit 4 (word_of_int highNibble) OR word_of_int (dl_hex_value c)]) (-1))"

definition parse_hex_payload :: "sniffer_protocol \<Rightarrow> string \<Rightarrow> bytes option" where
  "parse_hex_payload P text = payload_scan (sp_payload_max P) text [] (-1)"

text \<open>A bulk transfer of the send, with its check.\<close>

definition send_exact :: "'w libusb \<Rightarrow> bytes \<Rightarrow> 'w usb \<Rightarrow> bool \<times> 'w usb" where
  "send_exact L d s =
     (case usb_bulk_out L CF_OUT_ENDPOINT d 5000 s of (response, transferred, s) \<Rightarrow>
        (\<not> (response \<noteq> LIBUSB_SUCCESS \<or> transferred \<noteq> int (length d)), s))"

function send_payload :: "'w libusb \<Rightarrow> bytes \<Rightarrow> 'w usb \<Rightarrow> int \<times> 'w usb" where
  "send_payload L remain s =
     (if remain = [] then (0, s)
      else let sizeToSend = (if USB_RX_TX_PACKET_SIZE < length remain then USB_RX_TX_PACKET_SIZE else length remain)
           in case send_exact L (take sizeToSend remain) s of (ok, s) \<Rightarrow>
             if \<not> ok then (-1, s) else send_payload L (drop sizeToSend remain) s)"
  by pat_completeness auto
termination
  by (relation "measure (\<lambda>(L, remain, s). length remain)") (auto simp: USB_RX_TX_PACKET_SIZE_def)

declare send_payload.simps [simp del]

text \<open>The message of a payload: its meta, stamped with the time, and the packets of the payload.\<close>

definition downlink_meta :: "sniffer_protocol \<Rightarrow> u16 \<Rightarrow> u16 \<Rightarrow> bytes \<Rightarrow> u64 \<Rightarrow> bytes" where
  "downlink_meta P destAddress sequence payload txTime =
     sp_downlink_meta P destAddress sequence (of_nat (length payload)) txTime"

definition is_downlink_ack :: "sniffer_protocol \<Rightarrow> bytes \<Rightarrow> bool" where
  "is_downlink_ack P d \<longleftrightarrow> length d = SNIFFER_DOWNLINK_ACK_SIZE \<and> take 4 d = downlink_ack P"

section \<open>Facts\<close>

definition downlink_transfers :: "sniffer_protocol \<Rightarrow> u16 \<Rightarrow> u16 \<Rightarrow> bytes \<Rightarrow> u64 \<Rightarrow> bytes list" where
  "downlink_transfers P destAddress sequence payload txTime =
     downlink_meta P destAddress sequence payload txTime # chunks USB_RX_TX_PACKET_SIZE payload"

lemma payload_scan_bound:
  "payload_scan limit cs payload high = Some d \<Longrightarrow> length payload \<le> limit \<Longrightarrow> length d \<le> limit"
  by (induction limit cs payload high rule: payload_scan.induct) (auto split: if_splits)

lemma send_exact_facts:
  "send_exact L d s = (ok, s') \<Longrightarrow>
     held (us_calls s') = held (us_calls s) \<and> bulk_outs (us_calls s') = bulk_outs (us_calls s) @ [(d, ok)]"
  by (auto simp: send_exact_def usb_bulk_out_def split: prod.splits)

lemma send_payload_facts:
  assumes "send_payload L payload s = (r, s')"
  shows "held (us_calls s') = held (us_calls s) \<and> (r = 0 \<or> r = -1) \<and>
    (\<exists>k. sent_some (bulk_outs (us_calls s)) (bulk_outs (us_calls s')) (chunks USB_RX_TX_PACKET_SIZE payload) k \<and>
       (r = 0 \<longrightarrow> k = length (chunks USB_RX_TX_PACKET_SIZE payload)))"
  using assms
proof (induction L payload s rule: send_payload.induct)
  case (1 L remain s)
  let ?n = USB_RX_TX_PACKET_SIZE
  show ?case
  proof (cases "remain = []")
    case True
    then show ?thesis using "1.prems" by (auto simp: send_payload.simps intro!: exI [of _ 0])
  next
    case False
    let ?m = "if ?n < length remain then ?n else length remain"
    have cut: "take ?m remain = take ?n remain" "drop ?m remain = drop ?n remain" by simp_all
    have ch: "chunks ?n remain = take ?n remain # chunks ?n (drop ?n remain)"
      using False by (subst chunks.simps) (simp add: USB_RX_TX_PACKET_SIZE_def)
    obtain ok t where t: "send_exact L (take ?n remain) s = (ok, t)" by (cases "send_exact L (take ?n remain) s")
    note tf = send_exact_facts [OF t]
    have one: "sent_some (bulk_outs (us_calls s)) (bulk_outs (us_calls t)) (take ?n remain # ts) (if ok then 1 else 0)" for ts
      unfolding conjunct2 [OF tf] by (rule sent_some_one)
    show ?thesis
    proof (cases ok)
      case False
      then have "r = -1 \<and> s' = t" using "1.prems" \<open>remain \<noteq> []\<close> t
        by (subst (asm) send_payload.simps) (simp add: Let_def cut split del: if_split)
      then show ?thesis using tf one False by (auto simp: ch intro!: exI [of _ 0])
    next
      case True
      then have rec: "send_payload L (drop ?n remain) t = (r, s')" using "1.prems" \<open>remain \<noteq> []\<close> t
        by (subst (asm) send_payload.simps) (simp add: Let_def cut split del: if_split)
      from "1.IH" [OF False refl, of ok t] t cut rec True tf
      obtain k where "held (us_calls s') = held (us_calls s)" "r = 0 \<or> r = -1"
        "sent_some (bulk_outs (us_calls t)) (bulk_outs (us_calls s')) (chunks ?n (drop ?n remain)) k"
        "r = 0 \<longrightarrow> k = length (chunks ?n (drop ?n remain))" by auto
      moreover have "sent_some (bulk_outs (us_calls s)) (bulk_outs (us_calls s')) (chunks ?n remain) (Suc k)"
        using sent_some_trans [OF _ calculation(3), of _ "[take ?n remain]"] one [of "[]"] True by (simp add: ch)
      ultimately show ?thesis using tf by (auto simp: ch intro!: exI [of _ "Suc k"])
    qed
  qed
qed

text \<open>The layout that the later programs of the repository use, and a device that acknowledges everything.\<close>

definition example_protocol :: sniffer_protocol where
  "example_protocol =
     \<lparr>sp_downlink_meta = (\<lambda>a q n t. putU32Le 0xDDDD @ putU16Le a @ putU16Le q @ putU16Le n @ putU64Le t),
      sp_payload_max = 230, sp_ack0 = 0xAC, sp_ack1 = 0xC0, sp_ack2 = 0, sp_ack3 = 1,
      sp_meta_rest = 14, sp_msgLength = (\<lambda>d. read_le16 (drop 8 d))\<rparr>"

definition uplink_libusb :: "unit libusb" where
  "uplink_libusb = \<lparr>lu_init = \<lambda>w. (LIBUSB_SUCCESS, w), lu_devices = \<lambda>w. (Some [], w),
     lu_open = \<lambda>w d. (LIBUSB_SUCCESS, w), lu_auto_detach = \<lambda>w. (LIBUSB_SUCCESS, w),
     lu_get_configuration = \<lambda>w. (LIBUSB_SUCCESS, 1, w), lu_set_configuration = \<lambda>w c. (LIBUSB_SUCCESS, w),
     lu_claim = \<lambda>w i. (LIBUSB_SUCCESS, w), lu_clear_halt = \<lambda>w e. (LIBUSB_SUCCESS, w),
     lu_link_select = \<lambda>w v t. (True, w),
     lu_bulk_in = (\<lambda>w e n t. (LIBUSB_SUCCESS, downlink_ack example_protocol, w)),
     lu_bulk_out = (\<lambda>w e d t. (LIBUSB_SUCCESS, int (length d), w))\<rparr>"

end
