(* ===== verification/Pc_To_Uwb.thy ===== *)
theory Pc_To_Uwb
  imports Downlink
begin

text \<open>
  The uplink tool \<open>pc_to_uwb.c\<close>: one message to a drone over the sniffer, and the wait for the
  acknowledgement. The messages on \<open>stderr\<close> are left out.
\<close>

section \<open>The code\<close>

definition send_pc_to_uwb ::
    "'w libusb \<Rightarrow> sniffer_protocol \<Rightarrow> u16 \<Rightarrow> u16 \<Rightarrow> bytes \<Rightarrow> u64 \<Rightarrow> 'w usb \<Rightarrow> int \<times> 'w usb" where
  "send_pc_to_uwb L P destAddress sequence payload txTime s =
     (case send_exact L (downlink_meta P destAddress sequence payload txTime) s of (ok, s) \<Rightarrow>
        if \<not> ok then (-1, s) else send_payload L payload s)"

text \<open>The attempts that are left.\<close>

fun wait_attempts :: "'w libusb \<Rightarrow> sniffer_protocol \<Rightarrow> nat \<Rightarrow> 'w usb \<Rightarrow> int \<times> 'w usb" where
  "wait_attempts L P 0 s = (-1, s)"
| "wait_attempts L P (Suc n) s =
     (case usb_bulk_in L CF_IN_ENDPOINT USB_RX_TX_PACKET_SIZE 500 s of (response, d, s) \<Rightarrow>
        if response \<noteq> LIBUSB_SUCCESS then (-1, s)
        else if is_downlink_ack P d then (0, s)
        else wait_attempts L P n s)"

definition wait_downlink_ack :: "'w libusb \<Rightarrow> sniffer_protocol \<Rightarrow> 'w usb \<Rightarrow> int \<times> 'w usb" where
  "wait_downlink_ack L P s = wait_attempts L P 20 s"

text \<open>The command line after the name of the program: address, payload and sequence number.\<close>

definition pc_arguments :: "sniffer_protocol \<Rightarrow> string list \<Rightarrow> (u16 \<times> bytes \<times> u16) option" where
  "pc_arguments P args =
     (if length args + 1 < 3 \<or> 4 < length args + 1 then None
      else case parse_u16 (args ! 0) of
        None \<Rightarrow> None
      | Some destAddress \<Rightarrow>
          (case parse_hex_payload P (args ! 1) of
             None \<Rightarrow> None
           | Some payload \<Rightarrow>
               (if length args + 1 = 4
                then (case parse_u16 (args ! 2) of
                        None \<Rightarrow> None
                      | Some seqNumber \<Rightarrow> Some (destAddress, payload, seqNumber))
                else Some (destAddress, payload, 0))))"

text \<open>
  \<open>libusb_open_device_with_vid_pid\<close> for the device of the programs, a parameter like the other
  functions of the library: whether a handle was opened.
\<close>

type_synonym 'w opener = "u16 \<Rightarrow> u16 \<Rightarrow> 'w \<Rightarrow> bool \<times> 'w"

definition usb_open_vid_pid :: "'w opener \<Rightarrow> 'w usb \<Rightarrow> bool \<times> 'w usb" where
  "usb_open_vid_pid opener s = (case opener VENDOR_ID PRODUCT_ID (us_world s) of (ok, w) \<Rightarrow>
     (ok, log_call (Open ok) (s\<lparr>us_world := w\<rparr>)))"

definition pc_main ::
    "'w libusb \<Rightarrow> 'w opener \<Rightarrow> sniffer_protocol \<Rightarrow> string list \<Rightarrow> u64 \<Rightarrow> 'w usb \<Rightarrow> int \<times> string \<times> 'w usb" where
  "pc_main L opener P args txTime s =
     (case pc_arguments P args of
        None \<Rightarrow> (1, [], s)
      | Some (destAddress, payload, seqNumber) \<Rightarrow>
          (case usb_init L s of (r, s) \<Rightarrow>
             if r \<noteq> LIBUSB_SUCCESS then (1, [], s)
             else case usb_open_vid_pid opener s of (handle, s) \<Rightarrow>
               if \<not> handle then (1, [], usb_exit s)
               else case usb_auto_detach L s of (_, s) \<Rightarrow>
                 case usb_claim L 0 s of (r, s) \<Rightarrow>
                   if r \<noteq> LIBUSB_SUCCESS then (1, [], usb_exit (usb_close s))
                   else case send_pc_to_uwb L P destAddress seqNumber payload txTime s of (response, s) \<Rightarrow>
                     case (if response = 0 then wait_downlink_ack L P s else (response, s)) of (response, s) \<Rightarrow>
                       let s = usb_exit (usb_close (usb_release s))
                       in if response \<noteq> 0 then (1, [], s)
                          else (0, ''Sent '' @ fmt_u (length payload) @ '' bytes to UWB dest 0x'' @
                                 fmt_0x 4 (unat destAddress) @ '', seq='' @ fmt_u (unat seqNumber) @ nl @
                                 ''Received downlink ACK from CF firmware'' @ nl, s)))"

section \<open>Facts\<close>

lemma send_pc_to_uwb_facts:
  assumes "send_pc_to_uwb L P a q payload t s = (r, s')"
  shows "held (us_calls s') = held (us_calls s)" "r = 0 \<or> r = -1"
    and "\<exists>k. sent_some (bulk_outs (us_calls s)) (bulk_outs (us_calls s')) (downlink_transfers P a q payload t) k \<and>
      (r = 0 \<longrightarrow> k = length (downlink_transfers P a q payload t))"
proof -
  let ?m = "downlink_meta P a q payload t" and ?b = "\<lambda>s. bulk_outs (us_calls s)"
  obtain ok u where m: "send_exact L ?m s = (ok, u)" by (cases "send_exact L ?m s")
  note mf = send_exact_facts [OF m]
  have one: "sent_some (?b s) (?b u) (?m # ts) (if ok then 1 else 0)" for ts
    unfolding conjunct2 [OF mf] by (rule sent_some_one)
  have "held (us_calls s') = held (us_calls s) \<and> (r = 0 \<or> r = -1) \<and>
    (\<exists>k. sent_some (?b s) (?b s') (downlink_transfers P a q payload t) k \<and>
      (r = 0 \<longrightarrow> k = length (downlink_transfers P a q payload t)))"
  proof (cases ok)
    case False
    then show ?thesis using assms m mf one by (auto simp: send_pc_to_uwb_def downlink_transfers_def intro!: exI [of _ 0])
  next
    case True
    then have "send_payload L payload u = (r, s')" using assms m by (simp add: send_pc_to_uwb_def)
    from send_payload_facts [OF this] obtain k where
      r: "held (us_calls s') = held (us_calls u)" "r = 0 \<or> r = -1"
      "sent_some (?b u) (?b s') (chunks USB_RX_TX_PACKET_SIZE payload) k"
      "r = 0 \<longrightarrow> k = length (chunks USB_RX_TX_PACKET_SIZE payload)" by blast
    have "sent_some (?b s) (?b s') (downlink_transfers P a q payload t) (Suc k)"
      using sent_some_trans [OF _ r(3), of _ "[?m]"] one [of "[]"] True by (simp add: downlink_transfers_def)
    then show ?thesis using mf r by (auto simp: downlink_transfers_def intro!: exI [of _ "Suc k"])
  qed
  then show "held (us_calls s') = held (us_calls s)" "r = 0 \<or> r = -1"
    "\<exists>k. sent_some (?b s) (?b s') (downlink_transfers P a q payload t) k \<and>
      (r = 0 \<longrightarrow> k = length (downlink_transfers P a q payload t))" by blast+
qed

context usb_history
begin

text \<open>A wait that succeeds has read the acknowledgement last.\<close>

lemma wait_attempts_history:
  assumes "wait_attempts L P n s = (r, s')"
  shows "us_silent s s' \<and> (r = 0 \<or> r = -1) \<and>
    (\<exists>d. hist (us_world s') = hist (us_world s) @ d \<and> (r = 0 \<longrightarrow> (\<exists>e. d = e @ downlink_ack P)))"
  using assms
proof (induction n arbitrary: s)
  case (Suc n)
  obtain response e t where b: "usb_bulk_in L CF_IN_ENDPOINT USB_RX_TX_PACKET_SIZE 500 s = (response, e, t)"
    by (cases "usb_bulk_in L CF_IN_ENDPOINT USB_RX_TX_PACKET_SIZE 500 s") auto
  note h = usb_bulk_in_history(2) [OF b] usb_quiet_calls(3) [OF b]
  have ack: "e = downlink_ack P" if "is_downlink_ack P e" using that unfolding is_downlink_ack_def SNIFFER_DOWNLINK_ACK_SIZE_def by (metis order_refl take_all)
  show ?case
  proof (cases "response = LIBUSB_SUCCESS \<and> \<not> is_downlink_ack P e")
    case True
    then have "wait_attempts L P n t = (r, s')" using Suc.prems b by simp
    from Suc.IH [OF this] h show ?thesis using us_silent_trans by fastforce
  next
    case False
    then have "s' = t" "r = -1 \<or> r = 0 \<and> is_downlink_ack P e" using Suc.prems b by (auto split: if_splits)
    then show ?thesis using h ack by auto
  qed
qed (simp add: exI [of _ "[]"])

end

section \<open>The program\<close>

text \<open>The opener on a recorded library.\<close>

definition recording_opener :: "'w opener \<Rightarrow> ('w \<times> bytes) opener" where
  "recording_opener opener = (\<lambda>v p (w, h). case opener v p w of (ok, w) \<Rightarrow> (ok, w, h))"

lemma usb_open_vid_pid_balance:
  "usb_open_vid_pid opener s = (h, s') \<Longrightarrow>
     held (us_calls s') = balance_add (held (us_calls s)) (0, 0, of_bool h, 0) \<and>
     bulk_outs (us_calls s') = bulk_outs (us_calls s)"
  by (cases h) (auto simp: usb_open_vid_pid_def split: prod.splits)

text \<open>What the end of the program gives back.\<close>

lemma pc_close_facts:
  "us_world (usb_exit s) = us_world s" "us_world (usb_close s) = us_world s" "us_world (usb_release s) = us_world s"
  "held (us_calls (usb_exit s)) = balance_add (held (us_calls s)) (-1, 0, 0, 0)"
  "held (us_calls (usb_close s)) = balance_add (held (us_calls s)) (0, 0, -1, 0)"
  "held (us_calls (usb_release s)) = balance_add (held (us_calls s)) (0, 0, 0, -1)"
  "bulk_outs (us_calls (usb_exit s)) = bulk_outs (us_calls s)"
  "bulk_outs (us_calls (usb_close s)) = bulk_outs (us_calls s)"
  "bulk_outs (us_calls (usb_release s)) = bulk_outs (us_calls s)"
  by (simp_all add: usb_exit_def usb_close_def usb_release_def)

text \<open>
  C39. The uplink tool refuses a wrong command line before it touches the USB. Otherwise it ends with
  code 0 or 1 and has released all it acquired; the transfers it requests are a prefix of the meta and
  the packets of the payload, all but at most the last of them carried out completely; and code 0 means
  that all of the message was requested and carried out, and that the last thing received was the
  acknowledgement.
\<close>

theorem pc_main_transmits:
  assumes "pc_main (recording L) (recording_opener opener) P args txTime s = (code, printed, s')"
  shows "(code = 0 \<or> code = 1) \<and> held (us_calls s') = held (us_calls s) \<and>
    (case pc_arguments P args of
       None \<Rightarrow> code = 1 \<and> s' = s
     | Some (a, payload, q) \<Rightarrow> length payload \<le> sp_payload_max P \<and>
         (\<exists>k made. out_transfers (us_calls s') = out_transfers (us_calls s) @ take k (downlink_transfers P a q payload txTime) \<and>
            complete_transfers (us_calls s') = complete_transfers (us_calls s) @ take made (downlink_transfers P a q payload txTime) \<and>
            made \<le> k \<and> k \<le> made + 1 \<and>
            (code = 0 \<longrightarrow> k = length (downlink_transfers P a q payload txTime) \<and>
               made = length (downlink_transfers P a q payload txTime) \<and>
               (\<exists>received. snd (us_world s') = received @ downlink_ack P))))"
proof (cases "pc_arguments P args")
  case None
  then show ?thesis using assms by (simp add: pc_main_def)
next
  case (Some x)
  obtain a payload q where x: "x = (a, payload, q)" by (cases x)
  let ?L = "recording L" and ?o = "recording_opener opener"
  let ?ts = "downlink_transfers P a q payload txTime"
  have bound: "length payload \<le> sp_payload_max P"
    using Some x payload_scan_bound [of "sp_payload_max P" "args ! 1" "[]" "-1" payload]
    by (auto simp: pc_arguments_def parse_hex_payload_def split: if_splits option.splits)
  obtain r1 s1 where i: "usb_init ?L s = (r1, s1)" by (cases "usb_init ?L s")
  obtain h s2 where o: "usb_open_vid_pid ?o s1 = (h, s2)" by (cases "usb_open_vid_pid ?o s1")
  obtain r3 s3 where d: "usb_auto_detach ?L s2 = (r3, s3)" by (cases "usb_auto_detach ?L s2")
  obtain r4 s4 where c: "usb_claim ?L 0 s3 = (r4, s4)" by (cases "usb_claim ?L 0 s3")
  obtain r5 s5 where snd: "send_pc_to_uwb ?L P a q payload txTime s4 = (r5, s5)"
    by (cases "send_pc_to_uwb ?L P a q payload txTime s4")
  obtain r6 s6 where w: "wait_downlink_ack ?L P s5 = (r6, s6)" by (cases "wait_downlink_ack ?L P s5")
  note bal = usb_init_balance [OF i] usb_open_vid_pid_balance [OF o] usb_claim_balance [OF c]
    usb_quiet_calls(2) [OF d, unfolded us_silent_def]
  note sf = send_pc_to_uwb_facts [OF snd]
  have wf: "us_silent s5 s6" "r6 = 0 \<or> r6 = -1" "r6 = 0 \<longrightarrow> (\<exists>received. Product_Type.snd (us_world s6) = received @ downlink_ack P)"
    using recorded.wait_attempts_history [OF w [unfolded wait_downlink_ack_def]] by auto
  obtain c where c5: "sent_some (bulk_outs (us_calls s4)) (bulk_outs (us_calls s5)) ?ts c" "r5 = 0 \<longrightarrow> c = length ?ts"
    using sf(3) by blast
  note main = assms [unfolded pc_main_def Some x option.case prod.case i o d c snd w]
  consider "r1 \<noteq> LIBUSB_SUCCESS" | "r1 = LIBUSB_SUCCESS" "\<not> h" | "r1 = LIBUSB_SUCCESS" h "r4 \<noteq> LIBUSB_SUCCESS"
    | (sent) "r1 = LIBUSB_SUCCESS" h "r4 = LIBUSB_SUCCESS" by blast
  then show ?thesis
  proof cases
    case sent
    have "code = (if r5 = 0 \<and> r6 = 0 then 0 else 1) \<and>
        s' = usb_exit (usb_close (usb_release (if r5 = 0 then s6 else s5)))"
      using main sent by (auto simp: Let_def split: if_splits)
    moreover have "held (us_calls s5) = balance_add (held (us_calls s)) (1, 0, 1, 1)"
      "bulk_outs (us_calls s4) = bulk_outs (us_calls s)"
      using bal sf(1) sent by (simp_all add: balance_assoc)
    moreover have "held (us_calls s6) = held (us_calls s5)" "bulk_outs (us_calls s6) = bulk_outs (us_calls s5)"
      using wf(1) by (simp_all add: us_silent_def)
    ultimately have held: "held (us_calls s') = held (us_calls s)" and code: "code = (if r5 = 0 \<and> r6 = 0 then 0 else 1)"
      and world: "r5 = 0 \<longrightarrow> us_world s' = us_world s6"
      and made: "sent_some (bulk_outs (us_calls s)) (bulk_outs (us_calls s')) ?ts c"
      using c5(1) by (auto simp: pc_close_facts balance_assoc)
    obtain k where "c \<le> k" "k \<le> c + 1" "k \<le> length ?ts" "out_transfers (us_calls s') = out_transfers (us_calls s) @ take k ?ts"
      using sent_some_transfers(2) [OF made] by blast
    then have "\<exists>k made. out_transfers (us_calls s') = out_transfers (us_calls s) @ take k ?ts \<and>
        complete_transfers (us_calls s') = complete_transfers (us_calls s) @ take made ?ts \<and> made \<le> k \<and> k \<le> made + 1 \<and>
        (code = 0 \<longrightarrow> k = length ?ts \<and> made = length ?ts \<and> (\<exists>received. Product_Type.snd (us_world s') = received @ downlink_ack P))"
      using sent_some_transfers(1) [OF made] c5(2) wf(3) code world
      by (intro exI [of _ k] exI [of _ c]) (auto split: if_splits)
    then show ?thesis using Some x bound held code by simp
  qed (use main bal Some x bound in \<open>auto simp: pc_close_facts balance_assoc out_transfers_def complete_transfers_def intro!: exI [of _ 0]\<close>)
qed

lemma example_arguments: "pc_arguments example_protocol [''0xffff'', ''01:0a'', ''7''] = Some (0xFFFF, [1, 10], 7)"
  by (simp add: pc_arguments_def parse_u16_def strtoul0_def scan_number_def digit_value_def isspace_def tolower_def
      ULONG_MAX_def parse_hex_payload_def dl_hex_value_def example_protocol_def Let_def)

lemma example_wait: "fst (wait_downlink_ack (recording uplink_libusb) example_protocol s) = 0"
proof -
  have n: "(20 :: nat) = Suc 19" by simp
  show ?thesis unfolding wait_downlink_ack_def n wait_attempts.simps
    by (simp add: usb_bulk_in_def recording_def uplink_libusb_def is_downlink_ack_def SNIFFER_DOWNLINK_ACK_SIZE_def
        downlink_ack_def USB_RX_TX_PACKET_SIZE_def split: prod.split)
qed

lemma example_send: "fst (send_pc_to_uwb (recording uplink_libusb) P a q [b, c] t s) = 0"
  by (simp add: send_pc_to_uwb_def send_exact_def usb_bulk_out_def send_payload.simps recording_def uplink_libusb_def
      USB_RX_TX_PACKET_SIZE_def split: prod.split)

theorem pc_main_transmits_witness:
  "\<exists>printed s' received. pc_main (recording uplink_libusb) (recording_opener (\<lambda>v p w. (True, w))) example_protocol
       [''0xffff'', ''01:0a'', ''7''] 5 \<lparr>us_world = ((), []), us_calls = []\<rparr> = (0, printed, s') \<and>
     out_transfers (us_calls s') = downlink_transfers example_protocol 0xFFFF 7 [1, 10] 5 \<and>
     complete_transfers (us_calls s') = downlink_transfers example_protocol 0xFFFF 7 [1, 10] 5 \<and>
     snd (us_world s') = received @ [0xAC, 0xC0, 0, 1]"
proof -
  let ?run = "pc_main (recording uplink_libusb) (recording_opener (\<lambda>v p w. (True, w))) example_protocol
    [''0xffff'', ''01:0a'', ''7''] 5 \<lparr>us_world = ((), []), us_calls = []\<rparr>"
  obtain code printed s' where run: "?run = (code, printed, s')" by (cases ?run)
  have "fst ?run = 0"
    using example_wait example_send
    by (simp add: pc_main_def example_arguments usb_init_def usb_open_vid_pid_def usb_auto_detach_def usb_claim_def
        recording_def uplink_libusb_def recording_opener_def Let_def split_beta)
  moreover have "downlink_ack example_protocol = [0xAC, 0xC0, 0, 1]" by (simp add: downlink_ack_def example_protocol_def)
  ultimately show ?thesis using run pc_main_transmits [OF run] unfolding example_arguments by auto
qed

end
