(* ===== verification/Windows_Capture.thy ===== *)
theory Windows_Capture
  imports Matching_Device Libusb_Transport
begin

text \<open>
  The first capture program, \<open>ground_control_windows.c\<close>, which works on libusb directly and builds
  on every system. It decodes and prints a meta as \<open>sniffer_capture.c\<close> does. \<open>keep_running\<close> and
  the file are modelled as there; the messages on \<open>stderr\<close>, with the counters that only they use,
  are left out. A \<open>long\<close> has 32 bits on Windows.
\<close>

section \<open>The code\<close>

definition MAX_TRANSFER_SIZE :: nat where "MAX_TRANSFER_SIZE = 256"
definition USB_TIMEOUT_MS :: nat where "USB_TIMEOUT_MS = 5000"

record 'w win_state =
  wn_usb :: "'w usb"
  wn_running :: "nat option"
  wn_file :: out_file
  wn_printed :: string

definition win_poll :: "'w win_state \<Rightarrow> bool \<times> 'w win_state" where
  "win_poll s = (case is_running (wn_running s) of (go, r) \<Rightarrow> (go, s\<lparr>wn_running := r\<rparr>))"

text \<open>The result is the bytes received, \<open>None\<close> for \<open>-1\<close>.\<close>

definition read_usb_body ::
    "'w libusb \<Rightarrow> nat \<Rightarrow> bytes \<times> 'w win_state \<Rightarrow> (bytes option \<times> 'w win_state) + (bytes \<times> 'w win_state)" where
  "read_usb_body L n = (\<lambda>(buffer, s).
     case win_poll s of (go, s) \<Rightarrow>
       if \<not> (go \<and> length buffer < n) then Inl (Some buffer, s)
       else case usb_bulk_in L CF_IN_ENDPOINT (n - length buffer) USB_TIMEOUT_MS (wn_usb s) of (response, d, u) \<Rightarrow>
         let s = s\<lparr>wn_usb := u\<rparr>; buffer = buffer @ d
         in if response \<noteq> LIBUSB_SUCCESS
            then (case win_poll s of (go, s) \<Rightarrow>
                    if \<not> go then Inl (Some buffer, s)
                    else if response = LIBUSB_ERROR_TIMEOUT then Inr (buffer, s)
                    else Inl (None, s))
            else Inr (buffer, s))"

definition read_exact_usb :: "'w libusb \<Rightarrow> nat \<Rightarrow> 'w win_state \<Rightarrow> (bytes option \<times> 'w win_state) option" where
  "read_exact_usb L n s = c_loop (\<lambda>x. Some (read_usb_body L n x)) ([], s)"

definition write_binary :: "bytes \<Rightarrow> 'w win_state \<Rightarrow> int \<times> 'w win_state" where
  "write_binary buffer s =
     (case fwrite (wn_file s) buffer of (written, f) \<Rightarrow>
        (if written \<noteq> length buffer then -1 else 0, s\<lparr>wn_file := f\<rparr>))"

text \<open>One iteration of the loop on the window; the result is the number received and \<open>meta\<close>.\<close>

definition window_body ::
    "'w libusb \<Rightarrow> bytes \<times> 'w win_state \<Rightarrow> ((int \<times> bytes \<times> 'w win_state) + (bytes \<times> 'w win_state)) option" where
  "window_body L = (\<lambda>(window, s).
     case win_poll s of (go, s) \<Rightarrow>
       if \<not> go then Some (Inl (0, [], s))
       else do {
         (stop, s) \<leftarrow>
           (if window = magic_bytes then do {
              (received, s) \<leftarrow> read_exact_usb L (SNIFFER_META_SIZE - 4) s;
              Some (case received of
                  None \<Rightarrow> (Some (-1, []), s)
                | Some d \<Rightarrow>
                    (if length d \<noteq> SNIFFER_META_SIZE - 4 then (Some (4 + int (length d), []), s)
                     else if unat (message_length (sniffer_decode_meta (window @ d))) \<le> MAX_MESSAGE_SIZE
                     then (Some (int SNIFFER_META_SIZE, window @ d), s)
                     else (None, s)))
            } else Some (None, s));
         case stop of
           Some (received, raw) \<Rightarrow> Some (Inl (received, raw, s))
         | None \<Rightarrow> do {
             (received, s) \<leftarrow> read_exact_usb L 1 s;
             Some (case received of
                 None \<Rightarrow> Inl (-1, [], s)
               | Some d \<Rightarrow> if length d \<noteq> 1 then Inl (int (length d), [], s) else Inr (tl window @ d, s))
           }
       })"

definition win_next_meta :: "'w libusb \<Rightarrow> 'w win_state \<Rightarrow> (int \<times> bytes \<times> 'w win_state) option" where
  "win_next_meta L s = do {
     (received, s) \<leftarrow> read_exact_usb L 4 s;
     case received of
       None \<Rightarrow> Some (-1, [], s)
     | Some window \<Rightarrow>
         if length window \<noteq> 4 then Some (int (length window), [], s)
         else c_loop (window_body L) (window, s)
   }"

text \<open>
  The loop on the payload; \<open>Some r\<close> is \<open>return r\<close> of the function, \<open>None\<close> the end of the loop.
\<close>

definition payload_body ::
    "'w libusb \<Rightarrow> nat \<times> 'w win_state \<Rightarrow> ((int option \<times> 'w win_state) + (nat \<times> 'w win_state)) option" where
  "payload_body L = (\<lambda>(remaining, s).
     case win_poll s of (go, s) \<Rightarrow>
       if \<not> (go \<and> 0 < remaining) then Some (Inl (None, s))
       else let chunk_size = (if MAX_TRANSFER_SIZE < remaining then MAX_TRANSFER_SIZE else remaining) in do {
         (received, s) \<leftarrow> read_exact_usb L chunk_size s;
         Some (case received of
             None \<Rightarrow> Inl (Some (-1), s)
           | Some d \<Rightarrow>
               (case (if 0 < length d then write_binary d s else (0, s)) of (status, s) \<Rightarrow>
                  if status \<noteq> 0 then Inl (Some (-1), s)
                  else if length d \<noteq> chunk_size
                  then (case win_poll s of (go, s) \<Rightarrow> Inl (if \<not> go then None else Some (-1), s))
                  else Inr (remaining - length d, s)))
       })"

abbreviation win_flush :: "'w win_state \<Rightarrow> 'w win_state" where
  "win_flush s \<equiv> s\<lparr>wn_file := snd (fflush (wn_file s))\<rparr>"

definition store_body ::
    "'w libusb \<Rightarrow> u32 \<times> 'w win_state \<Rightarrow> ((int \<times> 'w win_state) + (u32 \<times> 'w win_state)) option" where
  "store_body L = (\<lambda>(packet_count, s).
     case win_poll s of (go, s) \<Rightarrow>
       if \<not> go then Some (Inl (0, s))
       else do {
         (received, raw, s) \<leftarrow> win_next_meta L s;
         if received < 0 then Some (Inl (-1, s))
         else if received \<noteq> int SNIFFER_META_SIZE
         then Some (case win_poll s of (go, s) \<Rightarrow> Inl (if \<not> go then 0 else -1, s))
         else
           let meta = sniffer_decode_meta raw;
               packet_count = packet_count + 1;
               s = s\<lparr>wn_printed := wn_printed s @ print_meta meta (ucast packet_count)\<rparr>
           in case write_binary raw s of (status, s) \<Rightarrow>
             if status \<noteq> 0 then Some (Inl (-1, s))
             else if magic meta \<noteq> SNIFFER_MAGIC then Some (Inr (packet_count, win_flush s))
             else do {
               (result, s) \<leftarrow> c_loop (payload_body L) (unat (message_length meta), s);
               Some (case result of
                   Some r \<Rightarrow> Inl (r, s)
                 | None \<Rightarrow> Inr (packet_count, win_flush s))
             }
       })"

definition store_sniffer_binary_data :: "'w libusb \<Rightarrow> 'w win_state \<Rightarrow> (int \<times> 'w win_state) option" where
  "store_sniffer_binary_data L s = c_loop (store_body L) (0, s)"


section \<open>What is stored\<close>

text \<open>
  The contents of the file for a stream of bytes: the capture specification's records, and of a last
  record whose payload is not complete what there is.
\<close>

fun windows_seg :: "segment \<Rightarrow> bytes" where
  "windows_seg (Record b) = b"
| "windows_seg (Partial_Payload b) = b"
| "windows_seg _ = []"

definition windows_stored :: "bytes \<Rightarrow> bytes" where
  "windows_stored bs = concat (map windows_seg (parse MAX_MESSAGE_SIZE None bs))"

text \<open>Its equation, from record to record.\<close>

lemma windows_stored_eq:
  "windows_stored bs =
     (let r = sync bs; n = 18 + record_payload_length r
      in if length r < 18 then []
         else if MAX_MESSAGE_SIZE < record_payload_length r then windows_stored (drop 18 r)
         else take n r @ windows_stored (drop n r))"
proof (cases rule: parse_cases [of None bs MAX_MESSAGE_SIZE])
  case (synced pre x rest)
  have nil: "parse MAX_MESSAGE_SIZE None [] = []" by (simp add: parse.simps)
  show ?thesis
    using synced(3,5,6) nil by (cases "skipped bs = []") (auto simp: windows_stored_def Let_def)
qed (auto simp: windows_stored_def sync_short Let_def)

lemma sync_sync [simp]: "sync (sync bs) = sync bs"
  by (cases "sync bs = []") (simp_all add: sync_matches sync_same)

lemma windows_stored_cong: "sync a = sync b \<Longrightarrow> windows_stored a = windows_stored b"
  by (subst (1 2) windows_stored_eq) simp

lemma windows_stored_short: "length bs < 18 \<Longrightarrow> windows_stored bs = []"
  using length_sync [of bs] by (subst windows_stored_eq) (simp add: Let_def)

text \<open>What a complete meta does, and a rejected one.\<close>

lemma windows_stored_record:
  assumes "magic_matches raw" "length raw = 18" "record_payload_length raw \<le> MAX_MESSAGE_SIZE"
    and "length p \<le> record_payload_length raw"
    and "length p = record_payload_length raw \<or> rest = []"
  shows "windows_stored (raw @ p @ rest) = raw @ p @ windows_stored rest"
proof -
  let ?b = "raw @ p @ rest"
  have b: "sync ?b = ?b" "record_payload_length ?b = record_payload_length raw"
    using assms(1,2) by (simp_all add: magic_matches_def sync_same record_payload_length_def decode_meta_append)
  have "windows_stored [] = []" by (rule windows_stored_short) simp
  then show ?thesis
    using assms b by (subst windows_stored_eq) (auto simp: Let_def)
qed

lemma windows_stored_rejected:
  assumes "magic_matches raw" "length raw = 18" "MAX_MESSAGE_SIZE < record_payload_length raw"
  shows "windows_stored (raw @ rest) = windows_stored rest"
proof -
  have "sync (raw @ rest) = raw @ rest" "record_payload_length (raw @ rest) = record_payload_length raw"
    using assms(1,2) by (simp_all add: magic_matches_def sync_same record_payload_length_def decode_meta_append)
  then show ?thesis using assms by (subst windows_stored_eq) (simp add: Let_def)
qed

text \<open>The window moves on: over its first byte, or over the rest of a magic.\<close>

lemma windows_stored_slide:
  assumes "length w = 4" "w \<noteq> magic_bytes"
  shows "windows_stored (w @ rest) = windows_stored (tl w @ rest)"
proof -
  obtain b w' where w: "w = b # w'" using assms(1) by (cases w) auto
  have "\<not> magic_matches (w @ rest)" using assms by (simp add: magic_matches_def)
  then show ?thesis unfolding w by (intro windows_stored_cong) simp
qed

lemma windows_stored_tl_magic: "windows_stored (tl magic_bytes @ rest) = windows_stored rest"
  by (intro windows_stored_cong) (simp add: magic_bytes_def magic_matches_def)

section \<open>The run of the program\<close>

text \<open>From \<open>s\<close> to \<open>s'\<close> the bytes \<open>d\<close> were received and nothing else was done.\<close>

definition win_moved :: "('w \<Rightarrow> bytes) \<Rightarrow> 'w win_state \<Rightarrow> bytes \<Rightarrow> 'w win_state \<Rightarrow> bool" where
  "win_moved hist s d s' \<longleftrightarrow> hist (us_world (wn_usb s')) = hist (us_world (wn_usb s)) @ d \<and>
     us_silent (wn_usb s) (wn_usb s') \<and> wn_file s' = wn_file s"

lemma win_moved_refl [simp]: "win_moved hist s [] s"
  by (simp add: win_moved_def)

lemma win_moved_trans: "win_moved hist s d t \<Longrightarrow> win_moved hist t e u \<Longrightarrow> win_moved hist s (d @ e) u"
  by (auto simp: win_moved_def intro: us_silent_trans)

lemma win_poll_moved: "win_poll s = (go, s') \<Longrightarrow> win_moved hist s [] s' \<and> (\<not> go \<longrightarrow> wn_running s' = Some 0)"
  by (cases "wn_running s" rule: is_running.cases) (auto simp: win_poll_def win_moved_def)

text \<open>A file that takes all it is given.\<close>

lemma write_binary_accepts:
  "fl_accept (wn_file s) = [] \<Longrightarrow>
     write_binary d s = (0, s\<lparr>wn_file := (wn_file s)\<lparr>fl_data := fl_data (wn_file s) @ d\<rparr>\<rparr>)"
  by (simp add: write_binary_def fwrite_def)

lemma fflush_data: "fl_data (snd (fflush f)) = fl_data f" "fl_accept (snd (fflush f)) = fl_accept f"
  by (simp_all add: fflush_def split: list.split)

text \<open>
  What reading a meta comes to: the meta of the next record that is stored, or the end, where the
  bytes of a failed read are lost.
\<close>

definition meta_result :: "('w \<Rightarrow> bytes) \<Rightarrow> 'w win_state \<Rightarrow> int \<Rightarrow> bytes \<Rightarrow> 'w win_state \<Rightarrow> bool" where
  "meta_result hist s received raw s' \<longleftrightarrow>
     (\<exists>used lost. win_moved hist s (used @ lost) s' \<and>
        (if received = int SNIFFER_META_SIZE
         then lost = [] \<and> length raw = 18 \<and> magic_matches raw \<and> record_payload_length raw \<le> MAX_MESSAGE_SIZE \<and>
           (\<forall>rest. windows_stored (used @ rest) = windows_stored (raw @ rest))
         else windows_stored used = [] \<and> (lost \<noteq> [] \<longrightarrow> received < 0)))"

text \<open>A payload of \<open>N\<close> bytes: \<open>p\<close> has been read and written, \<open>lost\<close> has only been read.\<close>

definition payload_inv :: "('w \<Rightarrow> bytes) \<Rightarrow> 'w win_state \<Rightarrow> nat \<Rightarrow> bytes \<Rightarrow> bytes \<Rightarrow> 'w win_state \<Rightarrow> bool" where
  "payload_inv hist s N p lost t \<longleftrightarrow>
     hist (us_world (wn_usb t)) = hist (us_world (wn_usb s)) @ p @ lost \<and> us_silent (wn_usb s) (wn_usb t) \<and>
     fl_data (wn_file t) = fl_data (wn_file s) @ p \<and> fl_accept (wn_file t) = [] \<and> length p \<le> N"

definition payload_end :: "('w \<Rightarrow> bytes) \<Rightarrow> 'w win_state \<Rightarrow> nat \<Rightarrow> int option \<Rightarrow> 'w win_state \<Rightarrow> bool" where
  "payload_end hist s N r s' \<longleftrightarrow>
     (\<exists>p lost. payload_inv hist s N p lost s' \<and>
        (r = None \<and> lost = [] \<and> (length p = N \<or> wn_running s' = Some 0) \<or> r = Some (-1)))"

lemma payload_inv_poll: "payload_inv hist s N p lost t \<Longrightarrow> win_poll t = (go, t') \<Longrightarrow> payload_inv hist s N p lost t'"
  using win_poll_moved [of t go t' hist] by (auto simp: payload_inv_def win_moved_def intro: us_silent_trans)

text \<open>
  The outer loop: all that was received is \<open>u\<close>, and the file has its records; after a signal also
  the beginning of the last one. At the end some bytes of a failed read may be lost.
\<close>

definition store_inv :: "('w \<Rightarrow> bytes) \<Rightarrow> 'w win_state \<Rightarrow> bytes \<Rightarrow> 'w win_state \<Rightarrow> bool" where
  "store_inv hist s u t \<longleftrightarrow>
     hist (us_world (wn_usb t)) = hist (us_world (wn_usb s)) @ u \<and> us_silent (wn_usb s) (wn_usb t) \<and>
     fl_accept (wn_file t) = [] \<and>
     (\<exists>out. fl_data (wn_file t) = fl_data (wn_file s) @ out \<and>
        ((\<forall>rest. windows_stored (u @ rest) = out @ windows_stored rest) \<or>
         wn_running t = Some 0 \<and> windows_stored u = out))"

definition store_end :: "('w \<Rightarrow> bytes) \<Rightarrow> 'w win_state \<Rightarrow> int \<Rightarrow> 'w win_state \<Rightarrow> bool" where
  "store_end hist s r s' \<longleftrightarrow>
     (\<exists>used lost. hist (us_world (wn_usb s')) = hist (us_world (wn_usb s)) @ used @ lost \<and>
        us_silent (wn_usb s) (wn_usb s') \<and> fl_data (wn_file s') = fl_data (wn_file s) @ windows_stored used \<and>
        (r = 0 \<and> lost = [] \<or> r = -1))"

lemma store_inv_stop:
  assumes "store_inv hist s u t"
  shows "hist (us_world (wn_usb t)) = hist (us_world (wn_usb s)) @ u" "us_silent (wn_usb s) (wn_usb t)"
    "fl_data (wn_file t) = fl_data (wn_file s) @ windows_stored u"
proof -
  have "windows_stored [] = []" by (rule windows_stored_short) simp
  moreover obtain out where "fl_data (wn_file t) = fl_data (wn_file s) @ out"
    "(\<forall>rest. windows_stored (u @ rest) = out @ windows_stored rest) \<or> windows_stored u = out"
    using assms by (auto simp: store_inv_def)
  ultimately show "fl_data (wn_file t) = fl_data (wn_file s) @ windows_stored u" by (metis append_Nil2)
qed (use assms in \<open>simp_all add: store_inv_def\<close>)

lemma magic_matches_magic: "magic_matches raw \<Longrightarrow> magic (sniffer_decode_meta raw) = SNIFFER_MAGIC"
proof -
  assume "magic_matches raw"
  then have "take 4 raw = [0xBB, 0xBB, 0, 0]" by (simp add: magic_matches_def magic_bytes_def)
  then have "take 4 raw ! i = [0xBB, 0xBB, 0, 0] ! i" for i by simp
  from this [of 0] this [of 1] this [of 2] this [of 3]
  show ?thesis by (simp add: sniffer_decode_meta_def read_le32_def SNIFFER_MAGIC_def)
qed

lemma meta_result_end:
  "win_moved hist s (used @ lost) s' \<Longrightarrow> windows_stored used = [] \<Longrightarrow> received \<noteq> 18 \<Longrightarrow> lost \<noteq> [] \<longrightarrow> received < 0 \<Longrightarrow>
     meta_result hist s received raw s'"
  by (auto simp: meta_result_def SNIFFER_META_SIZE_def)

context usb_history
begin

text \<open>One iteration: the buffer grows by what was received.\<close>

lemma read_usb_body_moved:
  assumes "win_moved hist s d t" "length d \<le> n"
  shows "case read_usb_body L n (d, t) of
      Inl (r, s') \<Rightarrow> \<exists>d. win_moved hist s d s' \<and> length d \<le> n \<and> (r = None \<or> r = Some d)
    | Inr (d', t') \<Rightarrow> win_moved hist s d' t' \<and> length d' \<le> n"
proof -
  obtain go t1 where p: "win_poll t = (go, t1)" by (cases "win_poll t")
  have m1: "win_moved hist s d t1" using assms win_poll_moved [OF p] win_moved_trans [of hist s d t "[]" t1] by simp
  obtain response e u where b: "usb_bulk_in L CF_IN_ENDPOINT (n - length d) USB_TIMEOUT_MS (wn_usb t1) = (response, e, u)"
    by (cases "usb_bulk_in L CF_IN_ENDPOINT (n - length d) USB_TIMEOUT_MS (wn_usb t1)") auto
  let ?t = "t1\<lparr>wn_usb := u\<rparr>"
  have "win_moved hist t1 e ?t" "length e \<le> n - length d"
    using usb_bulk_in_history [OF b] usb_quiet_calls(3) [OF b] by (simp_all add: win_moved_def)
  then have m2: "win_moved hist s (d @ e) ?t" "length (d @ e) \<le> n"
    using win_moved_trans [OF m1] assms by auto
  obtain go2 t2 where q: "win_poll ?t = (go2, t2)" by (cases "win_poll ?t")
  have m3: "win_moved hist s (d @ e) t2" using win_moved_trans [OF m2(1)] win_poll_moved [OF q] by fastforce
  show ?thesis
    using m1 m2 m3 assms(2) by (auto simp: read_usb_body_def p b q Let_def)
qed

lemma read_usb_moved:
  assumes "read_exact_usb L n s = Some (r, s')"
  obtains d where "win_moved hist s d s'" "length d \<le> n" "r = None \<or> r = Some d"
proof -
  have "case (r, s') of (r, s') \<Rightarrow> \<exists>d. win_moved hist s d s' \<and> length d \<le> n \<and> (r = None \<or> r = Some d)"
    using assms unfolding read_exact_usb_def
  proof (rule c_loop_partial [where I = "\<lambda>(d, t). win_moved hist s d t \<and> length d \<le> n"])
    fix x y
    assume I: "case x of (d, t) \<Rightarrow> win_moved hist s d t \<and> length d \<le> n" and "Some (read_usb_body L n x) = Some (Inr y)"
    then show "case y of (d, t) \<Rightarrow> win_moved hist s d t \<and> length d \<le> n"
      using read_usb_body_moved [of s "fst x" "snd x" n] by (cases x) auto
  next
    fix x y
    assume I: "case x of (d, t) \<Rightarrow> win_moved hist s d t \<and> length d \<le> n" and "Some (read_usb_body L n x) = Some (Inl y)"
    then show "case y of (r, s') \<Rightarrow> \<exists>d. win_moved hist s d s' \<and> length d \<le> n \<and> (r = None \<or> r = Some d)"
      using read_usb_body_moved [of s "fst x" "snd x" n] by (cases x) auto
  qed simp
  then show thesis using that by auto
qed

lemma window_body_moved:
  assumes m: "win_moved hist s d t" and ws: "\<And>rest. windows_stored (d @ rest) = windows_stored (window @ rest)"
    and len: "length window = 4" and body: "window_body L (window, t) = Some res"
  shows "case res of
      Inl (received, raw, s') \<Rightarrow> meta_result hist s received raw s'
    | Inr (w, t') \<Rightarrow> \<exists>d. win_moved hist s d t' \<and> (\<forall>rest. windows_stored (d @ rest) = windows_stored (w @ rest)) \<and> length w = 4"
proof -
  have d0: "windows_stored d = []" using ws [of "[]"] windows_stored_short [of window] len by simp
  obtain go t1 where p: "win_poll t = (go, t1)" by (cases "win_poll t")
  have m1: "win_moved hist s d t1" using m win_poll_moved [OF p] win_moved_trans [of hist s d t "[]" t1] by simp
  have slide: ?thesis
    if "win_moved hist s d' t2" and "\<And>rest. windows_stored (d' @ rest) = windows_stored (tl window @ rest)"
      and rd: "read_exact_usb L 1 t2 = Some (r, t3)"
      and res: "res = (case r of None \<Rightarrow> Inl (-1, [], t3)
        | Some e \<Rightarrow> if length e \<noteq> 1 then Inl (int (length e), [], t3) else Inr (tl window @ e, t3))" for d' t2 r t3
  proof -
    obtain e where e: "win_moved hist t2 e t3" "length e \<le> 1" "r = None \<or> r = Some e" by (rule read_usb_moved [OF rd])
    note m3 = win_moved_trans [OF that(1) e(1)]
    have empty: "windows_stored d' = []" "windows_stored (d' @ e) = []"
      using that(2) [of "[]"] that(2) [of e] windows_stored_short [of "tl window"]
        windows_stored_short [of "tl window @ e"] len e(2) by simp_all
    have grown: "windows_stored ((d' @ e) @ rest) = windows_stored ((tl window @ e) @ rest)" for rest
      using that(2) [of "e @ rest"] by simp
    consider "r = None" | "r = Some e" "length e \<noteq> 1" | "r = Some e" "length e = 1" using e(3) by blast
    then show ?thesis
    proof cases
      case 1
      then show ?thesis using meta_result_end [OF m3 empty(1)] by (simp add: res)
    next
      case 2
      then show ?thesis using meta_result_end [of hist s "d' @ e" "[]" t3] m3 empty(2) e(2) by (simp add: res)
    next
      case 3
      then show ?thesis using m3 grown len by (auto simp: res)
    qed
  qed
  show ?thesis
  proof (cases go)
    case False
    then show ?thesis using body p m1 d0 by (auto simp: window_body_def meta_result_def SNIFFER_META_SIZE_def intro!: exI [of _ d])
  next
    case go: True
    show ?thesis
    proof (cases "window = magic_bytes")
      case False
      obtain r t3 where rd: "read_exact_usb L 1 t1 = Some (r, t3)"
        using body p go False by (auto simp: window_body_def split: bind_splits)
      show ?thesis
        using body p go False rd windows_stored_slide [OF len False] ws
        by (intro slide [OF m1 _ rd]) (auto simp: window_body_def)
    next
      case win: True
      obtain r t2 where rd: "read_exact_usb L 14 t1 = Some (r, t2)"
        using body p go win by (auto simp: window_body_def SNIFFER_META_SIZE_def split: bind_splits)
      obtain e where e: "win_moved hist t1 e t2" "length e \<le> 14" "r = None \<or> r = Some e" by (rule read_usb_moved [OF rd])
      note m2 = win_moved_trans [OF m1 e(1)]
      have raw: "magic_matches (window @ e)" by (simp add: win magic_matches_def magic_bytes_def)
      have wse: "windows_stored (d @ e @ rest) = windows_stored (window @ e @ rest)" for rest using ws by simp
      consider "r = None" | "r = Some e" "length e \<noteq> 14"
        | "r = Some e" "length e = 14" "record_payload_length (window @ e) \<le> MAX_MESSAGE_SIZE"
        | "r = Some e" "length e = 14" "MAX_MESSAGE_SIZE < record_payload_length (window @ e)"
        using e(3) by force
      then show ?thesis
      proof cases
        case 1
        then show ?thesis using body p go win rd meta_result_end [OF m2 d0, of "-1" "[]"]
          by (auto simp: window_body_def SNIFFER_META_SIZE_def)
      next
        case 2
        have "windows_stored (d @ e) = []"
          using wse [of "[]"] windows_stored_short [of "window @ e"] len e(2) 2 by simp
        then show ?thesis using body p go win rd m2 2 e(2)
          by (auto simp: window_body_def meta_result_def SNIFFER_META_SIZE_def intro!: exI [of _ "d @ e"])
      next
        case 3
        then show ?thesis using body p go win rd m2 raw wse len
          by (auto simp: window_body_def meta_result_def SNIFFER_META_SIZE_def record_payload_length_def
              intro!: exI [of _ "d @ e"])
      next
        case 4
        have "windows_stored ((d @ e) @ rest) = windows_stored (tl window @ rest)" for rest
          using wse [of rest] windows_stored_rejected [OF raw _ 4(3), of rest] len 4(2) windows_stored_tl_magic [of rest]
          by (simp add: win)
        moreover obtain r3 t3 where "read_exact_usb L 1 t2 = Some (r3, t3)"
          using body p go win rd 4 by (auto simp: window_body_def SNIFFER_META_SIZE_def record_payload_length_def split: bind_splits)
        ultimately show ?thesis
          using body p go win rd 4
          by (intro slide [OF m2]) (auto simp: window_body_def SNIFFER_META_SIZE_def record_payload_length_def)
      qed
    qed
  qed
qed

lemma win_next_meta_moved:
  assumes "win_next_meta L s = Some (received, raw, s')"
  shows "meta_result hist s received raw s'"
proof -
  obtain r t where rd: "read_exact_usb L 4 s = Some (r, t)"
    using assms by (auto simp: win_next_meta_def split: bind_splits)
  obtain d where d: "win_moved hist s d t" "length d \<le> 4" "r = None \<or> r = Some d" by (rule read_usb_moved [OF rd])
  have short: "windows_stored d = []" "windows_stored [] = []" using d(2) by (simp_all add: windows_stored_short)
  show ?thesis
  proof (cases "r = Some d \<and> length d = 4")
    case False
    then consider "r = None" "received = -1" "s' = t" | "r = Some d" "received = int (length d)" "length d \<noteq> 4" "s' = t"
      using assms rd d(3) by (auto simp: win_next_meta_def)
    then show ?thesis
      using meta_result_end [of hist s "[]" d] meta_result_end [of hist s d "[]"] d(1,2) short by cases simp_all
  next
    case True
    then have loop: "c_loop (window_body L) (d, t) = Some (received, raw, s')"
      using assms rd by (simp add: win_next_meta_def)
    have "case (received, raw, s') of (received, raw, s') \<Rightarrow> meta_result hist s received raw s'"
      using loop
    proof (rule c_loop_partial [where I = "\<lambda>(w, t). \<exists>d. win_moved hist s d t \<and>
          (\<forall>rest. windows_stored (d @ rest) = windows_stored (w @ rest)) \<and> length w = 4"])
      show "case (d, t) of (w, t) \<Rightarrow> \<exists>d. win_moved hist s d t \<and>
          (\<forall>rest. windows_stored (d @ rest) = windows_stored (w @ rest)) \<and> length w = 4"
        using d(1) True by auto
    qed (use window_body_moved in \<open>fastforce+\<close>)
    then show ?thesis by simp
  qed
qed

text \<open>The payload: what was read of it is written, and the bytes of a failed read are lost.\<close>

lemma payload_body_moved:
  assumes inv: "payload_inv hist s N p [] t" and body: "payload_body L (N - length p, t) = Some res"
  shows "case res of
      Inl (r, s') \<Rightarrow> payload_end hist s N r s'
    | Inr (rm, t') \<Rightarrow> \<exists>p. payload_inv hist s N p [] t' \<and> rm = N - length p"
proof -
  let ?c = "if MAX_TRANSFER_SIZE < N - length p then MAX_TRANSFER_SIZE else N - length p"
  obtain go t1 where q: "win_poll t = (go, t1)" by (cases "win_poll t")
  have i1: "payload_inv hist s N p [] t1" by (rule payload_inv_poll [OF inv q])
  show ?thesis
  proof (cases "go \<and> 0 < N - length p")
    case False
    then have "res = Inl (None, t1)" using body q by (auto simp: payload_body_def)
    moreover have "length p = N \<or> wn_running t1 = Some 0" using False i1 win_poll_moved [OF q] by (auto simp: payload_inv_def)
    ultimately show ?thesis using i1 by (auto simp: payload_end_def)
  next
    case more: True
    then obtain r t2 where rd: "read_exact_usb L ?c t1 = Some (r, t2)"
      using body q by (auto simp: payload_body_def Let_def split: bind_splits)
    obtain d where d: "win_moved hist t1 d t2" "length d \<le> ?c" "r = None \<or> r = Some d" by (rule read_usb_moved [OF rd])
    have i2: "payload_inv hist s N p d t2"
      using i1 d(1) by (auto simp: payload_inv_def win_moved_def intro: us_silent_trans)
    let ?t = "if d = [] then t2 else t2\<lparr>wn_file := (wn_file t2)\<lparr>fl_data := fl_data (wn_file t2) @ d\<rparr>\<rparr>"
    have w: "(if 0 < length d then write_binary d t2 else (0, t2)) = (0, ?t)"
      using i2 by (simp add: write_binary_accepts payload_inv_def)
    have i3: "payload_inv hist s N (p @ d) [] ?t"
      using i2 d(2) more by (auto simp: payload_inv_def split: if_splits)
    obtain go2 t3 where q2: "win_poll ?t = (go2, t3)" by (cases "win_poll ?t")
    have i4: "payload_inv hist s N (p @ d) [] t3" "\<not> go2 \<longrightarrow> wn_running t3 = Some 0"
      using payload_inv_poll [OF i3 q2] win_poll_moved [OF q2] by simp_all
    show ?thesis
    proof (cases "r = None")
      case True
      then have "res = Inl (Some (-1), t2)" using body q rd more by (auto simp: payload_body_def Let_def)
      then show ?thesis using i2 by (auto simp: payload_end_def)
    next
      case False
      then have r: "r = Some d" using d(3) by blast
      note b = body [unfolded payload_body_def prod.case q, unfolded Let_def rd, unfolded r, simplified more w, simplified]
      show ?thesis
      proof (cases "length d = ?c")
        case True
        then have "res = Inr (N - length p - length d, ?t)" using b w by (auto split: if_splits)
        then show ?thesis using i3 by auto
      next
        case False
        then have "res = Inl (if \<not> go2 then None else Some (-1), t3)" using b w q2 by (auto split: if_splits)
        then show ?thesis using i4 by (auto simp: payload_end_def)
      qed
    qed
  qed
qed

lemma payload_loop_moved:
  assumes "c_loop (payload_body L) (N, s) = Some (r, s')" "fl_accept (wn_file s) = []"
  shows "payload_end hist s N r s'"
proof -
  have "case (r, s') of (r, s') \<Rightarrow> payload_end hist s N r s'"
    using assms(1)
  proof (rule c_loop_partial [where I = "\<lambda>(rm, t). \<exists>p. payload_inv hist s N p [] t \<and> rm = N - length p"])
    show "case (N, s) of (rm, t) \<Rightarrow> \<exists>p. payload_inv hist s N p [] t \<and> rm = N - length p"
      using assms(2) by (auto simp: payload_inv_def intro!: exI [of _ "[]"])
  qed (use payload_body_moved in \<open>fastforce+\<close>)
  then show ?thesis by simp
qed

text \<open>The outer loop: between two records the file is what the specification says of the stream so far.\<close>

lemma store_body_moved:
  assumes inv: "store_inv hist s u t" and body: "store_body L (packet_count, t) = Some res"
  shows "case res of Inl (r, s') \<Rightarrow> store_end hist s r s' | Inr (_, t') \<Rightarrow> \<exists>u. store_inv hist s u t'"
proof -
  obtain go t1 where q: "win_poll t = (go, t1)" by (cases "win_poll t")
  note m1 = win_poll_moved [OF q, of hist]
  show ?thesis
  proof (cases go)
    case False
    then have "res = Inl (0, t1)" using body q by (simp add: store_body_def)
    then show ?thesis using store_inv_stop [OF inv] m1 by (auto simp: store_end_def win_moved_def intro: us_silent_trans)
  next
    case go: True
    then have "wn_running t \<noteq> Some 0" using q by (auto simp: win_poll_def)
    then obtain out where i: "hist (us_world (wn_usb t)) = hist (us_world (wn_usb s)) @ u" "us_silent (wn_usb s) (wn_usb t)"
      "fl_accept (wn_file t) = []" "fl_data (wn_file t) = fl_data (wn_file s) @ out"
      and out: "\<And>rest. windows_stored (u @ rest) = out @ windows_stored rest"
      using inv by (auto simp: store_inv_def)
    obtain received raw t2 where rd: "win_next_meta L t1 = Some (received, raw, t2)"
      using body q go by (auto simp: store_body_def split: bind_splits)
    obtain used lost where ul: "win_moved hist t (used @ lost) t2"
      and res2: "if received = 18 then lost = [] \<and> length raw = 18 \<and> magic_matches raw \<and>
          record_payload_length raw \<le> MAX_MESSAGE_SIZE \<and>
          (\<forall>rest. windows_stored (used @ rest) = windows_stored (raw @ rest))
        else windows_stored used = [] \<and> (lost \<noteq> [] \<longrightarrow> received < 0)"
      using win_next_meta_moved [OF rd] win_moved_trans [OF conjunct1 [OF m1]]
      unfolding meta_result_def SNIFFER_META_SIZE_def by fastforce
    have m2: "hist (us_world (wn_usb t2)) = hist (us_world (wn_usb s)) @ (u @ used) @ lost" "us_silent (wn_usb s) (wn_usb t2)"
      "wn_file t2 = wn_file t"
      using ul i(1,2) by (auto simp: win_moved_def intro: us_silent_trans)
    show ?thesis
    proof (cases "received = 18")
      case False
      then have e: "windows_stored (u @ used) = out" "lost \<noteq> [] \<longrightarrow> received < 0" using res2 out by simp_all
      obtain go2 t3 where q2: "win_poll t2 = (go2, t3)" by (cases "win_poll t2")
      have "res = (if received < 0 then Inl (-1, t2) else Inl (if \<not> go2 then 0 else -1, t3))"
        using body q go rd False q2 by (auto simp: store_body_def SNIFFER_META_SIZE_def)
      moreover have "store_end hist s (if received < 0 then -1 else if \<not> go2 then 0 else -1) t'" if "t' = t2 \<or> t' = t3" for t'
        using that m2 e i(4) win_poll_moved [OF q2, of hist] unfolding store_end_def
        by (intro exI [of _ "u @ used"] exI [of _ lost]) (auto simp: win_moved_def intro: us_silent_trans)
      ultimately show ?thesis by (auto split: if_splits)
    next
      case True
      then have raw: "lost = []" "length raw = 18" "magic_matches raw" "record_payload_length raw \<le> MAX_MESSAGE_SIZE"
        and wsr: "\<And>rest. windows_stored (u @ used @ rest) = out @ windows_stored (raw @ rest)"
        using res2 out by simp_all
      let ?t = "t2\<lparr>wn_printed := wn_printed t2 @ print_meta (sniffer_decode_meta raw) (ucast (packet_count + 1)),
        wn_file := (wn_file t2)\<lparr>fl_data := fl_data (wn_file t2) @ raw\<rparr>\<rparr>"
      have acc: "fl_accept (wn_file ?t) = []" using m2(3) i(3) by simp
      have magic: "magic (sniffer_decode_meta raw) = SNIFFER_MAGIC" by (rule magic_matches_magic [OF raw(3)])
      obtain r t3 where loop: "c_loop (payload_body L) (record_payload_length raw, ?t) = Some (r, t3)"
        using body q go rd True m2(3) i(3) magic
        by (auto simp: store_body_def SNIFFER_META_SIZE_def write_binary_accepts record_payload_length_def Let_def split: bind_splits)
      have res: "res = (case r of Some r \<Rightarrow> Inl (r, t3) | None \<Rightarrow> Inr (packet_count + 1, win_flush t3))"
        using body q go rd True m2(3) i(3) magic loop
        by (simp add: store_body_def SNIFFER_META_SIZE_def write_binary_accepts record_payload_length_def Let_def)
      obtain p pl where p: "payload_inv hist ?t (record_payload_length raw) p pl t3"
        "r = None \<and> pl = [] \<and> (length p = record_payload_length raw \<or> wn_running t3 = Some 0) \<or> r = Some (-1)"
        using payload_loop_moved [OF loop acc] by (auto simp: payload_end_def)
      have m3: "hist (us_world (wn_usb t3)) = hist (us_world (wn_usb s)) @ (u @ used @ p) @ pl"
        "us_silent (wn_usb s) (wn_usb t3)" "fl_accept (wn_file t3) = []"
        "fl_data (wn_file t3) = fl_data (wn_file s) @ out @ raw @ p" "length p \<le> record_payload_length raw"
        using p(1) m2 i(4) raw(1) by (auto simp: payload_inv_def intro: us_silent_trans)
      have nil: "windows_stored [] = []" by (rule windows_stored_short) simp
      have part: "windows_stored (u @ used @ p) = out @ raw @ p"
        using wsr [of p] windows_stored_record [OF raw(3,2,4) m3(5), of "[]"] nil by simp
      have whole: "windows_stored ((u @ used @ p) @ rest) = (out @ raw @ p) @ windows_stored rest"
        if "length p = record_payload_length raw" for rest
        using wsr [of "p @ rest"] windows_stored_record [OF raw(3,2,4) m3(5), of rest] that by simp
      show ?thesis
      proof (cases r)
        case None
        then have "store_inv hist s (u @ used @ p) (win_flush t3)"
          using m3 p(2) part whole unfolding store_inv_def by (auto simp: fflush_data intro!: exI [of _ "out @ raw @ p"])
        then show ?thesis using res None by auto
      next
        case (Some v)
        then have "store_end hist s v t3"
          using m3 p(2) part unfolding store_end_def
          by (intro exI [of _ "u @ used @ p"] exI [of _ pl]) auto
        then show ?thesis using res Some by simp
      qed
    qed
  qed
qed

lemma store_moved:
  assumes "store_sniffer_binary_data L s = Some (r, s')" "fl_accept (wn_file s) = []"
  shows "store_end hist s r s'"
proof -
  have "case (r, s') of (r, s') \<Rightarrow> store_end hist s r s'"
    using assms(1) unfolding store_sniffer_binary_data_def
  proof (rule c_loop_partial [where I = "\<lambda>(_, t). \<exists>u. store_inv hist s u t"])
    show "case (0, s) of (_, t) \<Rightarrow> \<exists>u. store_inv hist s u t"
      using assms(2) by (auto simp: store_inv_def intro!: exI [of _ "[]"])
  qed (use store_body_moved in \<open>fastforce+\<close>)
  then show ?thesis by simp
qed

end

section \<open>A signal ends the program\<close>

text \<open>Every loop reads the flag in each iteration, so it can do so only as often as it is set.\<close>

definition polls_left :: "'w win_state \<Rightarrow> nat \<Rightarrow> bool" where
  "polls_left s k \<longleftrightarrow> (\<exists>j \<le> k. wn_running s = Some j)"




lemma polls_left_frame [simp]:
  "polls_left (s\<lparr>wn_usb := u\<rparr>) k = polls_left s k" "polls_left (s\<lparr>wn_file := f\<rparr>) k = polls_left s k"
  "polls_left (s\<lparr>wn_printed := t\<rparr>) k = polls_left s k"
  by (simp_all add: polls_left_def)






section \<open>The program\<close>


lemma device_cleanup_world [simp]: "us_world (device_cleanup a b c s) = us_world s"
  by (simp add: device_cleanup_def usb_release_def usb_close_def usb_exit_def Let_def)




end
