(* ===== verification/Twoway_Stream.thy ===== *)
theory Twoway_Stream
  imports Downlink Capture_Spec
begin

text \<open>
  The receiving side of \<open>twoway_transport.c\<close>: the acknowledgements are cut out of every USB packet,
  what is left is put together to a stream, and the complete records of the stream are written to
  the log. \<open>keep_running\<close>, here \<open>run\<close>, is the number of times it is still read as set, as in the
  capture core.
\<close>

section \<open>The code\<close>

definition STREAM_BUFFER_SIZE :: nat where "STREAM_BUFFER_SIZE = 8192"

definition sniffer_meta_size :: "sniffer_protocol \<Rightarrow> nat" where
  "sniffer_meta_size P = 4 + sp_meta_rest P"

record RxContext =
  rx_logFile :: out_file
  rx_stream :: bytes \<comment> \<open>its first \<open>streamLen\<close> bytes\<close>
  rx_packetCount :: u64

text \<open>The loop on the packet: \<open>Some i\<close> is the offset, \<open>None\<close> the result \<open>-1\<close>.\<close>

fun find_downlink_ack :: "sniffer_protocol \<Rightarrow> bytes \<Rightarrow> nat option" where
  "find_downlink_ack P [] = None"
| "find_downlink_ack P (b # d) =
     (if length (b # d) < SNIFFER_DOWNLINK_ACK_SIZE then None
      else if take 4 (b # d) = downlink_ack P then Some 0
      else map_option Suc (find_downlink_ack P d))"

definition consume_stream :: "nat \<Rightarrow> RxContext \<Rightarrow> RxContext" where
  "consume_stream count rx =
     (if length (rx_stream rx) \<le> count then rx\<lparr>rx_stream := []\<rparr>
      else rx\<lparr>rx_stream := drop count (rx_stream rx)\<rparr>)"

function parse_sniffer_stream :: "sniffer_protocol \<Rightarrow> nat option \<Rightarrow> RxContext \<Rightarrow> nat option \<times> RxContext" where
  "parse_sniffer_stream P run rx =
     (case is_running run of (go, run) \<Rightarrow>
        if \<not> go then (run, rx)
        else if length (rx_stream rx) < 4 then (run, rx)
        else if take 4 (rx_stream rx) \<noteq> magic_bytes then parse_sniffer_stream P run (consume_stream 1 rx)
        else if length (rx_stream rx) < sniffer_meta_size P then (run, rx)
        else let msgLength = unat (sp_msgLength P (take (sniffer_meta_size P) (rx_stream rx)))
          in if MAX_MESSAGE_SIZE < msgLength then parse_sniffer_stream P run (consume_stream 1 rx)
             else let frameLength = sniffer_meta_size P + msgLength
               in if length (rx_stream rx) < frameLength then (run, rx)
                  else let rx = rx\<lparr>rx_packetCount := rx_packetCount rx + 1\<rparr>
                    in case fwrite (rx_logFile rx) (take frameLength (rx_stream rx)) of (written, f) \<Rightarrow>
                      if written \<noteq> frameLength then (Some 0, rx\<lparr>rx_logFile := f\<rparr>)
                      else parse_sniffer_stream P run (consume_stream frameLength (rx\<lparr>rx_logFile := snd (fflush f)\<rparr>)))"
  by pat_completeness auto
termination
  by (relation "measure (\<lambda>(P, run, rx). length (rx_stream rx))")
     (auto simp: consume_stream_def sniffer_meta_size_def)

declare parse_sniffer_stream.simps [simp del]

definition append_sniffer_bytes ::
    "sniffer_protocol \<Rightarrow> bytes \<Rightarrow> nat option \<Rightarrow> RxContext \<Rightarrow> nat option \<times> RxContext" where
  "append_sniffer_bytes P data run rx =
     (if data = [] then (run, rx)
      else
        let rx = (if STREAM_BUFFER_SIZE < length (rx_stream rx) + length data then rx\<lparr>rx_stream := []\<rparr> else rx);
            data = (if STREAM_BUFFER_SIZE < length data then drop (length data - STREAM_BUFFER_SIZE) data else data)
        in parse_sniffer_stream P run (rx\<lparr>rx_stream := rx_stream rx @ data\<rparr>))"

text \<open>
  One round of the loop of \<open>dispatch_usb_in_packet\<close> on the bytes from \<open>offset\<close> on: whether there was
  an acknowledgement, and the bytes after it.
\<close>

definition dispatch_round ::
    "sniffer_protocol \<Rightarrow> bytes \<Rightarrow> nat option \<Rightarrow> RxContext \<Rightarrow> bool \<times> bytes \<times> nat option \<times> RxContext" where
  "dispatch_round P data run rx =
     (case find_downlink_ack P data of
        None \<Rightarrow> (case append_sniffer_bytes P data run rx of (run, rx) \<Rightarrow> (False, [], run, rx))
      | Some ackOffset \<Rightarrow>
          (case (if 0 < ackOffset then append_sniffer_bytes P (take ackOffset data) run rx else (run, rx)) of
             (run, rx) \<Rightarrow> (True, drop (ackOffset + SNIFFER_DOWNLINK_ACK_SIZE) data, run, rx)))"

section \<open>The records of a stream\<close>

text \<open>
  The specification: the records of a stream of bytes, and what is left at its end, which may be
  the beginning of another record.
\<close>

definition frame_at :: "sniffer_protocol \<Rightarrow> bytes \<Rightarrow> nat" where
  "frame_at P bs = sniffer_meta_size P + unat (sp_msgLength P (take (sniffer_meta_size P) bs))"

function frames :: "sniffer_protocol \<Rightarrow> bytes \<Rightarrow> bytes list \<times> bytes" where
  "frames P bs =
     (if length bs < 4 then ([], bs)
      else if take 4 bs \<noteq> magic_bytes then frames P (tl bs)
      else if length bs < sniffer_meta_size P then ([], bs)
      else if sniffer_meta_size P + MAX_MESSAGE_SIZE < frame_at P bs then frames P (tl bs)
      else if length bs < frame_at P bs then ([], bs)
      else (case frames P (drop (frame_at P bs) bs) of (fs, rest) \<Rightarrow> (take (frame_at P bs) bs # fs, rest)))"
  by pat_completeness auto
termination
  by (relation "measure (\<lambda>(P, bs). length bs)") (auto simp: frame_at_def sniffer_meta_size_def)

declare frames.simps [simp del]

lemma frame_at_append: "sniffer_meta_size P \<le> length bs \<Longrightarrow> frame_at P (bs @ ys) = frame_at P bs"
  by (simp add: frame_at_def)

lemma frame_at_pos: "0 < frame_at P bs" "sniffer_meta_size P \<le> frame_at P bs"
  by (simp_all add: frame_at_def sniffer_meta_size_def)

text \<open>The three ways the beginning of a stream can be, which more bytes at its end do not change but for the first.\<close>

lemma frames_cases:
  obtains (stop) "frames P bs = ([], bs)" "length bs < sniffer_meta_size P + MAX_MESSAGE_SIZE + 1"
  | (skip) "bs \<noteq> []" "\<And>ys. frames P (bs @ ys) = frames P (tl bs @ ys)"
  | (frame) k where "0 < k" "k \<le> length bs" "k = frame_at P bs"
      "\<And>ys. frames P (bs @ ys) = (case frames P (drop k bs @ ys) of (fs, rest) \<Rightarrow> (take k bs # fs, rest))"
proof -
  let ?n = "sniffer_meta_size P" and ?k = "frame_at P bs"
  have n: "4 \<le> ?n" by (simp add: sniffer_meta_size_def)
  consider (a) "length bs < 4" | (b) "4 \<le> length bs" "take 4 bs \<noteq> magic_bytes"
    | (c) "4 \<le> length bs" "take 4 bs = magic_bytes" "length bs < ?n"
    | (d) "take 4 bs = magic_bytes" "?n \<le> length bs" "?n + MAX_MESSAGE_SIZE < ?k"
    | (e) "take 4 bs = magic_bytes" "?n \<le> length bs" "?k \<le> ?n + MAX_MESSAGE_SIZE" "length bs < ?k"
    | (f) "take 4 bs = magic_bytes" "?n \<le> length bs" "?k \<le> ?n + MAX_MESSAGE_SIZE" "?k \<le> length bs"
    by linarith
  then show thesis
  proof cases
    case a
    then show thesis using n by (intro stop) (simp_all add: frames.simps)
  next
    case b
    then have ne: "bs \<noteq> []" by auto
    have "frames P (bs @ ys) = frames P (tl bs @ ys)" for ys
      using b ne by (subst frames.simps) (simp add: tl_append2)
    then show thesis using ne by (rule skip [rotated])
  next
    case c
    then show thesis by (intro stop) (simp_all add: frames.simps)
  next
    case d
    have ne: "bs \<noteq> []" using d(2) n by (cases bs) simp_all
    have "frames P (bs @ ys) = frames P (tl bs @ ys)" for ys
      using d n ne by (subst frames.simps) (simp add: frame_at_append tl_append2)
    then show thesis using ne by (rule skip [rotated])
  next
    case e
    then show thesis using n by (intro stop) (simp_all add: frames.simps)
  next
    case f
    then have "frames P (bs @ ys) = (case frames P (drop ?k bs @ ys) of (fs, rest) \<Rightarrow> (take ?k bs # fs, rest))" for ys
      using n by (subst frames.simps) (simp add: frame_at_append)
    then show thesis using f frame_at_pos by (intro frame [of ?k]) auto
  qed
qed

text \<open>The records of a stream that arrives in two parts.\<close>

lemma frames_append:
  "frames P (bs @ ys) = (case frames P bs of (fs, rest) \<Rightarrow> case frames P (rest @ ys) of (gs, rest) \<Rightarrow> (fs @ gs, rest))"
proof (induction "length bs" arbitrary: bs rule: less_induct)
  case less
  show ?case
  proof (cases rule: frames_cases [of P bs])
    case stop
    then show ?thesis by (simp split: prod.split)
  next
    case skip
    then have "length (tl bs) < length bs" by simp
    from less [OF this] skip(2) [of ys] skip(2) [of "[]"] show ?thesis by simp
  next
    case (frame k)
    then have "length (drop k bs) < length bs" by simp
    from less [OF this] frame(4) [of ys] frame(4) [of "[]"] show ?thesis by (simp split: prod.split)
  qed
qed

text \<open>What is left over is shorter than a record and has none.\<close>

lemma frames_rest:
  assumes "frames P bs = (fs, rest)"
  shows "frames P rest = ([], rest)" "length rest < sniffer_meta_size P + MAX_MESSAGE_SIZE + 1"
proof -
  have "frames P (snd (frames P bs)) = ([], snd (frames P bs)) \<and>
    length (snd (frames P bs)) < sniffer_meta_size P + MAX_MESSAGE_SIZE + 1" for bs
  proof (induction "length bs" arbitrary: bs rule: less_induct)
    case less
    show ?case
    proof (cases rule: frames_cases [of P bs])
      case stop
      then show ?thesis by simp
    next
      case skip
      then have "length (tl bs) < length bs" by simp
      from less [OF this] skip(2) [of "[]"] show ?thesis by simp
    next
      case (frame k)
      then have "length (drop k bs) < length bs" by simp
      from less [OF this] frame(4) [of "[]"] show ?thesis by (simp split: prod.splits)
    qed
  qed
  from this [of bs] assms show "frames P rest = ([], rest)" "length rest < sniffer_meta_size P + MAX_MESSAGE_SIZE + 1"
    by simp_all
qed

section \<open>The parser computes the records\<close>

text \<open>A log file that accepts everything, and a run that no signal stops.\<close>

lemma consume_stream_tl: "rx_stream rx \<noteq> [] \<Longrightarrow> consume_stream (Suc 0) rx = rx\<lparr>rx_stream := tl (rx_stream rx)\<rparr>"
  by (cases "rx_stream rx") (auto simp: consume_stream_def)

lemma consume_stream_drop: "consume_stream k rx = rx\<lparr>rx_stream := drop k (rx_stream rx)\<rparr>"
  by (simp add: consume_stream_def)

lemma fflush_keeps: "fl_data (snd (fflush f)) = fl_data f" "fl_accept (snd (fflush f)) = fl_accept f"
  by (simp_all add: fflush_def split: list.split)

text \<open>From \<open>rx\<close> to \<open>rx'\<close> the records \<open>fs\<close> were logged and \<open>rest\<close> is what the buffer holds.\<close>

definition rx_logged :: "RxContext \<Rightarrow> bytes list \<Rightarrow> bytes \<Rightarrow> RxContext \<Rightarrow> bool" where
  "rx_logged rx fs rest rx' \<longleftrightarrow>
     fl_data (rx_logFile rx') = fl_data (rx_logFile rx) @ concat fs \<and> fl_accept (rx_logFile rx') = [] \<and>
     rx_packetCount rx' = rx_packetCount rx + of_nat (length fs) \<and> rx_stream rx' = rest"

definition rx_result :: "RxContext \<Rightarrow> bytes list \<Rightarrow> bytes \<Rightarrow> nat option \<times> RxContext \<Rightarrow> bool" where
  "rx_result rx fs rest = (\<lambda>(run', rx'). fl_accept (rx_logFile rx') = [] \<and>
     (\<exists>j. fl_data (rx_logFile rx') = fl_data (rx_logFile rx) @ concat (take j fs)) \<and>
     (run' = Some 0 \<or> rx_logged rx fs rest rx'))"

lemma rx_result_logged: "rx_logged rx fs rest rx' \<Longrightarrow> rx_result rx fs rest (run', rx')"
  by (auto simp: rx_result_def rx_logged_def intro: exI [of _ "length fs"])

lemma rx_result_cons:
  assumes "rx_result rx1 gs rest y" "fl_data (rx_logFile rx1) = fl_data (rx_logFile rx) @ h"
    and "rx_packetCount rx1 = rx_packetCount rx + 1"
  shows "rx_result rx (h # gs) rest y"
proof -
  obtain run' rx' where y: "y = (run', rx')" by (cases y)
  obtain j where "fl_data (rx_logFile rx') = fl_data (rx_logFile rx1) @ concat (take j gs)"
    using assms(1) by (auto simp: rx_result_def y)
  then have "fl_data (rx_logFile rx') = fl_data (rx_logFile rx) @ concat (take (Suc j) (h # gs))" using assms(2) by simp
  then have "\<exists>j. fl_data (rx_logFile rx') = fl_data (rx_logFile rx) @ concat (take j (h # gs))" by blast
  moreover have "fl_accept (rx_logFile rx') = []" "run' = Some 0 \<or> rx_logged rx1 gs rest rx'"
    using assms(1) by (simp_all add: rx_result_def y)
  ultimately show ?thesis using assms(2,3) unfolding rx_result_def y by (auto simp: rx_logged_def)
qed

lemma parse_stream_frames:
  assumes "fl_accept (rx_logFile rx) = []" "frames P (rx_stream rx) = (fs, rest)"
  shows "rx_result rx fs rest (parse_sniffer_stream P run rx)"
proof -
  have "rx_result rx fs rest (parse_sniffer_stream P run rx)"
    if "fl_accept (rx_logFile rx) = []" "frames P (rx_stream rx) = (fs, rest)" for fs rest
    using that
  proof (induction P run rx arbitrary: fs rest rule: parse_sniffer_stream.induct)
    case (1 P run rx)
    let ?b = "rx_stream rx" and ?n = "sniffer_meta_size P" and ?k = "frame_at P (rx_stream rx)"
    have n: "4 \<le> ?n" by (simp add: sniffer_meta_size_def)
    have bad: "MAX_MESSAGE_SIZE < unat (sp_msgLength P (take ?n ?b)) \<longleftrightarrow> ?n + MAX_MESSAGE_SIZE < ?k"
      by (simp add: frame_at_def)
    obtain go run' where p: "is_running run = (go, run')" by (cases "is_running run")
    have stopped: "rx_result rx fs rest (run', rx)" if "\<not> go"
      using p that "1.prems"(1) by (cases run rule: is_running.cases) (auto simp: rx_result_def intro: exI [of _ 0])
    note body = parse_sniffer_stream.simps [of P run rx, unfolded p prod.case]
    consider (s) "\<not> go"
      | (a) go "length ?b < 4" | (b) go "4 \<le> length ?b" "take 4 ?b \<noteq> magic_bytes"
      | (c) go "4 \<le> length ?b" "take 4 ?b = magic_bytes" "length ?b < ?n"
      | (d) go "4 \<le> length ?b" "take 4 ?b = magic_bytes" "?n \<le> length ?b" "?n + MAX_MESSAGE_SIZE < ?k"
      | (e) go "4 \<le> length ?b" "take 4 ?b = magic_bytes" "?n \<le> length ?b" "?k \<le> ?n + MAX_MESSAGE_SIZE" "length ?b < ?k"
      | (f) go "4 \<le> length ?b" "take 4 ?b = magic_bytes" "?n \<le> length ?b" "?k \<le> ?n + MAX_MESSAGE_SIZE" "?k \<le> length ?b"
      using n by linarith
    then show ?case
    proof cases
      case s
      then show ?thesis using stopped body by simp
    next
      case a
      then have "frames P ?b = ([], ?b)" by (subst frames.simps) simp
      then show ?thesis using a body "1.prems" by (auto simp: rx_logged_def intro!: rx_result_logged)
    next
      case b
      have ne: "?b \<noteq> []" using b(2) by auto
      have "frames P (rx_stream (consume_stream 1 rx)) = (fs, rest)"
        using b "1.prems"(2) by (simp add: consume_stream_tl [OF ne] frames.simps [of P ?b])
      then have "rx_result (consume_stream 1 rx) fs rest (parse_sniffer_stream P run' (consume_stream 1 rx))"
        using "1.IH"(1) [OF p [symmetric]] b "1.prems"(1) by (simp add: consume_stream_tl [OF ne])
      then show ?thesis using b body by (simp add: rx_result_def rx_logged_def consume_stream_tl [OF ne])
    next
      case c
      then have "frames P ?b = ([], ?b)" by (subst frames.simps) simp
      then show ?thesis using c body "1.prems" by (auto simp: rx_logged_def intro!: rx_result_logged)
    next
      case d
      have ne: "?b \<noteq> []" using d(2) by auto
      have "frames P (rx_stream (consume_stream 1 rx)) = (fs, rest)"
        using d "1.prems"(2) by (simp add: consume_stream_tl [OF ne] frames.simps [of P ?b])
      then have "rx_result (consume_stream 1 rx) fs rest (parse_sniffer_stream P run' (consume_stream 1 rx))"
        using "1.IH"(2) [OF p [symmetric]] d bad "1.prems"(1) by (simp add: consume_stream_tl [OF ne])
      then show ?thesis using d bad body by (simp add: rx_result_def rx_logged_def consume_stream_tl [OF ne])
    next
      case e
      then have "frames P ?b = ([], ?b)" by (subst frames.simps) simp
      moreover have "parse_sniffer_stream P run rx = (run', rx)"
        using e bad body by (simp add: Let_def frame_at_def)
      ultimately show ?thesis using "1.prems" by (auto simp: rx_logged_def intro!: rx_result_logged)
    next
      case f
      let ?f = "snd (fwrite (rx_logFile rx) (take ?k ?b))"
      let ?rx = "rx\<lparr>rx_packetCount := rx_packetCount rx + 1, rx_logFile := snd (fflush ?f)\<rparr>"
      have w: "fwrite (rx_logFile rx) (take ?k ?b) = (?k, (rx_logFile rx)\<lparr>fl_data := fl_data (rx_logFile rx) @ take ?k ?b\<rparr>)"
        using f(6) "1.prems"(1) by (simp add: fwrite_def)
      have w': "(?k, ?f) = fwrite (rx_logFile (rx\<lparr>rx_packetCount := rx_packetCount rx + 1\<rparr>))
          (take ?k (rx_stream (rx\<lparr>rx_packetCount := rx_packetCount rx + 1\<rparr>)))"
        using w by simp
      have k: "?n + unat (sp_msgLength P (take ?n ?b)) = ?k" by (simp add: frame_at_def)
      have nb: "\<not> MAX_MESSAGE_SIZE < unat (sp_msgLength P (take ?n ?b))" using bad f(5) by simp
      have step: "parse_sniffer_stream P run rx = parse_sniffer_stream P run' (consume_stream ?k ?rx)"
        using f bad w body by (simp add: Let_def k)
      obtain gs where gs: "frames P (drop ?k ?b) = (gs, rest)" "fs = take ?k ?b # gs"
        using f "1.prems"(2) by (subst (asm) frames.simps) (simp split: prod.splits)
      have "rx_result (consume_stream ?k ?rx) gs rest (parse_sniffer_stream P run' (consume_stream ?k ?rx))"
        using "1.IH"(3) [OF p [symmetric] _ _ _ _ refl nb k [symmetric] _ refl w' _, of gs rest] f "1.prems"(1) gs(1) w
        by (simp add: consume_stream_drop fflush_keeps)
      then show ?thesis unfolding step gs(2)
        by (rule rx_result_cons) (simp_all add: w consume_stream_drop fflush_keeps)
    qed
  qed
  then show ?thesis using assms by blast
qed

section \<open>Packets\<close>

text \<open>What appending bytes does, as long as they fit into the buffer.\<close>

lemma append_bytes_frames:
  assumes "fl_accept (rx_logFile rx) = []" "length (rx_stream rx) + length d \<le> STREAM_BUFFER_SIZE"
    and "frames P (rx_stream rx) = ([], rx_stream rx)" "frames P (rx_stream rx @ d) = (fs, rest)"
  shows "rx_result rx fs rest (append_sniffer_bytes P d run rx)"
proof (cases "d = []")
  case True
  then show ?thesis using assms by (auto simp: append_sniffer_bytes_def rx_logged_def intro!: rx_result_logged)
next
  case False
  have "rx_result (rx\<lparr>rx_stream := rx_stream rx @ d\<rparr>) fs rest
      (parse_sniffer_stream P run (rx\<lparr>rx_stream := rx_stream rx @ d\<rparr>))"
    using assms by (intro parse_stream_frames) simp_all
  then show ?thesis using assms(2) False by (simp add: append_sniffer_bytes_def Let_def rx_result_def rx_logged_def)
qed

text \<open>A packet without its acknowledgements.\<close>

function strip_acks :: "sniffer_protocol \<Rightarrow> bytes \<Rightarrow> bytes" where
  "strip_acks P d =
     (case find_downlink_ack P d of
        None \<Rightarrow> d
      | Some k \<Rightarrow> take k d @ strip_acks P (drop (k + SNIFFER_DOWNLINK_ACK_SIZE) d))"
  by pat_completeness auto
termination
proof (relation "measure (\<lambda>(P, d). length d)", simp)
  fix P d k assume "find_downlink_ack P d = Some k"
  then have "d \<noteq> []" by auto
  then show "((P, drop (k + SNIFFER_DOWNLINK_ACK_SIZE) d), P, d) \<in> measure (\<lambda>(P, d). length d)"
    by (simp add: SNIFFER_DOWNLINK_ACK_SIZE_def)
qed

declare strip_acks.simps [simp del]

lemma find_downlink_ack_found:
  "find_downlink_ack P d = Some k \<Longrightarrow> take 4 (drop k d) = downlink_ack P \<and> k + 4 \<le> length d"
  by (induction P d arbitrary: k rule: find_downlink_ack.induct)
     (auto simp: SNIFFER_DOWNLINK_ACK_SIZE_def split: if_splits)

lemma strip_acks_none: "find_downlink_ack P d = None \<Longrightarrow> strip_acks P d = d"
  by (simp add: strip_acks.simps)

lemma length_strip_acks: "length (strip_acks P d) \<le> length d"
proof (induction P d rule: strip_acks.induct)
  case (1 P d)
  show ?case
  proof (cases "find_downlink_ack P d")
    case (Some k)
    then show ?thesis using "1.IH" [OF Some] conjunct2 [OF find_downlink_ack_found [OF Some]]
      by (subst strip_acks.simps) (simp add: SNIFFER_DOWNLINK_ACK_SIZE_def)
  qed (simp add: strip_acks_none)
qed

text \<open>A round of the dispatch hands on the bytes before the acknowledgement.\<close>

lemma dispatch_round_frames:
  assumes "fl_accept (rx_logFile rx) = []" "length (rx_stream rx) + length d \<le> STREAM_BUFFER_SIZE"
    and "frames P (rx_stream rx) = ([], rx_stream rx)" and "dispatch_round P d run rx = (ack, d', run', rx')"
  obtains e fs rest where "strip_acks P d = e @ strip_acks P d'" "frames P (rx_stream rx @ e) = (fs, rest)"
    "rx_result rx fs rest (run', rx')" "length d' \<le> length d" "d \<noteq> [] \<Longrightarrow> length d' < length d"
    "ack \<Longrightarrow> (\<exists>k. take 4 (drop k d) = downlink_ack P \<and> d' = drop (k + 4) d)"
proof (cases "find_downlink_ack P d")
  case None
  obtain fs rest where f: "frames P (rx_stream rx @ d) = (fs, rest)" by fastforce
  have "append_sniffer_bytes P d run rx = (run', rx')" "d' = []" "\<not> ack"
    using assms(4) None by (auto simp: dispatch_round_def split: prod.splits)
  moreover have "rx_result rx fs rest (append_sniffer_bytes P d run rx)"
    by (rule append_bytes_frames [OF assms(1-3) f])
  moreover have "strip_acks P [] = []" by (simp add: strip_acks_none)
  ultimately show thesis using f None by (intro that [of d fs rest]) (simp_all add: strip_acks_none)
next
  case (Some k)
  note found = find_downlink_ack_found [OF Some]
  obtain fs rest where f: "frames P (rx_stream rx @ take k d) = (fs, rest)" by fastforce
  have d': "d' = drop (k + 4) d" and ack
    using assms(4) Some by (auto simp: dispatch_round_def SNIFFER_DOWNLINK_ACK_SIZE_def split: prod.splits)
  have "rx_result rx fs rest (append_sniffer_bytes P (take k d) run rx)"
    using assms(2) by (intro append_bytes_frames [OF assms(1) _ assms(3) f]) simp
  moreover have "append_sniffer_bytes P (take k d) run rx = (run', rx')"
    using assms(4) Some by (auto simp: dispatch_round_def append_sniffer_bytes_def split: if_splits prod.splits)
  moreover have "strip_acks P d = take k d @ strip_acks P d'"
    using Some d' by (subst strip_acks.simps) (simp add: SNIFFER_DOWNLINK_ACK_SIZE_def)
  ultimately show thesis using f found d' by (intro that [of "take k d" fs rest]) auto
qed

end
