(* ===== verification/Twoway_Transport.thy ===== *)
theory Twoway_Transport
  imports Twoway_Stream
begin

text \<open>
  \<open>twoway_transport.c\<close>: a thread receives what the device sends while the main thread reads
  commands and sends messages. They share the device, the signal flag \<open>keep_running\<close> and, under a
  mutex with a condition, \<open>ackReceived\<close>. The whole is a step relation whose steps are the accesses to
  what is shared, with the events that the properties are about; the terminal is left out.
\<close>

section \<open>The functions shared with other programs\<close>

text \<open>
  Functions that this file has beside those of \<open>pc_to_uwb.c\<close> and \<open>ground_control_windows.c\<close>, and that
  do the same.
\<close>

definition tw_is_downlink_ack :: "sniffer_protocol \<Rightarrow> bytes \<Rightarrow> bool" where
  "tw_is_downlink_ack P data \<longleftrightarrow>
     length data = SNIFFER_DOWNLINK_ACK_SIZE \<and>
     data ! 0 = sp_ack0 P \<and> data ! 1 = sp_ack1 P \<and> data ! 2 = sp_ack2 P \<and> data ! 3 = sp_ack3 P"

definition tw_open_matching_device :: "'w libusb \<Rightarrow> 'w usb \<Rightarrow> bool \<times> 'w usb" where
  "tw_open_matching_device L s =
     (case usb_device_list L s of
        (None, s) \<Rightarrow> (False, s)
      | (Some devices, s) \<Rightarrow>
          (case dropWhile (\<lambda>d. dev_ids d \<noteq> Some (VENDOR_ID, PRODUCT_ID)) devices of
             [] \<Rightarrow> (False, usb_free_list s)
           | d # _ \<Rightarrow> (case usb_open L d s of (response, s) \<Rightarrow> (response = LIBUSB_SUCCESS, usb_free_list s))))"

definition tw_parse_u16 :: "string \<Rightarrow> u16 option" where
  "tw_parse_u16 text =
     (case strtoul0 text of (parsed, err, rest) \<Rightarrow>
        if err \<or> rest = text \<or> rest \<noteq> [] \<or> 65535 < parsed then None else Some (of_nat parsed))"

definition tw_hex_value :: "char \<Rightarrow> int" where
  "tw_hex_value ch =
     (if ascii ch \<in> {48..57} then int (ascii ch) - 48
      else if ascii ch \<in> {97..102} then int (ascii ch) - 97 + 10
      else if ascii ch \<in> {65..70} then int (ascii ch) - 65 + 10
      else -1)"

fun tw_payload_scan :: "nat \<Rightarrow> string \<Rightarrow> int \<Rightarrow> bytes \<Rightarrow> bytes option" where
  "tw_payload_scan limit [] highNibble payload = (if 0 \<le> highNibble then None else Some payload)"
| "tw_payload_scan limit (c # p) highNibble payload =
     (if c \<in> {CHR '' '', CHR '':'', CHR ''-'', CHR '',''} then tw_payload_scan limit p highNibble payload
      else let value = tw_hex_value c
        in if value < 0 then None
           else if highNibble < 0 then tw_payload_scan limit p value payload
           else if limit \<le> length payload then None
           else tw_payload_scan limit p (-1) (payload @ [push_bit 4 (word_of_int highNibble) OR word_of_int value]))"

definition tw_parse_hex_payload :: "sniffer_protocol \<Rightarrow> string \<Rightarrow> bytes option" where
  "tw_parse_hex_payload P text = tw_payload_scan (sp_payload_max P) text (-1) []"

lemma find_dropWhile: "find Q xs = (case dropWhile (\<lambda>x. \<not> Q x) xs of [] \<Rightarrow> None | x # _ \<Rightarrow> Some x)"
  by (induction xs) auto

lemma tw_open_matching_device_eq [simp]: "tw_open_matching_device = open_matching_device"
  unfolding tw_open_matching_device_def open_matching_device_def find_dropWhile
  by (intro ext) (simp add: Let_def del: dropWhile_eq_Nil_conv split: prod.split option.split list.split)

lemma tw_parse_u16_eq [simp]: "tw_parse_u16 = parse_u16"
  by (intro ext) (simp add: tw_parse_u16_def parse_u16_def)

lemma tw_hex_value_eq [simp]: "tw_hex_value = dl_hex_value"
  by (intro ext) (simp add: tw_hex_value_def dl_hex_value_def)

lemma tw_payload_scan_eq: "tw_payload_scan limit cs highNibble payload = payload_scan limit cs payload highNibble"
  by (induction limit cs highNibble payload rule: tw_payload_scan.induct)
     (simp_all add: Let_def)

lemma tw_parse_hex_payload_eq [simp]: "tw_parse_hex_payload = parse_hex_payload"
  by (intro ext) (simp add: tw_parse_hex_payload_def parse_hex_payload_def tw_payload_scan_eq)

text \<open>\<open>find_downlink_ack\<close>, which the program uses, finds such a packet at its first byte.\<close>

lemma tw_is_downlink_ack_found:
  "tw_is_downlink_ack P data \<longleftrightarrow> length data = SNIFFER_DOWNLINK_ACK_SIZE \<and> find_downlink_ack P data = Some 0"
  by (cases data; cases "tl data"; cases "tl (tl data)"; cases "tl (tl (tl data))")
     (auto simp: tw_is_downlink_ack_def SNIFFER_DOWNLINK_ACK_SIZE_def downlink_ack_def)

section \<open>Commands\<close>

text \<open>The result is the message that is sent, if any, and the next sequence number.\<close>

type_synonym message = "u16 \<times> u16 \<times> bytes"

definition send_from_tokens ::
    "sniffer_protocol \<Rightarrow> string \<Rightarrow> string \<Rightarrow> string option \<Rightarrow> u16 \<Rightarrow> message option \<times> u16" where
  "send_from_tokens P destText payloadText seqText nextSeq =
     (case tw_parse_u16 destText of
        None \<Rightarrow> (None, nextSeq)
      | Some destAddress \<Rightarrow>
          (case tw_parse_hex_payload P payloadText of
             None \<Rightarrow> (None, nextSeq)
           | Some payload \<Rightarrow>
               (case seqText of
                  Some t \<Rightarrow>
                    (case tw_parse_u16 t of
                       None \<Rightarrow> (None, nextSeq)
                     | Some seqNumber \<Rightarrow> (Some (destAddress, seqNumber, payload), seqNumber + 1))
                | None \<Rightarrow> (Some (destAddress, nextSeq, payload), nextSeq + 1))))"

text \<open>The tokens of a line between blanks and tabs.\<close>

definition tok_delim :: "char \<Rightarrow> bool" where
  "tok_delim c \<longleftrightarrow> c = CHR '' '' \<or> c = CHR 0x09"

function tokens :: "string \<Rightarrow> string list" where
  "tokens line =
     (let start = dropWhile tok_delim line
      in if start = [] then [] else takeWhile (\<lambda>c. \<not> tok_delim c) start # tokens (dropWhile (\<lambda>c. \<not> tok_delim c) start))"
  by pat_completeness auto
termination
proof (relation "measure length", simp)
  fix line start assume start: "start = dropWhile tok_delim line" "start \<noteq> []"
  then have "\<not> tok_delim (hd start)" using hd_dropWhile by blast
  then have "length (dropWhile (\<lambda>c. \<not> tok_delim c) start) < length start"
    using start(2) length_dropWhile_le [of "\<lambda>c. \<not> tok_delim c" "tl start"] by (cases start) auto
  also have "\<dots> \<le> length line" unfolding start(1) by (rule length_dropWhile_le)
  finally show "(dropWhile (\<lambda>c. \<not> tok_delim c) start, line) \<in> measure length" by simp
qed

declare tokens.simps [simp del]

datatype console = C_Quit | C_Nothing | C_Send message

definition console_command :: "sniffer_protocol \<Rightarrow> string \<Rightarrow> u16 \<Rightarrow> console \<times> u16" where
  "console_command P line nextSeq =
     (let ts = tokens (takeWhile (\<lambda>c. c \<noteq> CHR 0x0A) line)
      in if ts = [] then (C_Nothing, nextSeq)
         else if hd ts = ''quit'' \<or> hd ts = ''exit'' then (C_Quit, nextSeq)
         else if hd ts \<noteq> ''send'' then (C_Nothing, nextSeq)
         else if length ts < 3 then (C_Nothing, nextSeq)
         else (case send_from_tokens P (ts ! 1) (ts ! 2) (if 3 < length ts then Some (ts ! 3) else None) nextSeq of
                 (None, n) \<Rightarrow> (C_Nothing, n)
               | (Some m, n) \<Rightarrow> (C_Send m, n)))"

section \<open>The threads\<close>

definition LINE_SIZE :: nat where "LINE_SIZE = 512"
definition TW_USB_TIMEOUT_MS :: nat where "TW_USB_TIMEOUT_MS = 500"

text \<open>
  The receiver is at the head of its loop, in its transfer or in the dispatch of a packet, with the bytes from
  \<open>offset\<close> on. The main thread is at the head of the loop of commands, reading a line, in a send before the reset of
  \<open>ackReceived\<close>, at its transfers, about to look at \<open>ackReceived\<close>, or waiting for the condition, or it joins
  the receiver.
\<close>

datatype receiver_pc = R_Loop | R_Transfer | R_Dispatch bytes | R_Done

datatype main_pc =
  M_Prompt | M_Read | M_Begin message | M_Send "bytes list" message | M_Check message | M_Wait message | M_Join | M_Closed

record 'w two_way =
  tw_running :: bool
  tw_ackReceived :: bool
  tw_rx :: RxContext
  tw_usb :: "'w usb"
  tw_receiver :: receiver_pc
  tw_main :: main_pc
  tw_input :: string \<comment> \<open>typed and not yet read\<close>
  tw_eof :: bool \<comment> \<open>the input has ended\<close>
  tw_nextSeq :: u16

datatype tw_event =
    E_Received bytes | E_Ack | E_Reset | E_Confirmed message | E_Failed | E_None
  | E_Signal | E_Terminal \<comment> \<open>not of the program\<close>

text \<open>
  \<open>fgets\<close> blocks until a whole line is typed, or as much as fits into the array, or the input has ended.
\<close>

definition line_ready :: "'w two_way \<Rightarrow> bool" where
  "line_ready s \<longleftrightarrow> tw_eof s \<or> CHR 0x0A \<in> set (tw_input s) \<or> LINE_SIZE - 1 \<le> length (tw_input s)"

text \<open>The signal handler, and the accesses to \<open>ackReceived\<close> under its mutex.\<close>

definition handle_sigint :: "'w two_way \<Rightarrow> 'w two_way" where
  [simp]: "handle_sigint s = s\<lparr>tw_running := False\<rparr>"

definition notify_ack :: "'w two_way \<Rightarrow> 'w two_way" where
  [simp]: "notify_ack s = s\<lparr>tw_ackReceived := True\<rparr>"

definition reset_ack_wait :: "'w two_way \<Rightarrow> 'w two_way" where
  [simp]: "reset_ack_wait s = s\<lparr>tw_ackReceived := False\<rparr>"

text \<open>
  \<open>wait_ack_ms\<close> when it holds the mutex: it goes to wait for the condition, or its result is \<open>-1\<close> or 0 and
  the send of \<open>m\<close> ends with it.
\<close>

definition wait_ack_ms :: "message \<Rightarrow> 'w two_way \<Rightarrow> tw_event \<times> 'w two_way" where
  "wait_ack_ms m s =
     (if tw_running s \<and> \<not> tw_ackReceived s then (E_None, s\<lparr>tw_main := M_Wait m\<rparr>)
      else if \<not> tw_running s then (E_Failed, s\<lparr>tw_main := M_Prompt\<rparr>)
      else (E_Confirmed m, s\<lparr>tw_ackReceived := False, tw_main := M_Prompt\<rparr>))"

text \<open>A round of \<open>interactive_loop\<close> from the reading of a line on.\<close>

definition interactive_round :: "sniffer_protocol \<Rightarrow> 'w two_way \<Rightarrow> 'w two_way" where
  "interactive_round P s =
     (case fgets LINE_SIZE (tw_input s) of
        None \<Rightarrow> s\<lparr>tw_main := M_Join, tw_running := False\<rparr>
      | Some (line, input) \<Rightarrow>
          (case console_command P line (tw_nextSeq s) of (c, n) \<Rightarrow>
             s\<lparr>tw_input := input, tw_nextSeq := n,
               tw_main := (case c of C_Quit \<Rightarrow> M_Join | C_Nothing \<Rightarrow> M_Prompt | C_Send m \<Rightarrow> M_Begin m),
               tw_running := (tw_running s \<and> c \<noteq> C_Quit)\<rparr>))"

text \<open>
  The steps. \<open>rx_round\<close> reads the flag as often as the parser does; \<open>run\<close> says when it is cleared
  meanwhile, by a signal or the other thread. A wait may end at any time, woken or at its deadline; a
  transfer and the reading of a line go on when the flag is cleared meanwhile (\<open>signal\<close> restarts a
  read that it interrupts). The signal and the terminal, on which a text is typed or the input ends, are the
  surroundings of the program.
\<close>

inductive tw_step :: "sniffer_protocol \<Rightarrow> 'w libusb \<Rightarrow> 'w two_way \<Rightarrow> tw_event \<Rightarrow> 'w two_way \<Rightarrow> bool"
  for P L where
  signal: "tw_step P L s E_Signal (handle_sigint s)"
| typed: "\<not> tw_eof s \<Longrightarrow> tw_step P L s E_Terminal (s\<lparr>tw_input := tw_input s @ entered\<rparr>)"
| input_end: "tw_step P L s E_Terminal (s\<lparr>tw_eof := True\<rparr>)"
| rx_begin: "tw_receiver s = R_Loop \<Longrightarrow> tw_running s \<Longrightarrow> tw_step P L s E_None (s\<lparr>tw_receiver := R_Transfer\<rparr>)"
| rx_packet: "tw_receiver s = R_Transfer \<Longrightarrow>
     usb_bulk_in L CF_IN_ENDPOINT USB_RX_TX_PACKET_SIZE TW_USB_TIMEOUT_MS (tw_usb s) = (LIBUSB_SUCCESS, d, u) \<Longrightarrow> d \<noteq> [] \<Longrightarrow>
     tw_step P L s (E_Received d) (s\<lparr>tw_usb := u, tw_receiver := R_Dispatch d\<rparr>)"
| rx_nothing: "tw_receiver s = R_Transfer \<Longrightarrow>
     usb_bulk_in L CF_IN_ENDPOINT USB_RX_TX_PACKET_SIZE TW_USB_TIMEOUT_MS (tw_usb s) = (r, d, u) \<Longrightarrow>
     r = LIBUSB_ERROR_TIMEOUT \<or> r = LIBUSB_SUCCESS \<and> d = [] \<Longrightarrow>
     tw_step P L s E_None (s\<lparr>tw_usb := u, tw_receiver := R_Loop\<rparr>)"
| rx_error: "tw_receiver s = R_Transfer \<Longrightarrow>
     usb_bulk_in L CF_IN_ENDPOINT USB_RX_TX_PACKET_SIZE TW_USB_TIMEOUT_MS (tw_usb s) = (r, d, u) \<Longrightarrow>
     r \<noteq> LIBUSB_ERROR_TIMEOUT \<Longrightarrow> r \<noteq> LIBUSB_SUCCESS \<Longrightarrow>
     tw_step P L s E_None (s\<lparr>tw_usb := u, tw_running := False, tw_receiver := R_Done\<rparr>)"
| rx_round: "tw_receiver s = R_Dispatch d \<Longrightarrow> d \<noteq> [] \<Longrightarrow> tw_running s = (run \<noteq> Some 0) \<Longrightarrow>
     dispatch_round P d run (tw_rx s) = (ack, d', run', rx) \<Longrightarrow>
     tw_step P L s (if ack then E_Ack else E_None)
       ((if ack then notify_ack s else s)
         \<lparr>tw_rx := rx, tw_receiver := R_Dispatch d', tw_running := (run' \<noteq> Some 0)\<rparr>)"
| rx_next: "tw_receiver s = R_Dispatch [] \<Longrightarrow> tw_step P L s E_None (s\<lparr>tw_receiver := R_Loop\<rparr>)"
| rx_stop: "tw_receiver s = R_Loop \<Longrightarrow> \<not> tw_running s \<Longrightarrow> tw_step P L s E_None (s\<lparr>tw_receiver := R_Done\<rparr>)"
| m_read: "tw_main s = M_Prompt \<Longrightarrow> tw_running s \<Longrightarrow> tw_step P L s E_None (s\<lparr>tw_main := M_Read\<rparr>)"
| m_leave: "tw_main s = M_Prompt \<Longrightarrow> \<not> tw_running s \<Longrightarrow> tw_step P L s E_None (s\<lparr>tw_main := M_Join\<rparr>)"
| m_command: "tw_main s = M_Read \<Longrightarrow> line_ready s \<Longrightarrow> tw_step P L s E_None (interactive_round P s)"
| m_begin: "tw_main s = M_Begin (destAddress, seqNumber, payload) \<Longrightarrow>
     tw_step P L s E_Reset ((reset_ack_wait s)
       \<lparr>tw_main := M_Send (downlink_transfers P destAddress seqNumber payload txTime) (destAddress, seqNumber, payload)\<rparr>)"
| m_transfer: "tw_main s = M_Send (d # ds) m \<Longrightarrow> send_exact L d (tw_usb s) = (ok, u) \<Longrightarrow>
     tw_step P L s (if ok then E_None else E_Failed)
       (s\<lparr>tw_usb := u, tw_main := (if ok then M_Send ds m else M_Prompt)\<rparr>)"
| m_sent: "tw_main s = M_Send [] m \<Longrightarrow> tw_step P L s E_None (s\<lparr>tw_main := M_Check m\<rparr>)"
| m_check: "tw_main s = M_Check m \<Longrightarrow> wait_ack_ms m s = (e, s') \<Longrightarrow> tw_step P L s e s'"
| m_woken: "tw_main s = M_Wait m \<Longrightarrow> tw_step P L s E_None (s\<lparr>tw_main := M_Check m\<rparr>)"
| m_deadline: "tw_main s = M_Wait m \<Longrightarrow> tw_step P L s E_Failed (s\<lparr>tw_main := M_Prompt\<rparr>)"
| m_join: "tw_main s = M_Join \<Longrightarrow> tw_receiver s = R_Done \<Longrightarrow>
     tw_step P L s E_None (s\<lparr>tw_usb := device_cleanup True True True (tw_usb s), tw_main := M_Closed\<rparr>)"

text \<open>What a round of the loop of commands keeps.\<close>

lemma interactive_round_kept [simp]:
  "tw_rx (interactive_round P s) = tw_rx s" "tw_usb (interactive_round P s) = tw_usb s"
  "tw_receiver (interactive_round P s) = tw_receiver s" "tw_ackReceived (interactive_round P s) = tw_ackReceived s"
  by (simp_all add: interactive_round_def case_prod_beta split: option.split)

lemma interactive_round_running: "tw_running (interactive_round P s) \<Longrightarrow> tw_running s"
  by (cases "fgets LINE_SIZE (tw_input s)") (simp_all add: interactive_round_def case_prod_beta)

lemma interactive_round_main:
  "tw_main (interactive_round P s) = M_Join \<and> \<not> tw_running (interactive_round P s) \<or>
   tw_main (interactive_round P s) = M_Prompt \<or> (\<exists>m. tw_main (interactive_round P s) = M_Begin m)"
proof (cases "fgets LINE_SIZE (tw_input s)")
  case (Some x)
  then show ?thesis
    by (cases "fst (console_command P (fst x) (tw_nextSeq s))") (simp_all add: interactive_round_def case_prod_beta del: split_paired_Ex)
qed (simp add: interactive_round_def)

lemma wait_ack_cases:
  assumes "wait_ack_ms m s = (e, s')"
  obtains (waits) "tw_running s" "\<not> tw_ackReceived s" "e = E_None" "s' = s\<lparr>tw_main := M_Wait m\<rparr>"
  | (stopped) "\<not> tw_running s" "e = E_Failed" "s' = s\<lparr>tw_main := M_Prompt\<rparr>"
  | (confirmed) "tw_running s" "tw_ackReceived s" "e = E_Confirmed m" "s' = s\<lparr>tw_ackReceived := False, tw_main := M_Prompt\<rparr>"
  using assms by (auto simp: wait_ack_ms_def split: if_splits)

inductive tw_trace :: "sniffer_protocol \<Rightarrow> 'w libusb \<Rightarrow> 'w two_way \<Rightarrow> tw_event list \<Rightarrow> 'w two_way \<Rightarrow> bool"
  for P L s0 where
  tw_start: "tw_trace P L s0 [] s0"
| tw_next: "tw_trace P L s0 es s \<Longrightarrow> tw_step P L s e s' \<Longrightarrow> tw_trace P L s0 (es @ [e]) s'"

section \<open>The program\<close>

text \<open>The message of the command line after the name of the program, and the next sequence number.\<close>

definition first_message :: "sniffer_protocol \<Rightarrow> string list \<Rightarrow> message option \<times> u16" where
  "first_message P args =
     (if length args = 2 \<or> length args = 3
      then send_from_tokens P (args ! 0) (args ! 1) (if length args = 3 then Some (args ! 2) else None) 1
      else (None, 1))"

text \<open>
  \<open>main\<close> up to the loop of commands: the exit code and the state it leaves (\<open>Inl\<close>), or the state the
  threads start in. \<open>fp\<close> is the log file, \<open>None\<close> when it is not opened; \<open>thread\<close> says whether the thread
  is created.
\<close>

definition twoway_main ::
    "'w libusb \<Rightarrow> sniffer_protocol \<Rightarrow> string list \<Rightarrow> out_file option \<Rightarrow> bool \<Rightarrow> string \<Rightarrow> 'w usb \<Rightarrow>
     (int \<times> 'w usb) + 'w two_way" where
  "twoway_main L P args fp thread input s =
     (if length args \<noteq> 0 \<and> length args \<noteq> 2 \<and> length args \<noteq> 3 then Inl (1, s)
      else case usb_init L s of (r, s) \<Rightarrow>
        if r \<noteq> LIBUSB_SUCCESS then Inl (1, s)
        else case tw_open_matching_device L s of (handle, s) \<Rightarrow>
          if \<not> handle then Inl (1, device_cleanup False False True s)
          else case usb_auto_detach L s of (_, s) \<Rightarrow>
            case usb_claim L USB_INTERFACE s of (r, s) \<Rightarrow>
              if r \<noteq> LIBUSB_SUCCESS then Inl (1, device_cleanup False True True s)
              else case usb_clear_halt L CF_IN_ENDPOINT s of (_, s) \<Rightarrow>
                case usb_clear_halt L CF_OUT_ENDPOINT s of (_, s) \<Rightarrow>
                  (case fp of
                     None \<Rightarrow> Inl (1, device_cleanup True True True s)
                   | Some f \<Rightarrow>
                       if \<not> thread then Inl (1, device_cleanup True True True s)
                       else
                         let (m, n) = first_message P args
                         in Inr \<lparr>tw_running = True, tw_ackReceived = False,
                              tw_rx = \<lparr>rx_logFile = f, rx_stream = [], rx_packetCount = 0\<rparr>, tw_usb = s,
                              tw_receiver = R_Loop, tw_main = (case m of None \<Rightarrow> M_Prompt | Some m \<Rightarrow> M_Begin m),
                              tw_input = input, tw_eof = False, tw_nextSeq = n\<rparr>))"

end
