(* ===== verification/Twoway_Properties.thy ===== *)
theory Twoway_Properties
  imports Twoway_Transport Libusb_Transport
begin

text \<open>
  The two threads of \<open>twoway_transport.c\<close> are correct under every interleaving: the log has the records
  of the received stream, a confirmation is of the message that was just sent, and at the end all is
  released.
\<close>

section \<open>The events\<close>

fun packets_of :: "tw_event list \<Rightarrow> bytes list" where
  "packets_of [] = []"
| "packets_of (E_Received d # es) = d # packets_of es"
| "packets_of (_ # es) = packets_of es"

lemma packets_of_append [simp]: "packets_of (xs @ ys) = packets_of xs @ packets_of ys"
  by (induction xs rule: packets_of.induct) simp_all

text \<open>The stream of the sniffer: the packets without the acknowledgements.\<close>

definition sniffer_stream :: "sniffer_protocol \<Rightarrow> tw_event list \<Rightarrow> bytes" where
  "sniffer_stream P es = concat (map (strip_acks P) (packets_of es))"

lemma sniffer_stream_snoc [simp]:
  "sniffer_stream P (es @ [e]) = sniffer_stream P es @ (case e of E_Received d \<Rightarrow> strip_acks P d | _ \<Rightarrow> [])"
  "sniffer_stream P [] = []"
  by (cases e) (simp_all add: sniffer_stream_def)

section \<open>The log\<close>

text \<open>
  \<open>pending\<close> is what the receiver still has of its packet. What it has handed on so far is \<open>e\<close>; while
  nothing has stopped it the log has all records of it, and else a part of them.
\<close>

definition pending :: "'w two_way \<Rightarrow> bytes" where
  "pending s = (case tw_receiver s of R_Dispatch d \<Rightarrow> d | _ \<Rightarrow> [])"

definition rx_inv :: "sniffer_protocol \<Rightarrow> tw_event list \<Rightarrow> 'w two_way \<Rightarrow> bool" where
  "rx_inv P es s \<longleftrightarrow>
     length (pending s) \<le> USB_RX_TX_PACKET_SIZE \<and> fl_accept (rx_logFile (tw_rx s)) = [] \<and>
     (\<exists>e. sniffer_stream P es = e @ strip_acks P (pending s) \<and>
        (\<exists>j. fl_data (rx_logFile (tw_rx s)) = concat (take j (fst (frames P e)))) \<and>
        (tw_running s \<longrightarrow> fl_data (rx_logFile (tw_rx s)) = concat (fst (frames P e)) \<and>
           rx_packetCount (tw_rx s) = of_nat (length (fst (frames P e))) \<and> rx_stream (tw_rx s) = snd (frames P e)))"

text \<open>A meta is small, so that a record and a packet fit into the buffer.\<close>

definition small_meta :: "sniffer_protocol \<Rightarrow> bool" where
  "small_meta P \<longleftrightarrow> sniffer_meta_size P + MAX_MESSAGE_SIZE + USB_RX_TX_PACKET_SIZE \<le> STREAM_BUFFER_SIZE"

text \<open>A stopped receiver logs nothing more.\<close>

lemma parse_stopped: "parse_sniffer_stream P (Some 0) rx = (Some 0, rx)"
  by (subst parse_sniffer_stream.simps) simp

lemma append_stopped:
  "append_sniffer_bytes P d (Some 0) rx = (run', rx') \<Longrightarrow> run' = Some 0 \<and> rx_logFile rx' = rx_logFile rx"
  by (auto simp: append_sniffer_bytes_def parse_stopped Let_def split: if_splits)

lemma dispatch_stopped:
  "dispatch_round P d (Some 0) rx = (ack, d', run', rx') \<Longrightarrow> run' = Some 0 \<and> rx_logFile rx' = rx_logFile rx"
  by (auto simp: dispatch_round_def dest: append_stopped split: option.splits if_splits prod.splits)

lemma dispatch_rest:
  assumes "dispatch_round P d run rx = (ack, d', run', rx')"
  obtains e where "strip_acks P d = e @ strip_acks P d'" "length d' \<le> length d" "d \<noteq> [] \<longrightarrow> length d' < length d"
proof (cases "find_downlink_ack P d")
  case None
  then show thesis using assms strip_acks_none [of P "[]"]
    by (intro that [of d]) (auto simp: dispatch_round_def strip_acks_none split: prod.splits)
next
  case (Some k)
  then have "d' = drop (k + SNIFFER_DOWNLINK_ACK_SIZE) d" using assms by (auto simp: dispatch_round_def split: prod.splits)
  moreover have "strip_acks P d = take k d @ strip_acks P (drop (k + SNIFFER_DOWNLINK_ACK_SIZE) d)"
    using Some by (subst strip_acks.simps) simp
  ultimately show thesis by (intro that [of "take k d"]) (simp_all add: SNIFFER_DOWNLINK_ACK_SIZE_def)
qed

lemma prefix_frames:
  "\<exists>j. x = concat (take j (fst (frames P e))) \<Longrightarrow> \<exists>j. x = concat (take j (fst (frames P (e @ f))))"
proof (elim exE)
  fix j assume x: "x = concat (take j (fst (frames P e)))"
  obtain fs rest where f: "frames P e = (fs, rest)" by fastforce
  then have "\<exists>gs. fst (frames P (e @ f)) = fs @ gs" by (simp add: frames_append [of P e f] split: prod.split)
  then obtain gs where "fst (frames P (e @ f)) = fs @ gs" by blast
  then show ?thesis using x f by (intro exI [of _ "min j (length fs)"]) (simp add: take_take [symmetric])
qed

lemma round_inv:
  assumes small: "small_meta P" and inv: "rx_inv P es s" and r: "tw_receiver s = R_Dispatch d"
    and run: "tw_running s = (run \<noteq> Some 0)" and rd: "dispatch_round P d run (tw_rx s) = (ack, d', run', rx)"
    and s': "s' = s\<lparr>tw_rx := rx, tw_receiver := R_Dispatch d', tw_running := (run' \<noteq> Some 0), tw_ackReceived := a\<rparr>"
    and ev: "\<And>d. ev \<noteq> E_Received d"
  shows "rx_inv P (es @ [ev]) s'"
proof -
  let ?rx = "tw_rx s"
  have p: "pending s = d" "pending s' = d'" using r by (simp_all add: pending_def s')
  obtain e where e: "sniffer_stream P es = e @ strip_acks P d" and len: "length d \<le> USB_RX_TX_PACKET_SIZE"
    and acc: "fl_accept (rx_logFile ?rx) = []"
    and part: "\<exists>j. fl_data (rx_logFile ?rx) = concat (take j (fst (frames P e)))"
    and full: "tw_running s \<Longrightarrow> fl_data (rx_logFile ?rx) = concat (fst (frames P e)) \<and>
      rx_packetCount ?rx = of_nat (length (fst (frames P e))) \<and> rx_stream ?rx = snd (frames P e)"
    using inv p by (auto simp: rx_inv_def)
  have es: "sniffer_stream P (es @ [ev]) = sniffer_stream P es" using ev by (cases ev) fastforce+
  show ?thesis
  proof (cases "tw_running s")
    case False
    then have "run = Some 0" using run by simp
    then have st: "run' = Some 0" "rx_logFile rx = rx_logFile ?rx" using dispatch_stopped rd by blast+
    obtain f where f: "strip_acks P d = f @ strip_acks P d'" "length d' \<le> length d" using dispatch_rest [OF rd] .
    show ?thesis
      using e f len acc st prefix_frames [OF part, of f] p es
      by (auto simp: rx_inv_def s' intro!: exI [of _ "e @ f"])
  next
    case True
    obtain fs rest where fr: "frames P e = (fs, rest)" by fastforce
    note st = full [OF True, unfolded fr fst_conv snd_conv]
    have residue: "frames P (rx_stream ?rx) = ([], rx_stream ?rx)" using frames_rest(1) [OF fr] st by simp
    have fits: "length (rx_stream ?rx) + length d \<le> STREAM_BUFFER_SIZE"
      using frames_rest(2) [OF fr] st len small by (simp add: small_meta_def)
    obtain f gs rest' where f: "strip_acks P d = f @ strip_acks P d'" "frames P (rx_stream ?rx @ f) = (gs, rest')"
      "rx_result ?rx gs rest' (run', rx)" "length d' \<le> length d"
      by (rule dispatch_round_frames [OF acc fits residue rd])
    have all: "frames P (e @ f) = (fs @ gs, rest')" using f(2) st by (simp add: frames_append [of P e f] fr)
    obtain j where j: "fl_data (rx_logFile rx) = concat fs @ concat (take j gs)" "fl_accept (rx_logFile rx) = []"
      using f(3) st by (auto simp: rx_result_def)
    then have "fl_data (rx_logFile rx) = concat (take (length fs + j) (fs @ gs))" by simp
    then have "\<exists>j. fl_data (rx_logFile rx) = concat (take j (fst (frames P (e @ f))))" unfolding all fst_conv by blast
    moreover have "run' \<noteq> Some 0 \<longrightarrow> fl_data (rx_logFile rx) = concat (fst (frames P (e @ f))) \<and>
        rx_packetCount rx = of_nat (length (fst (frames P (e @ f)))) \<and> rx_stream rx = snd (frames P (e @ f))"
      using f(3) st by (auto simp: all rx_result_def rx_logged_def)
    ultimately show ?thesis
      using e f(1,4) len j(2) p es unfolding rx_inv_def
      by (intro conjI exI [of _ "e @ f"]) (auto simp: s')
  qed
qed

lemma rx_inv_frame:
  assumes "rx_inv P es s" "tw_rx s' = tw_rx s" "pending s' = pending s" "tw_running s' \<longrightarrow> tw_running s"
    and "\<And>d. ev \<noteq> E_Received d"
  shows "rx_inv P (es @ [ev]) s'"
proof -
  have "sniffer_stream P (es @ [ev]) = sniffer_stream P es" using assms(5) by (cases ev) fastforce+
  then show ?thesis using assms(1-4) unfolding rx_inv_def by auto
qed

context usb_history
begin

lemma rx_inv_step:
  assumes "small_meta P" "rx_inv P es s" "tw_step P L s ev s'"
  shows "rx_inv P (es @ [ev]) s'"
  using assms(3)
proof cases
  case (rx_packet d u)
  have "length d \<le> USB_RX_TX_PACKET_SIZE" using usb_bulk_in_history(1) [OF rx_packet(4)] .
  moreover have "strip_acks P [] = []" by (simp add: strip_acks_none)
  ultimately show ?thesis using assms(2) rx_packet by (auto simp: rx_inv_def pending_def)
next
  case (rx_round d run ack d' run' rx)
  have "s' = s\<lparr>tw_rx := rx, tw_receiver := R_Dispatch d', tw_running := (run' \<noteq> Some 0),
      tw_ackReceived := (tw_ackReceived s \<or> ack)\<rparr>" using rx_round(2) by simp
  from round_inv [OF assms(1,2) rx_round(3,5,6) this, of ev] show ?thesis using rx_round(1) by simp
next
  case (m_check m)
  from m_check(2) show ?thesis
    by (cases rule: wait_ack_cases) (auto intro!: rx_inv_frame [OF assms(2)] simp: pending_def)
qed (use assms(2) in \<open>auto intro!: rx_inv_frame [OF assms(2)] simp: pending_def dest: interactive_round_running\<close>)

lemma rx_inv_trace:
  assumes "tw_trace P L s0 es s" "small_meta P" "rx_inv P [] s0"
  shows "rx_inv P es s"
  using assms(1) by induction (use assms(2,3) rx_inv_step in blast)+

end

section \<open>The start\<close>

text \<open>The two ways the program starts: it fails and has released everything, or the threads run.\<close>

lemma twoway_main_cases:
  obtains (failed) s' where "twoway_main L P args fp thread input s = Inl (1, s')" "held (us_calls s') = held (us_calls s)"
  | (started) f t m n where "fp = Some f" "held (us_calls t) = balance_add (held (us_calls s)) (1, 0, 1, 1)"
      "twoway_main L P args fp thread input s = Inr \<lparr>tw_running = True, tw_ackReceived = False,
         tw_rx = \<lparr>rx_logFile = f, rx_stream = [], rx_packetCount = 0\<rparr>, tw_usb = t,
         tw_receiver = R_Loop, tw_main = (case m of None \<Rightarrow> M_Prompt | Some m \<Rightarrow> M_Begin m),
         tw_input = input, tw_eof = False, tw_nextSeq = n\<rparr>"
proof -
  obtain r1 s1 where i: "usb_init L s = (r1, s1)" by (cases "usb_init L s")
  obtain h s2 where o: "open_matching_device L s1 = (h, s2)" by (cases "open_matching_device L s1")
  obtain r3 s3 where d: "usb_auto_detach L s2 = (r3, s3)" by (cases "usb_auto_detach L s2")
  obtain r4 s4 where c: "usb_claim L USB_INTERFACE s3 = (r4, s4)" by (cases "usb_claim L USB_INTERFACE s3")
  obtain r5 s5 where h1: "usb_clear_halt L CF_IN_ENDPOINT s4 = (r5, s5)" by (cases "usb_clear_halt L CF_IN_ENDPOINT s4")
  obtain r6 s6 where h2: "usb_clear_halt L CF_OUT_ENDPOINT s5 = (r6, s6)" by (cases "usb_clear_halt L CF_OUT_ENDPOINT s5")
  obtain m n where mn: "first_message P args = (m, n)" by (cases "first_message P args")
  note bal = usb_init_balance [OF i] open_matching_device_held [OF o] usb_claim_balance [OF c]
    usb_quiet_calls(2) [OF d, unfolded us_silent_def] usb_quiet_calls(1) [OF h1, unfolded us_silent_def]
    usb_quiet_calls(1) [OF h2, unfolded us_silent_def]
  note main = twoway_main_def i o d c h1 h2 prod.case mn
  consider (args) "length args \<noteq> 0 \<and> length args \<noteq> 2 \<and> length args \<noteq> 3" | (init) "length args = 0 \<or> length args = 2 \<or> length args = 3" "r1 \<noteq> LIBUSB_SUCCESS"
    | (dev) "length args = 0 \<or> length args = 2 \<or> length args = 3" "r1 = LIBUSB_SUCCESS" "\<not> h"
    | (claim) "length args = 0 \<or> length args = 2 \<or> length args = 3" "r1 = LIBUSB_SUCCESS" h "r4 \<noteq> LIBUSB_SUCCESS"
    | (log) "length args = 0 \<or> length args = 2 \<or> length args = 3" "r1 = LIBUSB_SUCCESS" h "r4 = LIBUSB_SUCCESS" "fp = None \<or> \<not> thread"
    | (run) f where "length args = 0 \<or> length args = 2 \<or> length args = 3" "r1 = LIBUSB_SUCCESS" h "r4 = LIBUSB_SUCCESS" "fp = Some f" thread
    by (cases fp) auto
  then show thesis
  proof cases
    case args
    then show thesis by (intro failed [of s]) (simp_all add: twoway_main_def)
  next
    case init
    then show thesis using bal by (intro failed [of s1]) (auto simp: main)
  next
    case dev
    then show thesis using bal
      by (intro failed [of "device_cleanup False False True s2"]) (auto simp: main device_cleanup_held balance_assoc)
  next
    case claim
    then show thesis using bal
      by (intro failed [of "device_cleanup False True True s4"]) (auto simp: main device_cleanup_held balance_assoc)
  next
    case log
    then show thesis using bal
      by (intro failed [of "device_cleanup True True True s6"])
         (auto simp: main device_cleanup_held balance_assoc split: option.split)
  next
    case (run f)
    then show thesis using bal
      by (intro started [of f s6 m n]) (auto simp: main balance_assoc)
  qed
qed

section \<open>The properties\<close>

text \<open>
  C2. However the threads are scheduled, the log holds records of the received stream only, in order and
  without a gap; and as long as nothing stops the program, all complete records of the packets that
  have been dispatched, with what follows them kept in the buffer, which always has room for the next
  packet. The stream is that of the packets without their acknowledgements, however it is cut into
  packets.
\<close>

theorem twoway_logs_records:
  assumes "small_meta P" and "twoway_main (recording L) P args (Some f) thread input s = Inr s0"
    and "fl_accept f = []" "fl_data f = []" and "tw_trace P (recording L) s0 es t"
  shows "(\<exists>j. fl_data (rx_logFile (tw_rx t)) = concat (take j (fst (frames P (sniffer_stream P es))))) \<and>
    (tw_running t \<and> tw_receiver t \<in> {R_Loop, R_Transfer} \<longrightarrow>
       fl_data (rx_logFile (tw_rx t)) = concat (fst (frames P (sniffer_stream P es))) \<and>
       rx_stream (tw_rx t) = snd (frames P (sniffer_stream P es)) \<and>
       length (rx_stream (tw_rx t)) + USB_RX_TX_PACKET_SIZE \<le> STREAM_BUFFER_SIZE)"
proof -
  have nil: "frames P [] = ([], [])" "strip_acks P [] = []" by (simp_all add: frames.simps strip_acks_none)
  have "rx_inv P [] s0"
    by (cases rule: twoway_main_cases [of "recording L" P args "Some f" thread input s, case_names failed started])
       (use assms(2-4) nil in \<open>auto simp: rx_inv_def pending_def\<close>)
  from recorded.rx_inv_trace [OF assms(5,1) this]
  obtain e where e: "sniffer_stream P es = e @ strip_acks P (pending t)"
    and part: "\<exists>j. fl_data (rx_logFile (tw_rx t)) = concat (take j (fst (frames P e)))"
    and full: "tw_running t \<longrightarrow> fl_data (rx_logFile (tw_rx t)) = concat (fst (frames P e)) \<and> rx_stream (tw_rx t) = snd (frames P e)"
    by (auto simp: rx_inv_def)
  have "length (snd (frames P e)) + USB_RX_TX_PACKET_SIZE \<le> STREAM_BUFFER_SIZE"
    using frames_rest(2) [of P e "fst (frames P e)" "snd (frames P e)"] assms(1) by (simp add: small_meta_def)
  then show ?thesis using prefix_frames [OF part, of "strip_acks P (pending t)"] full e nil by (auto simp: pending_def)
qed

text \<open>The sends: where the main thread is in one, and what has happened since its reset.\<close>

definition unconfirmed :: "tw_event list \<Rightarrow> bool" where
  "unconfirmed es \<longleftrightarrow> E_Reset \<notin> set es \<and> (\<forall>m. E_Confirmed m \<notin> set es)"

definition sending :: "sniffer_protocol \<Rightarrow> 'w two_way \<Rightarrow> (bytes list \<times> message) option" where
  "sending P s = (case tw_main s of M_Send ds m \<Rightarrow> Some (ds, m) | M_Check m \<Rightarrow> Some ([], m) | M_Wait m \<Rightarrow> Some ([], m) | _ \<Rightarrow> None)"

definition send_inv :: "sniffer_protocol \<Rightarrow> tw_event list \<Rightarrow> 'w two_way \<Rightarrow> bool" where
  "send_inv P es s \<longleftrightarrow>
     (case sending P s of
        None \<Rightarrow> True
      | Some (ds, a, q, payload) \<Rightarrow>
          (\<exists>pre post. es = pre @ E_Reset # post \<and> unconfirmed post \<and> (tw_ackReceived s \<longrightarrow> E_Ack \<in> set post)) \<and>
          (\<exists>before made t. bulk_outs (us_calls (tw_usb s)) = before @ map (\<lambda>d. (d, True)) made \<and>
             made @ ds = downlink_transfers P a q payload t))"

lemma send_inv_event:
  assumes "es = pre @ E_Reset # post \<and> unconfirmed post" "e \<noteq> E_Reset" "\<forall>m. e \<noteq> E_Confirmed m"
  shows "\<exists>pre post'. es @ [e] = pre @ E_Reset # post' \<and> unconfirmed post' \<and> set post' = insert e (set post)"
  using assms by (intro exI [of _ pre] exI [of _ "post @ [e]"]) (auto simp: unconfirmed_def)

lemma send_inv_frame:
  assumes inv: "send_inv P es s" and "sending P s' = sending P s"
    and "bulk_outs (us_calls (tw_usb s')) = bulk_outs (us_calls (tw_usb s))"
    and "tw_ackReceived s' \<longrightarrow> tw_ackReceived s \<or> e = E_Ack" "e \<noteq> E_Reset" "\<forall>m. e \<noteq> E_Confirmed m"
  shows "send_inv P (es @ [e]) s'"
proof (cases "sending P s")
  case None
  then show ?thesis using assms(2) by (simp add: send_inv_def)
next
  case (Some x)
  obtain ds a q payload where x: "x = (ds, a, q, payload)" by (cases x) auto
  obtain pre post where p: "es = pre @ E_Reset # post \<and> unconfirmed post" "tw_ackReceived s \<longrightarrow> E_Ack \<in> set post"
    using inv Some x by (auto simp: send_inv_def)
  obtain pre' post' where "es @ [e] = pre' @ E_Reset # post'" "unconfirmed post'" "set post' = insert e (set post)"
    using send_inv_event [OF p(1) assms(5,6)] by blast
  then show ?thesis using inv Some x assms(2-4) p(2) unfolding send_inv_def by auto
qed

lemma send_inv_step:
  assumes inv: "send_inv P es s" and "tw_step P L s e s'"
  shows "send_inv P (es @ [e]) s'"
  using assms(2)
proof cases
  case (m_begin a q payload t)
  have "\<exists>pre post. es @ [E_Reset] = pre @ E_Reset # post \<and> unconfirmed post"
    by (intro exI [of _ es] exI [of _ "[]"]) (simp add: unconfirmed_def)
  moreover have "\<exists>before made t'. bulk_outs (us_calls (tw_usb s)) = before @ map (\<lambda>d. (d, True)) made \<and>
      made @ downlink_transfers P a q payload t = downlink_transfers P a q payload t'"
    by (intro exI [of _ "bulk_outs (us_calls (tw_usb s))"] exI [of _ "[]"] exI [of _ t]) simp
  ultimately show ?thesis using m_begin unfolding send_inv_def sending_def by auto
next
  case (m_transfer d ds m ok u)
  obtain a q payload where m: "m = (a, q, payload)" by (cases m)
  note tr = send_exact_facts [OF m_transfer(4)]
  show ?thesis
  proof (cases ok)
    case False
    then show ?thesis using m_transfer by (simp add: send_inv_def sending_def)
  next
    case True
    obtain pre post where p: "es = pre @ E_Reset # post \<and> unconfirmed post" "tw_ackReceived s \<longrightarrow> E_Ack \<in> set post"
      using inv m_transfer(3) m by (auto simp: send_inv_def sending_def)
    obtain before made t where o: "bulk_outs (us_calls (tw_usb s)) = before @ map (\<lambda>d. (d, True)) made"
      "made @ d # ds = downlink_transfers P a q payload t"
      using inv m_transfer(3) m by (auto simp: send_inv_def sending_def)
    have "\<exists>pre post'. es @ [E_None] = pre @ E_Reset # post' \<and> unconfirmed post' \<and> set post' = insert E_None (set post)"
      by (rule send_inv_event [OF p(1)]) simp_all
    then have "\<exists>pre post. es @ [E_None] = pre @ E_Reset # post \<and> unconfirmed post \<and> (tw_ackReceived s \<longrightarrow> E_Ack \<in> set post)"
      using p(2) by auto
    moreover have "\<exists>before made t. bulk_outs (us_calls u) = before @ map (\<lambda>d. (d, True)) made \<and> made @ ds = downlink_transfers P a q payload t"
      using tr o True by (intro exI [of _ before] exI [of _ "made @ [d]"] exI [of _ t]) simp
    ultimately show ?thesis using m_transfer True m unfolding send_inv_def sending_def by auto
  qed
next
  case (rx_round d run ack d' run' rx)
  show ?thesis by (rule send_inv_frame [OF inv]) (simp_all add: rx_round(1,2) sending_def)
next
  case (rx_packet d u)
  show ?thesis using rx_packet usb_quiet_calls(3) [OF rx_packet(4)]
    by (intro send_inv_frame [OF inv]) (auto simp: sending_def us_silent_def)
next
  case (rx_nothing r d u)
  show ?thesis using rx_nothing usb_quiet_calls(3) [OF rx_nothing(4)]
    by (intro send_inv_frame [OF inv]) (auto simp: sending_def us_silent_def)
next
  case (rx_error r d u)
  show ?thesis using rx_error usb_quiet_calls(3) [OF rx_error(4)]
    by (intro send_inv_frame [OF inv]) (auto simp: sending_def us_silent_def)
next
  case (m_check m)
  from m_check(2) show ?thesis
  proof (cases rule: wait_ack_cases)
    case waits
    then show ?thesis using m_check(1) by (intro send_inv_frame [OF inv]) (auto simp: sending_def)
  qed (simp_all add: send_inv_def sending_def)
next
  case m_command
  then show ?thesis using interactive_round_main [of P s] by (auto simp: send_inv_def sending_def)
next
  case rx_begin
  then show ?thesis by (intro send_inv_frame [OF inv]) (auto simp: sending_def)
next
  case (m_sent m)
  then show ?thesis by (intro send_inv_frame [OF inv]) (auto simp: sending_def)
next
  case (m_woken m)
  then show ?thesis by (intro send_inv_frame [OF inv]) (auto simp: sending_def)
next
  case signal
  then show ?thesis by (intro send_inv_frame [OF inv]) (auto simp: sending_def)
next
  case (typed entered)
  then show ?thesis by (intro send_inv_frame [OF inv]) (auto simp: sending_def)
next
  case input_end
  then show ?thesis by (intro send_inv_frame [OF inv]) (auto simp: sending_def)
next
  case rx_next
  then show ?thesis by (intro send_inv_frame [OF inv]) (auto simp: sending_def)
next
  case rx_stop
  then show ?thesis by (intro send_inv_frame [OF inv]) (auto simp: sending_def)
qed (auto simp: send_inv_def sending_def)

lemma send_inv_trace:
  assumes "tw_trace P L s0 es s" "send_inv P [] s0"
  shows "send_inv P es s"
  using assms(1) by induction (use assms(2) send_inv_step in blast)+

lemma confirmed_step:
  assumes "tw_step P L t (E_Confirmed m) t'"
  shows "tw_main t = M_Check m" "tw_ackReceived t" "tw_usb t' = tw_usb t"
proof -
  have "tw_main t = M_Check m \<and> tw_ackReceived t \<and> tw_usb t' = tw_usb t"
    using assms
  proof cases
    case (m_check m')
    from m_check(2) show ?thesis by (cases rule: wait_ack_cases) (simp_all add: m_check(1))
  qed (simp_all split: if_splits)
  then show "tw_main t = M_Check m" "tw_ackReceived t" "tw_usb t' = tw_usb t" by simp_all
qed

text \<open>
  C8. A message is reported as acknowledged only after all of it was transmitted and the receiver has
  seen an acknowledgement since the flag was reset for this very message: no acknowledgement confirms
  two messages, and none that came before the reset counts. The last writes to the device are then the
  transfers of the message, in order, and the library reported each of them as carried out without an
  error and with all of its bytes.
\<close>

theorem twoway_confirms_message:
  assumes "twoway_main L P args fp thread input s = Inr s0"
    and "tw_trace P L s0 es t" and "tw_step P L t (E_Confirmed (destAddress, seqNumber, payload)) t'"
  shows "\<exists>pre mid post. es = pre @ E_Reset # mid @ E_Ack # post \<and> unconfirmed (mid @ E_Ack # post) \<and>
    (\<exists>before txTime. bulk_outs (us_calls (tw_usb t')) =
       before @ map (\<lambda>d. (d, True)) (downlink_transfers P destAddress seqNumber payload txTime))"
proof -
  have "send_inv P [] s0"
    by (cases rule: twoway_main_cases [of L P args fp thread input s, case_names failed started])
       (use assms(1) in \<open>auto simp: send_inv_def sending_def split: option.splits\<close>)
  note inv = send_inv_trace [OF assms(2) this]
  note t = confirmed_step [OF assms(3)]
  obtain pre post where p: "es = pre @ E_Reset # post" "unconfirmed post" "E_Ack \<in> set post"
    using inv t(1,2) by (auto simp: send_inv_def sending_def)
  from split_list [OF p(3)] obtain mid post' where "post = mid @ E_Ack # post'" by blast
  moreover have "\<exists>before txTime. bulk_outs (us_calls (tw_usb t')) =
       before @ map (\<lambda>d. (d, True)) (downlink_transfers P destAddress seqNumber payload txTime)"
    using inv t by (auto simp: send_inv_def sending_def)
  ultimately show ?thesis using p(1,2) by blast
qed

section \<open>The end of the program\<close>

definition end_inv :: "int \<times> int \<times> int \<times> int \<Rightarrow> 'w two_way \<Rightarrow> bool" where
  "end_inv h s \<longleftrightarrow>
     held (us_calls (tw_usb s)) = (if tw_main s = M_Closed then h else balance_add h (1, 0, 1, 1)) \<and>
     (tw_main s = M_Join \<or> tw_main s = M_Closed \<longrightarrow> \<not> tw_running s) \<and> (tw_main s = M_Closed \<longrightarrow> tw_receiver s = R_Done)"

lemma stopped_step:
  assumes "tw_step P L s e s'" "\<not> tw_running s"
  shows "\<not> tw_running s'"
  using assms(1)
proof cases
  case (rx_round d run ack d' run' rx)
  then show ?thesis using assms(2) dispatch_stopped by fastforce
next
  case (m_check m)
  from m_check(2) show ?thesis by (cases rule: wait_ack_cases) (simp_all add: assms(2))
qed (use assms(2) interactive_round_running in auto)

lemma end_inv_step:
  assumes "end_inv h s" "tw_step P L s e s'"
  shows "end_inv h s'"
  using assms(2)
proof cases
  case (rx_packet d u)
  then show ?thesis using assms(1) usb_quiet_calls(3) [OF rx_packet(4)] by (auto simp: end_inv_def us_silent_def)
next
  case (rx_nothing r d u)
  then show ?thesis using assms(1) usb_quiet_calls(3) [OF rx_nothing(4)] by (auto simp: end_inv_def us_silent_def)
next
  case (rx_error r d u)
  then show ?thesis using assms(1) usb_quiet_calls(3) [OF rx_error(4)] by (auto simp: end_inv_def us_silent_def)
next
  case (rx_round d run ack d' run' rx)
  have "tw_usb s' = tw_usb s \<and> tw_main s' = tw_main s \<and> (tw_receiver s' = R_Done \<longrightarrow> tw_receiver s = R_Done)"
    by (simp add: rx_round(2))
  then show ?thesis using assms(1) stopped_step [OF assms(2)] rx_round(3) by (auto simp: end_inv_def)
next
  case (m_check m)
  from m_check(2) show ?thesis by (cases rule: wait_ack_cases) (use assms(1) m_check(1) in \<open>auto simp: end_inv_def\<close>)
next
  case m_command
  then show ?thesis using assms(1) interactive_round_main [of P s] by (auto simp: end_inv_def)
next
  case (m_transfer d ds m ok u)
  then show ?thesis using assms(1) send_exact_facts [OF m_transfer(4)] by (auto simp: end_inv_def)
next
  case m_join
  then show ?thesis using assms(1) by (simp add: end_inv_def device_cleanup_held balance_assoc)
qed (use assms(1) in \<open>auto simp: end_inv_def\<close>)

lemma end_inv_trace: "tw_trace P L s0 es s \<Longrightarrow> end_inv h s0 \<Longrightarrow> end_inv h s"
  by (induction rule: tw_trace.induct) (use end_inv_step in blast)+

text \<open>
  C37. Whatever the schedule, when the program ends, at its start or after its threads have been joined, it
  has given back all of the USB resources it acquired.
\<close>

theorem twoway_releases:
  "case twoway_main L P args fp thread input s of
     Inl (code, s') \<Rightarrow> code = 1 \<and> held (us_calls s') = held (us_calls s)
   | Inr s0 \<Rightarrow> \<forall>es t. tw_trace P L s0 es t \<and> tw_main t = M_Closed \<longrightarrow>
       held (us_calls (tw_usb t)) = held (us_calls s) \<and> tw_receiver t = R_Done"
proof (cases rule: twoway_main_cases [of L P args fp thread input s, case_names failed started])
  case (started f t m n)
  let ?s0 = "\<lparr>tw_running = True, tw_ackReceived = False, tw_rx = \<lparr>rx_logFile = f, rx_stream = [], rx_packetCount = 0\<rparr>,
    tw_usb = t, tw_receiver = R_Loop, tw_main = (case m of None \<Rightarrow> M_Prompt | Some m \<Rightarrow> M_Begin m),
    tw_input = input, tw_eof = False, tw_nextSeq = n\<rparr>"
  have "end_inv (held (us_calls s)) ?s0" using started(2) by (auto simp: end_inv_def split: option.splits)
  from end_inv_trace [OF _ this] show ?thesis using started(3) by (auto simp: end_inv_def)
qed simp

text \<open>The work of a stopped program.\<close>

fun receiver_work :: "receiver_pc \<Rightarrow> nat \<times> nat" where
  "receiver_work R_Transfer = (3, 0)"
| "receiver_work (R_Dispatch d) = (2, length d)"
| "receiver_work R_Loop = (1, 0)"
| "receiver_work R_Done = (0, 0)"

fun main_work :: "main_pc \<Rightarrow> nat \<times> nat" where
  "main_work M_Read = (7, 0)"
| "main_work (M_Begin m) = (6, 0)"
| "main_work (M_Send ds m) = (5, length ds)"
| "main_work (M_Wait m) = (4, 0)"
| "main_work (M_Check m) = (3, 0)"
| "main_work M_Prompt = (2, 0)"
| "main_work M_Join = (1, 0)"
| "main_work M_Closed = (0, 0)"

text \<open>
  The stages of the two threads, and within a stage what is left of a packet or a message. The steps of
  the surroundings leave them alone; the others make them less.
\<close>

definition environment :: "tw_event set" where
  "environment = {E_Signal, E_Terminal}"

definition stages :: "'w two_way \<Rightarrow> nat \<times> nat" where
  "stages s = (fst (receiver_work (tw_receiver s)) + fst (main_work (tw_main s)),
     snd (receiver_work (tw_receiver s)) + snd (main_work (tw_main s)))"

definition work :: "((nat \<times> nat) \<times> nat \<times> nat) set" where
  "work = less_than <*lex*> less_than"

lemma work_facts: "wf work" "trans work"
  by (simp_all add: work_def wf_lex_prod trans_lex_prod)

lemma stopped_work:
  assumes "tw_step P L s e s'" "\<not> tw_running s"
  shows "if e \<in> environment then stages s' = stages s else (stages s', stages s) \<in> work"
proof -
  obtain i j where main: "main_work (tw_main s) = (i, j)" by (cases "main_work (tw_main s)")
  from assms(1) show ?thesis
  proof cases
    case (rx_round d run ack d' run' rx)
    obtain f where "d \<noteq> [] \<longrightarrow> length d' < length d" using dispatch_rest [OF rx_round(6)] .
    then show ?thesis using rx_round(1-4) by (simp add: stages_def work_def environment_def)
  next
    case (m_check m)
    from m_check(2) show ?thesis
      by (cases rule: wait_ack_cases) (use assms(2) m_check(1) in \<open>simp_all add: stages_def work_def environment_def\<close>)
  next
    case m_command
    then show ?thesis using interactive_round_main [of P s] by (auto simp: stages_def work_def environment_def)
  qed (use assms(2) main in \<open>simp_all add: stages_def work_def environment_def\<close>)
qed

text \<open>What only becomes less does so finitely often.\<close>

lemma finitely_often_less:
  assumes "wf R" "trans R" "\<And>n :: nat. f (Suc n) = f n \<or> (f (Suc n), f n) \<in> R"
  shows "finite {n. (f (Suc n), f n) \<in> R}"
proof -
  obtain N where low: "\<And>n. (f n, f N) \<notin> R"
    using wfE_min [OF assms(1), of "f 0" "range f"] by (metis rangeE rangeI)
  have "f (N + k) = f N" for k
  proof (induction k)
    case (Suc k)
    then show ?case using assms(3) [of "N + k"] low by auto
  qed simp
  then have "(f (Suc n), f n) \<notin> R" if "N \<le> n" for n
    using that low [of "Suc n"] by (metis le_add_diff_inverse)
  then have "{n. (f (Suc n), f n) \<in> R} \<subseteq> {..<N}" by (auto simp: not_le [symmetric])
  then show ?thesis by (rule finite_subset) simp
qed

text \<open>A stopped main thread reads at most one line: it blocks only if it was reading already.\<close>

lemma stopped_reads:
  assumes "tw_step P L s e s'" "\<not> tw_running s" "tw_main s = M_Read \<longrightarrow> line_ready s"
  shows "tw_main s' = M_Read \<longrightarrow> line_ready s'"
  using assms(1)
proof cases
  case m_command
  then show ?thesis using interactive_round_main [of P s] by auto
next
  case (m_check m)
  from m_check(2) show ?thesis by (cases rule: wait_ack_cases) (use m_check(1) in simp_all)
next
  case m_transfer
  then show ?thesis by simp
next
  case rx_round
  then show ?thesis using assms(3) by (simp add: line_ready_def)
qed (use assms(2,3) in \<open>auto simp: line_ready_def\<close>)

lemma stopped_trace:
  assumes "tw_trace P L s es t" "\<not> tw_running s"
  shows "\<not> tw_running t \<and> ((tw_main s = M_Read \<longrightarrow> line_ready s) \<longrightarrow> (tw_main t = M_Read \<longrightarrow> line_ready t))"
  using assms(1)
proof induction
  case tw_start
  then show ?case using assms(2) by simp
next
  case (tw_next es u e t)
  then show ?case using stopped_step [OF tw_next(2)] stopped_reads [OF tw_next(2)] by blast
qed

lemma receiver_can_go:
  assumes "\<not> tw_running s" "tw_receiver s \<noteq> R_Done"
  shows "\<exists>e s'. tw_step P L s e s' \<and> e \<notin> environment"
proof (cases "tw_receiver s")
  case R_Loop
  show ?thesis using tw_step.rx_stop [OF R_Loop assms(1)] by (auto simp: environment_def)
next
  case (R_Dispatch d)
  show ?thesis
  proof (cases "d = []")
    case True
    show ?thesis using tw_step.rx_next [OF R_Dispatch [unfolded True]] by (auto simp: environment_def)
  next
    case False
    obtain ack d' run' rx where rd: "dispatch_round P d (Some 0) (tw_rx s) = (ack, d', run', rx)" by (metis prod_cases4)
    have "tw_running s = (Some 0 \<noteq> Some (0 :: nat))" using assms(1) by simp
    from tw_step.rx_round [OF R_Dispatch False this rd] show ?thesis
      by (intro exI conjI, assumption) (simp add: environment_def)
  qed
next
  case R_Transfer
  obtain r d u where t: "usb_bulk_in L CF_IN_ENDPOINT USB_RX_TX_PACKET_SIZE TW_USB_TIMEOUT_MS (tw_usb s) = (r, d, u)"
    by (metis prod_cases3)
  consider (none) "r = LIBUSB_ERROR_TIMEOUT \<or> r = LIBUSB_SUCCESS \<and> d = []" | (packet) "r = LIBUSB_SUCCESS" "d \<noteq> []"
    | (error) "r \<noteq> LIBUSB_ERROR_TIMEOUT" "r \<noteq> LIBUSB_SUCCESS" by blast
  then show ?thesis
  proof cases
    case none
    show ?thesis using tw_step.rx_nothing [OF R_Transfer t none] by (auto simp: environment_def)
  next
    case packet
    show ?thesis using tw_step.rx_packet [OF R_Transfer t [unfolded packet(1)] packet(2)] by (auto simp: environment_def)
  next
    case error
    show ?thesis using tw_step.rx_error [OF R_Transfer t error] by (auto simp: environment_def)
  qed
qed (use assms(2) in simp)

lemma main_can_go:
  assumes "\<not> tw_running s" "tw_receiver s = R_Done" "tw_main s \<noteq> M_Closed" "tw_main s = M_Read \<longrightarrow> line_ready s"
  shows "\<exists>e s'. tw_step P L s e s' \<and> e \<notin> environment"
proof (cases "tw_main s")
  case M_Prompt
  show ?thesis using tw_step.m_leave [OF M_Prompt assms(1)] by (auto simp: environment_def)
next
  case M_Read
  show ?thesis using tw_step.m_command [OF M_Read] assms(4) M_Read by (auto simp: environment_def)
next
  case (M_Begin m)
  obtain a q payload where m: "m = (a, q, payload)" by (cases m)
  show ?thesis using tw_step.m_begin [OF M_Begin [unfolded m], of P L 0] unfolding environment_def by blast
next
  case (M_Send ds m)
  show ?thesis
  proof (cases ds)
    case Nil
    show ?thesis using tw_step.m_sent [OF M_Send [unfolded Nil]] by (auto simp: environment_def)
  next
    case (Cons d ds')
    obtain ok u where t: "send_exact L d (tw_usb s) = (ok, u)" by (cases "send_exact L d (tw_usb s)")
    from tw_step.m_transfer [OF M_Send [unfolded Cons] t] show ?thesis
      by (intro exI conjI, assumption) (simp add: environment_def)
  qed
next
  case (M_Check m)
  have "wait_ack_ms m s = (E_Failed, s\<lparr>tw_main := M_Prompt\<rparr>)" using assms(1) by (simp add: wait_ack_ms_def)
  from tw_step.m_check [OF M_Check this] show ?thesis by (auto simp: environment_def)
next
  case (M_Wait m)
  show ?thesis using tw_step.m_woken [OF M_Wait] by (auto simp: environment_def)
next
  case M_Join
  show ?thesis using tw_step.m_join [OF M_Join assms(2)] by (auto simp: environment_def)
qed (use assms(3) in simp)

text \<open>
  C0. After \<open>keep_running\<close> has been cleared, by a signal, \<open>quit\<close> or a lost device, the threads make only
  finitely many more steps, whatever is typed meanwhile. At every moment both have ended, or one of
  them can go on, or the receiver has ended and the main thread waits in \<open>fgets\<close> for the terminal.
  This last case needs a main thread that was in \<open>fgets\<close> already, without a line, when the flag was cleared:
  otherwise, or once a line is typed or the input ends, the program ends.
\<close>

theorem twoway_stops:
  assumes "\<not> tw_running s" and "tw_trace P L s es t"
  shows "(\<forall>run events. run 0 = t \<and> (\<forall>n. tw_step P L (run n) (events n) (run (Suc n))) \<longrightarrow>
       finite {n. events n \<notin> environment}) \<and>
    (tw_receiver t = R_Done \<and> tw_main t = M_Closed \<or>
     (\<exists>e t'. tw_step P L t e t' \<and> e \<notin> environment) \<or>
     tw_receiver t = R_Done \<and> tw_main t = M_Read \<and> \<not> line_ready t) \<and>
    (tw_main s \<noteq> M_Read \<or> line_ready s \<longrightarrow> \<not> (tw_main t = M_Read \<and> \<not> line_ready t))"
proof (intro conjI allI impI)
  note stopped = stopped_trace [OF assms(2,1)]
  fix run events
  assume "run 0 = t \<and> (\<forall>n. tw_step P L (run n) (events n) (run (Suc n)))"
  then have run: "run 0 = t" "\<And>n. tw_step P L (run n) (events n) (run (Suc n))" by simp_all
  have flag: "\<not> tw_running (run n)" for n
    by (induction n) (use run stopped stopped_step in blast)+
  note less = stopped_work [OF run(2) flag]
  have "finite {n. (stages (run (Suc n)), stages (run n)) \<in> work}"
    by (rule finitely_often_less [OF work_facts]) (use less in \<open>metis (full_types)\<close>)
  moreover have "{n. events n \<notin> environment} \<subseteq> {n. (stages (run (Suc n)), stages (run n)) \<in> work}"
    using less by (auto split: if_splits)
  ultimately show "finite {n. events n \<notin> environment}" by (rule rev_finite_subset)
next
  have "\<not> tw_running t" using stopped_trace [OF assms(2,1)] by simp
  then show "tw_receiver t = R_Done \<and> tw_main t = M_Closed \<or> (\<exists>e t'. tw_step P L t e t' \<and> e \<notin> environment) \<or>
      tw_receiver t = R_Done \<and> tw_main t = M_Read \<and> \<not> line_ready t"
    using receiver_can_go main_can_go by blast
next
  assume "tw_main s \<noteq> M_Read \<or> line_ready s"
  then show "\<not> (tw_main t = M_Read \<and> \<not> line_ready t)" using stopped_trace [OF assms(2,1)] by blast
qed

section \<open>An example\<close>

text \<open>One packet with a record and an acknowledgement, and a user who sends one message.\<close>

definition example_record :: bytes where
  "example_record = [0xBB, 0xBB, 0, 0, 1, 0, 2, 0, 1, 0, 0, 0, 0, 0, 0, 0, 0, 0, 119]"

definition example_packet :: bytes where
  "example_packet = example_record @ [0xAC, 0xC0, 0, 1]"

definition example_file :: out_file where
  "example_file = \<lparr>fl_data = [], fl_accept = [], fl_flush = []\<rparr>"

definition example_usb :: "((bytes list \<times> bytes) \<times> bytes) usb" where
  "example_usb = \<lparr>us_world = (([example_packet], []), []), us_calls = []\<rparr>"

abbreviation example_libusb :: "((bytes list \<times> bytes) \<times> bytes) libusb" where
  "example_libusb \<equiv> recording sniffer_libusb"

abbreviation example_main :: "(int \<times> ((bytes list \<times> bytes) \<times> bytes) usb) + ((bytes list \<times> bytes) \<times> bytes) two_way" where
  "example_main \<equiv> twoway_main example_libusb example_protocol [''7'', ''0a''] (Some example_file) True [] example_usb"

lemma example_arguments_message: "first_message example_protocol [''7'', ''0a''] = (Some (7, 1, [10]), 2)"
  by (simp add: first_message_def send_from_tokens_def parse_u16_def strtoul0_def scan_number_def digit_value_def
      isspace_def tolower_def ULONG_MAX_def parse_hex_payload_def dl_hex_value_def example_protocol_def Let_def)

lemma example_rx_start:
  obtains s0 where "example_main = Inr s0" "tw_receiver s0 = R_Loop" "tw_main s0 = M_Begin (7, 1, [10])" "tw_running s0"
    "tw_input s0 = []" "us_world (tw_usb s0) = (([example_packet], []), [])"
    "tw_rx s0 = \<lparr>rx_logFile = example_file, rx_stream = [], rx_packetCount = 0\<rparr>"
proof -
  have "\<exists>s0. example_main = Inr s0 \<and> tw_receiver s0 = R_Loop \<and> tw_main s0 = M_Begin (7, 1, [10]) \<and> tw_running s0 \<and>
      tw_input s0 = [] \<and> us_world (tw_usb s0) = (([example_packet], []), []) \<and>
      tw_rx s0 = \<lparr>rx_logFile = example_file, rx_stream = [], rx_packetCount = 0\<rparr>"
    by (simp add: twoway_main_def usb_wrappers open_matching_device_def recording_def sniffer_libusb_def sniffer_device_def
        example_usb_def VENDOR_ID_def PRODUCT_ID_def example_arguments_message)
  then show thesis using that by blast
qed

lemma example_transfer:
  obtains u where "send_exact example_libusb d s = (True, u)"
    "us_world u = ((fst (fst (us_world s)), snd (fst (us_world s)) @ d), snd (us_world s))"
proof -
  obtain packets got h where w: "us_world s = ((packets, got), h)" by (cases "us_world s") auto
  then show thesis
    by (intro that [of "snd (send_exact example_libusb d s)"])
       (simp_all add: send_exact_def usb_bulk_in_def usb_bulk_out_def recording_def sniffer_libusb_def)
qed

lemma example_packet_received:
  assumes "us_world s = (([example_packet], got), [])"
  obtains u where "usb_bulk_in example_libusb CF_IN_ENDPOINT USB_RX_TX_PACKET_SIZE TW_USB_TIMEOUT_MS s =
    (LIBUSB_SUCCESS, example_packet, u)"
  using assms
  by (intro that [of "snd (snd (usb_bulk_in example_libusb CF_IN_ENDPOINT USB_RX_TX_PACKET_SIZE TW_USB_TIMEOUT_MS s))"])
     (simp add: usb_bulk_in_def usb_bulk_out_def recording_def sniffer_libusb_def example_packet_def example_record_def USB_RX_TX_PACKET_SIZE_def)

lemma example_dispatch:
  "dispatch_round example_protocol example_packet None \<lparr>rx_logFile = example_file, rx_stream = [], rx_packetCount = 0\<rparr> =
     (True, [], None, \<lparr>rx_logFile = example_file\<lparr>fl_data := example_record\<rparr>, rx_stream = [], rx_packetCount = 1\<rparr>)"
  by (simp add: dispatch_round_def example_packet_def example_record_def example_protocol_def downlink_ack_def SNIFFER_DOWNLINK_ACK_SIZE_def
      append_sniffer_bytes_def STREAM_BUFFER_SIZE_def parse_sniffer_stream.simps sniffer_meta_size_def magic_bytes_def read_le16_def
      MAX_MESSAGE_SIZE_def consume_stream_def fwrite_def fflush_def example_file_def)

lemma example_trace:
  obtains s0 t t' where "example_main = Inr s0"
    "tw_trace example_protocol example_libusb s0 [E_Reset, E_None, E_None, E_None, E_None, E_Received example_packet, E_Ack, E_None] t"
    "tw_step example_protocol example_libusb t (E_Confirmed (7, 1, [10])) t'"
    "tw_running t" "tw_receiver t = R_Loop" "tw_receiver t' = R_Loop" "tw_main t' = M_Prompt" "tw_input t' = []"
proof -
  let ?step = "tw_step example_protocol example_libusb" and ?m = "(7, 1, [10]) :: message"
  obtain s0 where s0: "example_main = Inr s0" "tw_receiver s0 = R_Loop" "tw_main s0 = M_Begin ?m" "tw_running s0"
    "tw_input s0 = []" "us_world (tw_usb s0) = (([example_packet], []), [])"
    "tw_rx s0 = \<lparr>rx_logFile = example_file, rx_stream = [], rx_packetCount = 0\<rparr>" using example_rx_start .
  let ?meta = "downlink_meta example_protocol 7 1 [10] 0"
  have ds: "downlink_transfers example_protocol 7 1 [10] 0 = [?meta, [10]]"
    by (simp add: downlink_transfers_def chunks.simps USB_RX_TX_PACKET_SIZE_def)
  define s1 where "s1 = s0\<lparr>tw_ackReceived := False, tw_main := M_Send [?meta, [10]] ?m\<rparr>"
  have 1: "?step s0 E_Reset s1" using tw_step.m_begin [OF s0(3), of example_protocol example_libusb 0] by (simp add: ds s1_def)
  obtain u1 where u1: "send_exact example_libusb ?meta (tw_usb s1) = (True, u1)"
    "us_world u1 = (([example_packet], ?meta), [])"
    using example_transfer [of ?meta "tw_usb s1"] s0(6) by (auto simp: s1_def)
  define s2 where "s2 = s1\<lparr>tw_usb := u1, tw_main := M_Send [[10]] ?m\<rparr>"
  have 2: "?step s1 E_None s2" using tw_step.m_transfer [of s1 ?meta "[[10]]" ?m, OF _ u1(1), of example_protocol] by (simp add: s1_def s2_def)
  obtain u2 where u2: "send_exact example_libusb [10] (tw_usb s2) = (True, u2)"
    "us_world u2 = (([example_packet], ?meta @ [10]), [])"
    using example_transfer [of "[10]" "tw_usb s2"] u1(2) by (auto simp: s2_def)
  define s3 where "s3 = s2\<lparr>tw_usb := u2, tw_main := M_Send [] ?m\<rparr>"
  have 3: "?step s2 E_None s3" using tw_step.m_transfer [of s2 "[10]" "[]" ?m, OF _ u2(1), of example_protocol] by (simp add: s2_def s3_def)
  define s4 where "s4 = s3\<lparr>tw_main := M_Check ?m\<rparr>"
  have 4: "?step s3 E_None s4" using tw_step.m_sent [of s3 ?m example_protocol example_libusb] by (simp add: s3_def s4_def)
  obtain u where u: "usb_bulk_in example_libusb CF_IN_ENDPOINT USB_RX_TX_PACKET_SIZE TW_USB_TIMEOUT_MS (tw_usb s4) =
    (LIBUSB_SUCCESS, example_packet, u)" using example_packet_received [of "tw_usb s4"] u2(2) by (auto simp: s3_def s4_def)
  have r4: "tw_receiver s4 = R_Loop" "tw_running s4" using s0 by (simp_all add: s4_def s3_def s2_def s1_def)
  define s4' where "s4' = s4\<lparr>tw_receiver := R_Transfer\<rparr>"
  have 45: "?step s4 E_None s4'" using tw_step.rx_begin [OF r4, of example_protocol example_libusb] by (simp add: s4'_def)
  define s5 where "s5 = s4'\<lparr>tw_usb := u, tw_receiver := R_Dispatch example_packet\<rparr>"
  have ne: "example_packet \<noteq> []" by (simp add: example_packet_def)
  have r4': "tw_receiver s4' = R_Transfer" "tw_usb s4' = tw_usb s4" by (simp_all add: s4'_def)
  have 5: "?step s4' (E_Received example_packet) s5"
    using tw_step.rx_packet [OF r4'(1), unfolded r4'(2), OF u ne, of example_protocol] by (simp add: s5_def)
  define s6 where "s6 = s5\<lparr>tw_ackReceived := True, tw_rx := \<lparr>rx_logFile = example_file\<lparr>fl_data := example_record\<rparr>, rx_stream = [], rx_packetCount = 1\<rparr>,
    tw_receiver := R_Dispatch [], tw_running := True\<rparr>"
  have r5: "tw_receiver s5 = R_Dispatch example_packet" "tw_running s5 = (None \<noteq> Some (0 :: nat))"
    "tw_rx s5 = \<lparr>rx_logFile = example_file, rx_stream = [], rx_packetCount = 0\<rparr>"
    using r4 s0 by (simp_all add: s5_def s4'_def s4_def s3_def s2_def s1_def)
  have 6: "?step s5 E_Ack s6"
    using tw_step.rx_round [OF r5(1) ne r5(2), unfolded r5(3), OF example_dispatch, of example_libusb] by (simp add: s6_def)
  define s7 where "s7 = s6\<lparr>tw_receiver := R_Loop\<rparr>"
  have 7: "?step s6 E_None s7" using tw_step.rx_next [of s6 example_protocol example_libusb] by (simp add: s6_def s7_def)
  have m: "tw_main s7 = M_Check ?m" "tw_running s7" "tw_ackReceived s7"
    by (simp_all add: s7_def s6_def s5_def s4'_def s4_def)
  have "tw_trace example_protocol example_libusb s0 [E_Reset, E_None, E_None, E_None, E_None, E_Received example_packet, E_Ack, E_None] s7"
    using tw_next [OF tw_next [OF tw_next [OF tw_next [OF tw_next [OF tw_next [OF tw_next [OF tw_next [OF tw_start 1] 2] 3] 4] 45] 5] 6] 7]
    by simp
  moreover have "wait_ack_ms ?m s7 = (E_Confirmed ?m, s7\<lparr>tw_ackReceived := False, tw_main := M_Prompt\<rparr>)"
    using m by (simp add: wait_ack_ms_def)
  ultimately show thesis using s0(1) tw_step.m_check [OF m(1)] m(2) s0(5)
    by (intro that [of s0 s7 "s7\<lparr>tw_ackReceived := False, tw_main := M_Prompt\<rparr>"])
       (simp_all add: s7_def s6_def s5_def s4'_def s4_def s3_def s2_def s1_def)
qed

lemma example_closed:
  obtains s0 es t where "example_main = Inr s0" "tw_trace example_protocol example_libusb s0 es t" "tw_main t = M_Closed"
proof -
  obtain s0 t t' where ex: "example_main = Inr s0"
    "tw_trace example_protocol example_libusb s0 [E_Reset, E_None, E_None, E_None, E_None, E_Received example_packet, E_Ack, E_None] t"
    "tw_step example_protocol example_libusb t (E_Confirmed (7, 1, [10])) t'"
    "tw_receiver t' = R_Loop" "tw_main t' = M_Prompt" "tw_input t' = []"
    using example_trace by metis
  let ?z = "handle_sigint t'"
  let ?a = "?z\<lparr>tw_main := M_Join\<rparr>"
  let ?b = "?a\<lparr>tw_receiver := R_Done\<rparr>"
  have z: "tw_step example_protocol example_libusb t' E_Signal ?z" by (rule tw_step.signal)
  have a: "tw_step example_protocol example_libusb ?z E_None ?a"
    by (rule tw_step.m_leave) (simp_all add: ex(5))
  have b: "tw_step example_protocol example_libusb ?a E_None ?b" by (rule tw_step.rx_stop) (simp_all add: ex(4))
  have "tw_step example_protocol example_libusb ?b E_None
      (?b\<lparr>tw_usb := device_cleanup True True True (tw_usb ?b), tw_main := M_Closed\<rparr>)"
    by (rule tw_step.m_join) simp_all
  from tw_next [OF tw_next [OF tw_next [OF tw_next [OF tw_next [OF ex(2,3)] z] a] b] this]
  show thesis by (rule that [OF ex(1)]) simp
qed

theorem twoway_logs_records_witness:
  "\<exists>s0 es t. example_main = Inr s0 \<and> tw_trace example_protocol example_libusb s0 es t \<and>
     fl_data (rx_logFile (tw_rx t)) = concat (fst (frames example_protocol (sniffer_stream example_protocol es))) \<and>
     packets_of es = [example_packet]"
proof -
  obtain s0 t t' where ex: "example_main = Inr s0"
    "tw_trace example_protocol example_libusb s0 [E_Reset, E_None, E_None, E_None, E_None, E_Received example_packet, E_Ack, E_None] t"
    "tw_running t" "tw_receiver t = R_Loop" using example_trace by metis
  have "small_meta example_protocol"
    by (simp add: small_meta_def sniffer_meta_size_def example_protocol_def MAX_MESSAGE_SIZE_def USB_RX_TX_PACKET_SIZE_def
        STREAM_BUFFER_SIZE_def)
  from twoway_logs_records [OF this ex(1) _ _ ex(2)] show ?thesis using ex
    by (intro exI [of _ s0] exI [of _ "[E_Reset, E_None, E_None, E_None, E_None, E_Received example_packet, E_Ack, E_None]"] exI [of _ t])
       (simp add: example_file_def)
qed

theorem twoway_confirms_message_witness:
  "\<exists>s0 es t t'. example_main = Inr s0 \<and> tw_trace example_protocol example_libusb s0 es t \<and>
     tw_step example_protocol example_libusb t (E_Confirmed (7, 1, [10])) t' \<and>
     (\<exists>before txTime. bulk_outs (us_calls (tw_usb t')) =
        before @ map (\<lambda>d. (d, True)) (downlink_transfers example_protocol 7 1 [10] txTime))"
proof -
  obtain s0 t t' where ex: "example_main = Inr s0"
    "tw_trace example_protocol example_libusb s0 [E_Reset, E_None, E_None, E_None, E_None, E_Received example_packet, E_Ack, E_None] t"
    "tw_step example_protocol example_libusb t (E_Confirmed (7, 1, [10])) t'" using example_trace by metis
  from twoway_confirms_message [OF ex] show ?thesis using ex by blast
qed

theorem twoway_releases_witness:
  "\<exists>s0 es t. example_main = Inr s0 \<and> tw_trace example_protocol example_libusb s0 es t \<and> tw_main t = M_Closed \<and>
     held (us_calls (tw_usb t)) = (0, 0, 0, 0) \<and> tw_receiver t = R_Done"
proof -
  obtain s0 es t where ex: "example_main = Inr s0" "tw_trace example_protocol example_libusb s0 es t" "tw_main t = M_Closed"
    using example_closed .
  have "held (us_calls example_usb) = (0, 0, 0, 0)" by (simp add: example_usb_def)
  then show ?thesis using ex
      twoway_releases [where L = example_libusb and P = example_protocol and args = "[''7'', ''0a'']" and
        fp = "Some example_file" and thread = True and input = "[]" and s = example_usb] by auto
qed

theorem twoway_stops_witness:
  "\<exists>s t :: ((bytes list \<times> bytes) \<times> bytes) two_way. \<not> tw_running s \<and>
     tw_trace example_protocol example_libusb s [E_Terminal] t \<and> tw_input t = ''quit'' \<and> tw_receiver t = R_Loop \<and>
     (\<exists>e t'. tw_step example_protocol example_libusb t e t' \<and> e \<notin> environment)"
proof -
  obtain s0 where "tw_receiver s0 = R_Loop" "tw_input s0 = []" and s0: "example_main = Inr s0" using example_rx_start by metis
  define s where "s = s0\<lparr>tw_running := False, tw_eof := False\<rparr>"
  define t where "t = s\<lparr>tw_input := ''quit''\<rparr>"
  have s: "\<not> tw_running s" "tw_receiver t = R_Loop" "tw_input s = []" "\<not> tw_eof s"
    using \<open>tw_receiver s0 = R_Loop\<close> \<open>tw_input s0 = []\<close> by (simp_all add: s_def t_def)
  have "tw_step example_protocol example_libusb s E_Terminal t"
    using tw_step.typed [OF s(4), of example_protocol example_libusb "''quit''"] by (simp add: t_def s(3))
  from tw_next [OF tw_start this] have tr: "tw_trace example_protocol example_libusb s [E_Terminal] t" by simp
  from twoway_stops [OF s(1) tr] s(2) have "\<exists>e t'. tw_step example_protocol example_libusb t e t' \<and> e \<notin> environment" by simp
  then show ?thesis using s(1,2) tr by (intro exI [of _ s] exI [of _ t]) (simp add: t_def)
qed

text \<open>
  The last case is real: a program that has lost its device, or was interrupted, while the user is at the prompt
  does nothing until a line is typed or the input ends.
\<close>

lemma stopped_waits_for_terminal:
  assumes "\<not> tw_running s" "tw_receiver s = R_Done" "tw_main s = M_Read" "\<not> line_ready s" "tw_step P L s e s'"
  shows "e \<in> environment \<and> tw_receiver s' = R_Done \<and> tw_main s' = M_Read \<and> \<not> tw_running s'"
  using assms(5) by cases (use assms(1-4) in \<open>simp_all add: environment_def\<close>)

text \<open>
  A record whose payload has the bytes of an acknowledgement: they are cut out of the stream, so that the
  record is not logged, and count as an acknowledgement.
\<close>

lemma record_taken_for_acknowledgement:
  "let d = [0xBB, 0xBB, 0, 0, 1, 0, 2, 0, 4, 0, 0, 0, 0, 0, 0, 0, 0, 0, 0xAC, 0xC0, 0, 1];
       rx = \<lparr>rx_logFile = example_file, rx_stream = [], rx_packetCount = 0\<rparr>
   in frames example_protocol d = ([d], []) \<and>
      dispatch_round example_protocol d None rx = (True, [], None, rx\<lparr>rx_stream := take 18 d\<rparr>)"
  by (simp add: dispatch_round_def example_protocol_def downlink_ack_def SNIFFER_DOWNLINK_ACK_SIZE_def frames.simps frame_at_def
      append_sniffer_bytes_def STREAM_BUFFER_SIZE_def parse_sniffer_stream.simps sniffer_meta_size_def magic_bytes_def read_le16_def
      MAX_MESSAGE_SIZE_def consume_stream_def Let_def)

end
