(* ===== verification/Recorders.thy ===== *)
theory Recorders
  imports Capture_Properties Windows_Capture Twoway_Properties
begin

text \<open>
  The three programs that record the stream of the sniffer, \<open>sniffer_storage\<close>, \<open>ground_control_windows\<close>
  and \<open>twoway_transport\<close>, have parsers of their own, which treat damaged streams differently. On a stream
  that begins anywhere and then has whole records they agree; the lemmas here say what each does.
\<close>

text \<open>The layout of the protocol header that the first and the last of the programs write out.\<close>

definition sniffer_layout :: "sniffer_protocol \<Rightarrow> bool" where
  "sniffer_layout P \<longleftrightarrow> sniffer_meta_size P = SNIFFER_META_SIZE \<and>
     (\<forall>raw. length raw = SNIFFER_META_SIZE \<longrightarrow> sp_msgLength P raw = message_length (sniffer_decode_meta raw))"

lemma no_magic_before_Cons:
  "no_magic_before (b # g) rest \<longleftrightarrow> \<not> magic_matches (b # g @ rest) \<and> no_magic_before g rest"
  by (auto simp: no_magic_before_def nth_Cons' less_Suc_eq_0_disj)

lemma complete_record_mono: "complete_record m r \<Longrightarrow> m \<le> n \<Longrightarrow> complete_record n r"
  by (simp add: complete_record_def)

section \<open>The two-way program\<close>

lemma frames_garbage: "no_magic_before g rest \<Longrightarrow> fst (frames P (g @ rest)) = fst (frames P rest)"
proof (induction g)
  case (Cons b g)
  then have m: "take 4 (b # g @ rest) \<noteq> magic_bytes" "no_magic_before g rest"
    by (simp_all add: no_magic_before_Cons magic_matches_def)
  show ?case
  proof (cases "length (b # g @ rest) < 4")
    case True
    then show ?thesis by (simp add: frames.simps)
  next
    case False
    then have "frames P (b # g @ rest) = frames P (g @ rest)" using m(1) by (subst frames.simps) simp
    then show ?thesis using Cons.IH m(2) by simp
  qed
qed simp

lemma frames_record:
  assumes "sniffer_layout P" "complete_record MAX_MESSAGE_SIZE r"
  shows "frames P (r @ rest) = (case frames P rest of (fs, left) \<Rightarrow> (r # fs, left))"
proof -
  have len: "length r = 18 + record_payload_length r" "record_payload_length r \<le> MAX_MESSAGE_SIZE"
    and magic: "take 4 r = magic_bytes"
    using assms(2) by (simp_all add: complete_record_def SNIFFER_META_SIZE_def magic_matches_def)
  have n: "sniffer_meta_size P = 18" using assms(1) by (simp add: sniffer_layout_def SNIFFER_META_SIZE_def)
  have "sp_msgLength P (take 18 (r @ rest)) = message_length (sniffer_decode_meta r)"
    using assms(1) len decode_meta_take [of 18 r] by (simp add: sniffer_layout_def SNIFFER_META_SIZE_def)
  then have k: "frame_at P (r @ rest) = length r" using len by (simp add: frame_at_def n record_payload_length_def)
  have "4 \<le> length (r @ rest)" "18 \<le> length (r @ rest)" "length r \<le> 18 + MAX_MESSAGE_SIZE" "length r \<le> length (r @ rest)"
    using len by simp_all
  moreover have "take 4 (r @ rest) = magic_bytes" using magic len(1) by (simp only: take_append) simp
  ultimately show ?thesis by (simp add: frames.simps [of P "r @ rest"] k n not_less del: length_append take_append)
qed

lemma frames_records:
  assumes "sniffer_layout P" "list_all (complete_record MAX_MESSAGE_SIZE) rs"
  shows "frames P (concat rs) = (rs, [])"
proof -
  have "frames P [] = ([], [])" by (simp add: frames.simps)
  then show ?thesis using assms(2) by (induction rs) (simp_all add: frames_record [OF assms(1)])
qed

section \<open>The capture core\<close>

lemma parse_stored_clean:
  assumes "list_all (complete_record m) rs" "no_magic_before g (concat rs)"
  shows "parse_stored (parse m None (g @ concat rs)) = concat rs"
proof -
  have nil: "parse m None [] = []" by (simp add: parse.simps)
  have stored: "parse_stored (map Record rs) = concat rs" for rs by (induction rs) simp_all
  have all: "parse m None (concat rs) = map Record rs"
    using parse_records_concat [OF assms(1), of "[]"] nil by simp
  show ?thesis
  proof (cases rs)
    case Nil
    then have "sync g = []" using sync_garbage [of g "[]"] assms(2) by simp
    then show ?thesis using Nil by (simp add: parse.simps)
  next
    case (Cons r rs')
    then have r: "complete_record m r" "list_all (complete_record m) rs'" using assms(1) by simp_all
    have rest: "parse m None (concat rs') = map Record rs'" using parse_records_concat [OF r(2), of "[]"] nil by simp
    show ?thesis
    proof (cases "g = []")
      case True
      then show ?thesis using all stored by simp
    next
      case False
      then have "parse m None (g @ r @ concat rs') = Skipped g # Record r # parse m None (concat rs')"
        using parse_garbage_record [of g r "concat rs'" m None] assms(2) r(1) Cons by simp
      then show ?thesis using Cons rest stored by simp
    qed
  qed
qed

lemma capture_clean:
  assumes "list_all (complete_record (max_payload opts)) rs" "no_magic_before g (concat rs)"
    and "mock_wf (cs_context s)" "mock_pending (cs_context s) = g @ concat rs"
    and "max_records opts = 0" "accepts_all (cs_output s)" "cs_running s = None" "capture_options_valid opts"
  shows "\<exists>r s'. sniffer_capture True mock_transport opts s = Some (r, s') \<and>
    fl_data (cs_output s') = fl_data (cs_output s) @ concat rs"
proof -
  let ?xs = "parse (max_payload opts) (limit_of opts s) (mock_pending (cs_context s))"
  have rd: "t_read mock_transport = Some mock_read" by (simp add: mock_transport_def)
  have lim: "limit_of opts s = None" using assms(5) by (simp add: limit_of_def)
  show ?thesis
  proof (rule mock.sniffer_capture_stream [OF rd assms(8,3,7,6) refl])
    fix c t
    assume "sniffer_capture True mock_transport opts s =
      Some (end_status SNIFFER_IO_EOF, moved (leave opts 0 ?xs s) c t 0 (end_errors SNIFFER_IO_EOF))"
    then show ?thesis using parse_stored_clean [OF assms(1,2)] by (simp add: moved_def lim assms(4))
  qed (simp add: lim)
qed

section \<open>The first capture program\<close>

lemma windows_stored_clean:
  assumes "list_all (complete_record MAX_MESSAGE_SIZE) rs" "no_magic_before g (concat rs)"
  shows "windows_stored (g @ concat rs) = concat rs"
proof -
  have one: "windows_stored (r @ rest) = r @ windows_stored rest" if "complete_record MAX_MESSAGE_SIZE r" for r rest
  proof -
    have len: "length r = 18 + record_payload_length r" "record_payload_length r \<le> MAX_MESSAGE_SIZE" "magic_matches r"
      using that by (simp_all add: complete_record_def SNIFFER_META_SIZE_def)
    have "record_payload_length (take 18 r) = record_payload_length r" "magic_matches (take 18 r)"
      using len decode_meta_take [of 18 r] by (simp_all add: record_payload_length_def magic_matches_def)
    then have "windows_stored (take 18 r @ drop 18 r @ rest) = take 18 r @ drop 18 r @ windows_stored rest"
      by (intro windows_stored_record) (use len in simp_all)
    moreover have "take 18 r @ drop 18 r @ x = r @ x" for x by (metis append_assoc append_take_drop_id)
    ultimately show ?thesis by metis
  qed
  have "windows_stored (concat rs) = concat rs"
    using assms(1) by (induction rs) (simp_all add: one windows_stored_short)
  moreover have "windows_stored (g @ concat rs) = windows_stored (concat rs)"
    using sync_garbage [OF assms(2)] by (rule windows_stored_cong)
  ultimately show ?thesis by simp
qed

end
