(* ===== verification/Spec2Isabelle.thy ===== *)
theory Spec2Isabelle
  imports Sniffer_Hex Ota_Flasher Ground_Admin Ground_Ota Sniffer_Storage
    Simulation_Properties Simulation_Log Simulation_Mutex Swarm_Sockets Swarm_Halt Pc_To_Uwb Recorders
begin

text \<open>
  A verification of the ground station of an ultra-wideband drone swarm, and of the simulation that
  replays its recordings.

  \<^bold>\<open>The program.\<close> A sniffer, a Crazyflie on USB, hears the radio messages of the swarm and hands them to
  the host as records: a meta of 18 bytes, beginning with a magic number, and a payload. The host
  programs under \<open>sniffer_storage/\<close> record the stream, and use the sniffer as a relay for messages to
  the drones: console commands, firmware images and free payloads. A flasher under \<open>ota/\<close> prints the
  packets of an image. A center and one process per drone replay a recorded flight log for the ranging
  library.

  \<^bold>\<open>The theories and the sources they model.\<close>

    \<^item> \<open>Prelude\<close>, \<open>C_Text\<close>, \<open>Byte_Order\<close>: machine integers as words, the C library on text (\<open>strtoul\<close>,
      \<open>fgets\<close>, \<open>isspace\<close>, the conversions of \<open>printf\<close>), little-endian numbers, loops.
    \<^item> \<open>Sniffer_Transport\<close> (\<open>sniffer_capture.h\<close>, \<open>sniffer_buffered_transport.c\<close>): a transport is a pair of
      functions on its context. \<open>byte_source\<close> and \<open>byte_stream\<close> are what the parser relies on,
      \<open>packet_source\<close> and \<open>packet_stream\<close> what a USB device gives; the adapter turns one into the other.
      \<open>Mock_Transport\<close> has the transports of \<open>test_sniffer_storage.c\<close>.
    \<^item> \<open>Sniffer_Capture\<close> (\<open>sniffer_capture.c\<close>): the record parser and the sender. \<open>Capture_Spec\<close> says what
      a stream means, \<open>Capture_Refine\<close> that the parser computes it, \<open>Capture_Safety\<close> what holds over any
      transport, \<open>Capture_Send\<close> the sender, \<open>Capture_Context\<close> what a capture keeps of its context,
      \<open>Capture_Properties\<close> the properties.
    \<^item> \<open>Sniffer_Hex\<close> (\<open>sniffer_hex.c\<close>).
    \<^item> \<open>Libusb\<close>, \<open>Libusb_Transport\<close> (\<open>libusb_transport.c\<close>), \<open>Sniffer_Storage\<close> (\<open>sniffer_storage.c\<close>): the
      capture program from its command line to its exit code. \<open>C_Double\<close> has the values of a \<open>double\<close> and
      their text, \<open>Plot_Macos\<close> (\<open>sniffer_plot_macos.c\<close>) the start of the analyzer after a capture.
    \<^item> \<open>Crc32\<close>, \<open>Ota_Message\<close>, \<open>Usb_Session\<close>, \<open>Ota_Broadcast\<close>, \<open>Ota_Relay\<close>, \<open>Ground_Ota\<close> (\<open>ground_ota.c\<close>):
      the checksum, the messages, the USB session and the broadcast of an image. \<open>Ground_Admin\<close>
      (\<open>ground_admin.c\<close>): the console. \<open>Ota_Flasher\<close> (\<open>ota/ota_flasher.c\<close>).
    \<^item> \<open>Matching_Device\<close>, \<open>Windows_Capture\<close> (\<open>ground_control_windows.c\<close>), \<open>Downlink\<close>, \<open>Pc_To_Uwb\<close>
      (\<open>pc_to_uwb.c\<close>), \<open>Twoway_Stream\<close>, \<open>Twoway_Transport\<close>, \<open>Twoway_Properties\<close> (\<open>twoway_transport.c\<close>): the
      first generation of the host programs, which works on libusb directly. The last one has two
      threads; \<open>tw_step\<close> is their step relation. \<open>Recorders\<close> compares the three programs that record.
    \<^item> \<open>Flight_Log\<close>, \<open>Simulation\<close>, \<open>Simulation_Protocol\<close>, \<open>Simulation_Invariant\<close>, \<open>Simulation_Progress\<close>,
      \<open>Simulation_Properties\<close>, \<open>Center_Startup\<close> (\<open>center.c\<close>, \<open>drone.c\<close>, \<open>frame.h\<close>, \<open>support.c\<close>): the log as it is
      read, the registration of the drones as the step relation \<open>startup_step\<close>, and the threads of the center and
      the drones during a run as \<open>sim_step\<close>. \<open>Swarm_Leaving\<close> and \<open>Swarm_Halt\<close> have the run with drones
      that leave, as \<open>swarm_step\<close>, which is \<open>sim_step\<close> as long as all stay. \<open>Simulation_Log\<close> has the file all drones print to,
      \<open>Simulation_Mutex\<close> the mutexes of \<open>support.c\<close>, and \<open>Swarm_Sockets\<close> the sockets: the listening one of the center
      and \<open>main\<close> of a drone.

  \<^bold>\<open>State and effects.\<close> A C struct is a record, an array the list of its bytes, a buffer with a length the
  list of the bytes in use. Everything a function changes is passed in and returned. libusb is not part
  of the repository: its functions are the fields of the record \<open>libusb\<close>, an argument of the model, over
  a state that only they change; the wrappers keep a log of the calls, and \<open>held\<close> (contexts, lists,
  handles, interfaces), \<open>out_transfers\<close> (the writes requested) and \<open>complete_transfers\<close> (those that the
  library reported as carried out without an error and with all their bytes) are read from it. The ranging library
  and \<open>adhocuwb_sniffer_protocol.h\<close> belong to a git submodule and are arguments in the same way. An output
  file has its bytes and a script that says how much of each write is accepted. The signal flag is the
  number of times it is still read as set, \<open>None\<close> for ever.

  \<^bold>\<open>What is proved.\<close> For the captures: over any transport only complete records are stored, counted
  and balanced against the bytes received; over a byte stream exactly the records of the
  specification are, however the stream is cut; the programs, over any device, do this from the command
  line to the file. For the senders: what is requested is a prefix of the schedule of the command or
  the image, all but at most the last of it carried out, and all of it when the program reports success;
  over a relay that works it succeeds. A plot that is asked for and fails is reported in the exit code. For every
  program: what it acquired is released on every path, and a signal ends it (the two-way program once
  its user has typed a line, when it waits for one). For the threads: under
  every schedule the log of the two-way program has the records of the stream and a confirmation belongs to the
  message just sent; the drones of the simulation execute the flight log row by row, no
  thread waits for ever, and every run ends, unless a drone leaves, which stops the run; the registration goes on unless a client leaves too early. The
  three recorders store the same records of an undamaged stream. Groups of lemmas carry these: the \<open>poll\<close> lemmas on the
  signal flag, the laws of the transport locales, the balance lemmas of the USB calls, \<open>frames_append\<close> and
  its relatives on streams cut in parts, and the invariants of the step relations with their
  preservation by each step.

  \<^bold>\<open>Loops.\<close> A loop that the sources bound is recursion with a measure. A loop that waits for a device or
  a signal is \<open>partial_function (option)\<close>, and \<open>None\<close> is a run that does not return; that it
  does return (on a signal, over a stream that ends, with bounded waits) is proved as such. No fuel is used.

  \<^bold>\<open>Assumptions.\<close> The ground
  programs are built with the vendor control request. An \<open>unsigned long\<close> has 64 bits, and 32 in
  \<open>ground_control_windows.c\<close>. A text typed or given as an argument has no NUL. The simulation is
  in the configuration of \<open>support.h\<close>, its log has no missing fields, and \<open>recv\<close> returns whole messages. The
  steps of the two-way program are the accesses to what its threads share; a read of the terminal goes on
  after a signal, as \<open>signal\<close> has it on Linux and macOS.

  \<^bold>\<open>Not modelled.\<close> The Python scripts; usage texts, diagnostics on the terminal and the mutex around them;
  the test cases of \<open>test_sniffer_storage.c\<close>, whose transports are modelled.
\<close>

section \<open>The recorders agree\<close>

text \<open>
  C0. The three programs that record the sniffer store the same file: of a stream that begins with
  the rest of a record, in which no magic shows, and then consists of whole records, exactly the records. The first
  parser is that of \<open>sniffer_storage\<close>, over a transport of bytes; the second that of
  \<open>ground_control_windows\<close>, over any device that hands out the stream; the third that of \<open>twoway_transport\<close>, on the bytes
  in its buffer.
\<close>

theorem recorders_agree:
  assumes "sniffer_layout P" "list_all (complete_record MAX_MESSAGE_SIZE) rs" "no_magic_before g (concat rs)"
  shows "(\<forall>opts s. MAX_MESSAGE_SIZE \<le> max_payload opts \<and> max_records opts = 0 \<and> capture_options_valid opts \<and>
       mock_wf (cs_context s) \<and> mock_pending (cs_context s) = g @ concat rs \<and> accepts_all (cs_output s) \<and>
       cs_running s = None \<and> fl_data (cs_output s) = [] \<longrightarrow>
       (\<exists>r s'. sniffer_capture True mock_transport opts s = Some (r, s') \<and> fl_data (cs_output s') = concat rs)) \<and>
    (\<forall>(L :: 'w libusb) s s'. store_sniffer_binary_data (recording L) s = Some (0, s') \<and>
       fl_accept (wn_file s) = [] \<and> fl_data (wn_file s) = [] \<and> snd (us_world (wn_usb s)) = [] \<and>
       snd (us_world (wn_usb s')) = g @ concat rs \<longrightarrow> fl_data (wn_file s') = concat rs) \<and>
    (\<forall>run rx run' rx'. parse_sniffer_stream P run rx = (run', rx') \<and> run' \<noteq> Some 0 \<and>
       fl_accept (rx_logFile rx) = [] \<and> fl_data (rx_logFile rx) = [] \<and> rx_stream rx = g @ concat rs \<longrightarrow>
       fl_data (rx_logFile rx') = concat rs)"
proof (intro conjI allI impI; elim conjE)
  fix opts and s :: "MockTransport capture_state"
  assume o: "MAX_MESSAGE_SIZE \<le> max_payload opts" "max_records opts = 0" "capture_options_valid opts"
    and s: "mock_wf (cs_context s)" "mock_pending (cs_context s) = g @ concat rs" "accepts_all (cs_output s)"
      "cs_running s = None" "fl_data (cs_output s) = []"
  have "list_all (complete_record (max_payload opts)) rs"
    using assms(2) complete_record_mono [OF _ o(1)] by (auto simp: list_all_iff)
  from capture_clean [OF this assms(3) s(1,2) o(2) s(3,4) o(3)] s(5)
  show "\<exists>r s'. sniffer_capture True mock_transport opts s = Some (r, s') \<and> fl_data (cs_output s') = concat rs" by simp
next
  fix L :: "'w libusb" and s s'
  assume "store_sniffer_binary_data (recording L) s = Some (0, s')" "fl_accept (wn_file s) = []" "fl_data (wn_file s) = []"
    "snd (us_world (wn_usb s)) = []" "snd (us_world (wn_usb s')) = g @ concat rs"
  with recorded.store_moved [OF this(1,2)] have "fl_data (wn_file s') = windows_stored (g @ concat rs)"
    by (auto simp: store_end_def)
  then show "fl_data (wn_file s') = concat rs" using windows_stored_clean [OF assms(2,3)] by simp
next
  fix run run' and rx rx' :: RxContext
  assume p: "parse_sniffer_stream P run rx = (run', rx')" "run' \<noteq> Some 0" "fl_accept (rx_logFile rx) = []"
    "fl_data (rx_logFile rx) = []" "rx_stream rx = g @ concat rs"
  obtain fs rest where f: "frames P (rx_stream rx) = (fs, rest)" by fastforce
  then have "fs = rs" using frames_garbage [OF assms(3), of P] frames_records [OF assms(1,2)] p(5) by simp
  then show "fl_data (rx_logFile rx') = concat rs"
    using parse_stream_frames [OF p(3) f, of run] p(1,2,4) by (simp add: rx_result_def rx_logged_def)
qed

lemma example_parsed:
  "fst (parse_sniffer_stream example_protocol None
     \<lparr>rx_logFile = example_file, rx_stream = 7 # example_record, rx_packetCount = 0\<rparr>) = None"
  by (simp add: example_record_def example_protocol_def example_file_def parse_sniffer_stream.simps sniffer_meta_size_def
      magic_bytes_def read_le16_def MAX_MESSAGE_SIZE_def consume_stream_def fwrite_def fflush_def)

theorem recorders_agree_witness:
  "(\<exists>r s'. sniffer_capture True mock_transport (plain_options\<lparr>max_payload := 4096\<rparr>) (start_state (mock_init (7 # example_record)) None) =
     Some (r, s') \<and> fl_data (cs_output s') = example_record) \<and>
   (\<exists>rx'. parse_sniffer_stream example_protocol None \<lparr>rx_logFile = example_file, rx_stream = 7 # example_record, rx_packetCount = 0\<rparr> =
     (None, rx') \<and> fl_data (rx_logFile rx') = example_record)"
proof -
  let ?rx = "\<lparr>rx_logFile = example_file, rx_stream = 7 # example_record, rx_packetCount = 0\<rparr>"
  have l: "sniffer_layout example_protocol"
    by (simp add: sniffer_layout_def sniffer_meta_size_def example_protocol_def SNIFFER_META_SIZE_def sniffer_decode_meta_def)
  have r: "list_all (complete_record MAX_MESSAGE_SIZE) [example_record]"
    by (simp add: complete_record_def example_record_def record_payload_length_def SNIFFER_META_SIZE_def magic_matches_def
        magic_bytes_def sniffer_decode_meta_def read_le16_def MAX_MESSAGE_SIZE_def)
  have g: "no_magic_before [7] (concat [example_record])"
    by (simp add: no_magic_before_def magic_matches_def magic_bytes_def)
  note agree = recorders_agree [OF l r g]
  obtain rx' where p: "parse_sniffer_stream example_protocol None ?rx = (None, rx')"
    using example_parsed by (cases "parse_sniffer_stream example_protocol None ?rx") simp
  then have "fl_data (rx_logFile rx') = example_record"
    using agree [THEN conjunct2, THEN conjunct2, rule_format, of None ?rx None rx'] by (simp add: example_file_def)
  moreover have "\<exists>r s'. sniffer_capture True mock_transport (plain_options\<lparr>max_payload := 4096\<rparr>)
      (start_state (mock_init (7 # example_record)) None) = Some (r, s') \<and> fl_data (cs_output s') = example_record"
    using agree [THEN conjunct1, rule_format, of "plain_options\<lparr>max_payload := 4096\<rparr>"
        "start_state (mock_init (7 # example_record)) None"]
    by (simp add: start_state_def empty_file_def accepts_all_def MAX_MESSAGE_SIZE_def plain_options_def capture_options_valid_def)
  ultimately show ?thesis using p by blast
qed

end
